(* ===== verification/Rust_Base.thy ===== *)
theory Rust_Base
  imports Main "HOL-Library.Word" "HOL-Library.AList"
begin

text \<open>
  The prelude: what the model uses of the Rust language and its standard library, and the
  generic facts the component theories share.
  \<^item> bytes (\<open>u8\<close>), 64-bit signed integers (\<open>i64\<close>) at their width, with the two
    behaviours of Rust on overflow: the panic of a build with overflow checks and the
    wrap-around of a build without them;
  \<^item> computations that may panic (\<open>run\<close>) and \<open>Result\<close> values (a sum, \<open>Inl\<close> for \<open>Err\<close>);
  \<^item> big-endian byte strings (\<open>to_be_bytes\<close>, \<open>from_be_bytes\<close>);
  \<^item> decimal rendering of integers, used by the \<open>format!\<close> messages;
  \<^item> association lists as the finite maps behind \<open>HashMap\<close> and the SQL table.
  A Rust \<open>String\<close> is the list of its UTF-8 bytes, here the HOL type \<open>string\<close>.
\<close>

section \<open>Types\<close>

type_synonym byte = "8 word"
type_synonym bytes = "byte list"
type_synonym i64 = "64 word"
type_synonym ('e, 'a) result = "'e + 'a"

text \<open>A computation that returns, or that panics with a message.\<close>

datatype 'a run = Panic string | Ret 'a

primrec run_bind :: "'a run \<Rightarrow> ('a \<Rightarrow> 'b run) \<Rightarrow> 'b run" where
  "run_bind (Panic m) f = Panic m"
| "run_bind (Ret a) f = f a"

primrec panics :: "'a run \<Rightarrow> bool" where
  "panics (Panic m) = True"
| "panics (Ret a) = False"

named_theorems run_convs \<open>inversion of a bind that returned\<close>

lemma run_bind_Ret_conv [run_convs]:
  "run_bind m f = Ret b \<longleftrightarrow> (\<exists>a. m = Ret a \<and> f a = Ret b)"
  by (cases m) auto

lemma Ret_run_bind_conv [run_convs]:
  "Ret b = run_bind m f \<longleftrightarrow> (\<exists>a. m = Ret a \<and> f a = Ret b)"
  by (cases m) auto

lemma panics_bind [simp]:
  "panics (run_bind m f) \<longleftrightarrow> panics m \<or> (\<exists>a. m = Ret a \<and> panics (f a))"
  by (cases m) auto

lemma not_panics_conv: "\<not> panics m \<longleftrightarrow> (\<exists>a. m = Ret a)"
  by (cases m) auto

section \<open>Machine integers: i64\<close>

definition i64_min :: int where "i64_min = - (2 ^ 63)"
definition i64_max :: int where "i64_max = 2 ^ 63 - 1"

lemma sint_i64_bounds: "i64_min \<le> sint (x :: i64)" "sint (x :: i64) \<le> i64_max"
  using sint_greater_eq [of x] sint_lt [of x] by (auto simp: i64_min_def i64_max_def)

text \<open>
  Subtraction, negation and absolute value. \<open>chk\<close> says whether the build has overflow
  checks (the \<open>dev\<close> profile has them, \<open>release\<close> has not).
\<close>

definition i64_sub :: "bool \<Rightarrow> i64 \<Rightarrow> i64 \<Rightarrow> i64 run" where
  "i64_sub chk a b =
     (if chk \<and> sint (a - b) \<noteq> sint a - sint b
      then Panic ''attempt to subtract with overflow'' else Ret (a - b))"

definition i64_neg :: "bool \<Rightarrow> i64 \<Rightarrow> i64 run" where
  "i64_neg chk a =
     (if chk \<and> sint (- a) \<noteq> - sint a
      then Panic ''attempt to negate with overflow'' else Ret (- a))"

definition i64_abs :: "bool \<Rightarrow> i64 \<Rightarrow> i64 run" where
  "i64_abs chk a = (if sint a < 0 then i64_neg chk a else Ret a)"

definition i64_range :: "int \<Rightarrow> bool" where
  "i64_range x \<longleftrightarrow> i64_min \<le> x \<and> x \<le> i64_max"

lemma i64_range_sint [simp]: "i64_range (sint (x :: i64))"
  using sint_i64_bounds [of x] by (simp add: i64_range_def)

lemma signed_take_bit_64_id: "i64_range x \<Longrightarrow> signed_take_bit 63 x = x"
  by (rule signed_take_bit_int_eq_self) (auto simp: i64_range_def i64_min_def i64_max_def)

lemma sint_minus_i64:
  "i64_range (sint a - sint b) \<Longrightarrow> sint (a - b :: i64) = sint a - sint b"
  by (simp add: sint_word_ariths signed_take_bit_64_id)

lemma sint_uminus_i64: "i64_range (- sint a) \<Longrightarrow> sint (- a :: i64) = - sint a"
  by (simp add: sint_word_ariths signed_take_bit_64_id)

lemma sint_minus_i64_iff:
  "sint (a - b :: i64) = sint a - sint b \<longleftrightarrow> i64_range (sint a - sint b)"
  using sint_minus_i64 [of a b] i64_range_sint [of "a - b"] by metis

text \<open>Beyond the range the difference is off by exactly \<open>2 ^ 64\<close>.\<close>

lemma signed_take_bit_63_low:
  assumes "x < i64_min" "i64_min - 2 ^ 63 \<le> x"
  shows "signed_take_bit 63 x = x + 2 ^ 64"
proof -
  have "signed_take_bit 63 x = signed_take_bit 63 (x + 2 ^ 64)"
    by (simp add: signed_take_bit_eq_iff_take_bit_eq take_bit_eq_mod)
  also have "\<dots> = x + 2 ^ 64"
    using assms by (intro signed_take_bit_64_id) (auto simp: i64_range_def i64_min_def i64_max_def)
  finally show ?thesis .
qed

lemma signed_take_bit_63_high:
  assumes "i64_max < x" "x \<le> i64_max + 2 ^ 63"
  shows "signed_take_bit 63 x = x - 2 ^ 64"
proof -
  have "signed_take_bit 63 x = signed_take_bit 63 (x - 2 ^ 64)"
  proof -
    have "x mod 2 ^ 64 = (x - 2 ^ 64) mod 2 ^ 64" by (simp add: mod_diff_eq [symmetric])
    then show ?thesis
      by (simp add: signed_take_bit_eq_iff_take_bit_eq take_bit_eq_mod)
  qed
  also have "\<dots> = x - 2 ^ 64"
    using assms by (intro signed_take_bit_64_id) (auto simp: i64_range_def i64_min_def i64_max_def)
  finally show ?thesis .
qed

lemma sint_minus_i64_cases:
  "sint (a - b :: i64) =
     (let d = sint a - sint b in
      if d < i64_min then d + 2 ^ 64 else if i64_max < d then d - 2 ^ 64 else d)"
proof -
  let ?d = "sint a - sint b"
  have ab: "i64_min \<le> sint a" "sint a \<le> i64_max" "i64_min \<le> sint b" "sint b \<le> i64_max"
    by (rule sint_i64_bounds)+
  have eq: "sint (a - b) = signed_take_bit 63 ?d" by (simp add: sint_word_ariths)
  consider "?d < i64_min" | "i64_max < ?d" | "i64_range ?d"
    unfolding i64_range_def by linarith
  then show ?thesis
  proof cases
    case 1
    with ab have "signed_take_bit 63 ?d = ?d + 2 ^ 64"
      by (intro signed_take_bit_63_low) (auto simp: i64_min_def i64_max_def)
    with 1 eq show ?thesis by (simp add: Let_def)
  next
    case 2
    with ab have "signed_take_bit 63 ?d = ?d - 2 ^ 64"
      by (intro signed_take_bit_63_high) (auto simp: i64_min_def i64_max_def)
    with 2 eq show ?thesis by (simp add: Let_def i64_min_def i64_max_def)
  next
    case 3
    then show ?thesis by (simp add: eq signed_take_bit_64_id i64_range_def Let_def)
  qed
qed

section \<open>Big-endian byte strings\<close>

text \<open>\<open>be_bytes n v\<close>: the low \<open>n\<close> bytes of \<open>v\<close>, most significant first.\<close>

fun be_bytes :: "nat \<Rightarrow> nat \<Rightarrow> bytes" where
  "be_bytes 0 v = []"
| "be_bytes (Suc n) v = be_bytes n (v div 256) @ [of_nat v]"

definition from_be_bytes :: "bytes \<Rightarrow> nat" where
  "from_be_bytes bs = foldl (\<lambda>acc b. acc * 256 + unat b) 0 bs"

definition i64_to_be_bytes :: "i64 \<Rightarrow> bytes" where
  "i64_to_be_bytes x = be_bytes 8 (unat x)"

lemma length_be_bytes [simp]: "length (be_bytes n v) = n"
  by (induction n arbitrary: v) auto

lemma be_bytes_zero [simp]: "be_bytes n 0 = replicate n 0"
  by (induction n) (simp_all add: replicate_append_same)

lemma from_be_snoc [simp]: "from_be_bytes (bs @ [b]) = from_be_bytes bs * 256 + unat b"
  by (simp add: from_be_bytes_def)

lemma from_be_Nil [simp]: "from_be_bytes [] = 0"
  by (simp add: from_be_bytes_def)

lemma from_be_be_bytes: "from_be_bytes (be_bytes n v) = v mod 256 ^ n"
proof (induction n arbitrary: v)
  case 0
  then show ?case by simp
next
  case (Suc n)
  have "from_be_bytes (be_bytes (Suc n) v) = (v div 256 mod 256 ^ n) * 256 + v mod 256"
    by (simp add: Suc.IH unat_of_nat)
  also have "\<dots> = v mod 256 ^ Suc n"
    by (simp add: mod_mult2_eq)
  finally show ?case .
qed

lemma be_bytes_inj:
  assumes "be_bytes n v = be_bytes n w" "v < 256 ^ n" "w < 256 ^ n"
  shows "v = w"
  using arg_cong [OF assms(1), of from_be_bytes] assms(2,3) by (simp add: from_be_be_bytes)

lemma be_bytes_4: "be_bytes 4 v =
    [of_nat (v div 256 div 256 div 256), of_nat (v div 256 div 256), of_nat (v div 256), of_nat v]"
proof -
  have four: "(4 :: nat) = Suc (Suc (Suc (Suc 0)))" by simp
  show ?thesis unfolding four by simp
qed

lemma length_i64_to_be_bytes [simp]: "length (i64_to_be_bytes x) = 8"
  by (simp add: i64_to_be_bytes_def)

lemma i64_to_be_bytes_zero [simp]: "i64_to_be_bytes 0 = replicate 8 0"
  by (simp add: i64_to_be_bytes_def)

lemma i64_to_be_bytes_inj [simp]: "i64_to_be_bytes x = i64_to_be_bytes y \<longleftrightarrow> x = y"
proof
  assume "i64_to_be_bytes x = i64_to_be_bytes y"
  then have "unat x = unat y"
    unfolding i64_to_be_bytes_def
    by (rule be_bytes_inj) (use unsigned_less [of x] unsigned_less [of y] in simp_all)
  then show "x = y" by (rule unsigned_word_eqI)
qed simp

lemma from_be_bytes_bound: "from_be_bytes bs < 256 ^ length bs"
proof (induction bs rule: rev_induct)
  case Nil
  then show ?case by simp
next
  case (snoc b bs)
  have "unat b < 256" using unsigned_less [of b] by simp
  with snoc show ?case by simp
qed

section \<open>Decimal rendering\<close>

fun show_nat :: "nat \<Rightarrow> string" where
  "show_nat n =
     (if n < 10 then [char_of (48 + n)] else show_nat (n div 10) @ [char_of (48 + n mod 10)])"

declare show_nat.simps [simp del]

definition show_int :: "int \<Rightarrow> string" where
  "show_int i = (if i < 0 then CHR ''-'' # show_nat (nat (- i)) else show_nat (nat i))"

text \<open>A string between single quotes, as in \<open>format!\<close> messages.\<close>

definition squote :: "string \<Rightarrow> string" where
  "squote s = CHR 0x27 # s @ [CHR 0x27]"

text \<open>\<open>String::as_bytes\<close>: strings are the byte sequences of their UTF-8 form.\<close>

definition str_bytes :: "string \<Rightarrow> bytes" where
  "str_bytes s = map (\<lambda>c. of_nat (of_char c)) s"

section \<open>Association lists\<close>

text \<open>
  \<open>HashMap\<close> and the SQL table with its primary key are association lists with distinct
  keys: \<open>AList.update\<close> replaces in place or appends, so the length is the number of keys.
\<close>

definition keys_distinct :: "('k \<times> 'v) list \<Rightarrow> bool" where
  "keys_distinct t \<longleftrightarrow> distinct (map fst t)"

named_theorems table_laws \<open>what the table operations keep of the invariant\<close>

lemma keys_distinct_Nil [simp, table_laws]: "keys_distinct []"
  by (simp add: keys_distinct_def)

lemma keys_distinct_update [simp, table_laws]:
  "keys_distinct t \<Longrightarrow> keys_distinct (AList.update k v t)"
  by (simp add: keys_distinct_def distinct_update)

lemma keys_distinct_delete [simp, table_laws]:
  "keys_distinct t \<Longrightarrow> keys_distinct (AList.delete k t)"
  by (simp add: keys_distinct_def distinct_delete)

lemma keys_distinct_filter [simp, table_laws]:
  "keys_distinct t \<Longrightarrow> keys_distinct (filter P t)"
  by (simp add: keys_distinct_def distinct_map_filter)

lemma map_of_filter_distinct:
  "keys_distinct t \<Longrightarrow>
   map_of (filter P t) k = (case map_of t k of None \<Rightarrow> None | Some v \<Rightarrow> if P (k, v) then Some v else None)"
proof (induction t)
  case Nil
  then show ?case by simp
next
  case (Cons x t)
  obtain k' v' where x: "x = (k', v')" by (cases x)
  from Cons.prems have d: "keys_distinct t" and notin: "k' \<notin> fst ` set t"
    by (auto simp: keys_distinct_def x)
  from notin have "map_of t k' = None" by (simp add: map_of_eq_None_iff)
  with Cons.IH [OF d] show ?case by (auto simp: x)
qed

lemma length_eq_card_dom: "keys_distinct t \<Longrightarrow> length t = card (dom (map_of t))"
  using distinct_card [of "map fst t"]
  by (simp add: keys_distinct_def dom_map_of_conv_image_fst)

lemma length_update_new: "map_of t k = None \<Longrightarrow> length (AList.update k v t) = Suc (length t)"
  by (induction t) auto

lemma length_update_old: "map_of t k = Some w \<Longrightarrow> length (AList.update k v t) = length t"
  by (induction t) auto

section \<open>Lists\<close>

lemma strict_prefix_length_less: "xs = take n ys \<Longrightarrow> n < length ys \<Longrightarrow> length xs < length ys"
  by simp

lemma length_filter_less_iff: "length (filter P xs) < length xs \<longleftrightarrow> (\<exists>x \<in> set xs. \<not> P x)"
proof (induction xs)
  case Nil
  then show ?case by simp
next
  case (Cons x xs)
  have "length (filter P xs) < Suc (length xs)" by (simp add: less_Suc_eq_le)
  with Cons show ?case by auto
qed

lemma append_eq_fixed_width:
  "length a = length c \<Longrightarrow> a @ b = c @ d \<longleftrightarrow> a = c \<and> b = d"
  by simp

end
