(* ===== verification/Guard_Interface.thy ===== *)
theory Guard_Interface
  imports Rust_Base
begin

text \<open>
  The contract between a replay guard and those who rely on it: the operation that admits or
  refuses a call, and what it remembers of the calls it admitted. A call has a time, a key
  (user and nonce) and a stamp (the proof's timestamp). The client lemmas are proved once:
  over any sequence of calls with a non-decreasing clock, no two admitted calls agree on key
  and stamp. The locale is interpreted on \<open>ReplayProtector::check_and_record\<close> and on the
  request handlers of the two services that call it.
\<close>

text \<open>The calls a guard admits, over a sequence of calls.\<close>

fun admitted :: "('s \<Rightarrow> 'c \<Rightarrow> bool \<times> 's) \<Rightarrow> 's \<Rightarrow> 'c list \<Rightarrow> 'c list" where
  "admitted check s [] = []"
| "admitted check s (c # cs) =
     (let (b, s') = check s c in (if b then [c] else []) @ admitted check s' cs)"

fun final_state :: "('s \<Rightarrow> 'c \<Rightarrow> bool \<times> 's) \<Rightarrow> 's \<Rightarrow> 'c list \<Rightarrow> 's" where
  "final_state check s [] = s"
| "final_state check s (c # cs) = final_state check (snd (check s c)) cs"

lemma admitted_append:
  "admitted check s (cs @ ds) = admitted check s cs @ admitted check (final_state check s cs) ds"
  by (induction cs arbitrary: s) (simp_all add: split_beta Let_def)

locale replay_guard =
  fixes check :: "'s \<Rightarrow> 'c \<Rightarrow> bool \<times> 's"
    and time :: "'c \<Rightarrow> int"
    and key :: "'c \<Rightarrow> 'k"
    and stamp :: "'c \<Rightarrow> int"
    and window :: "'s \<Rightarrow> int"
    and knows :: "'s \<Rightarrow> 'k \<Rightarrow> int \<Rightarrow> bool"
    and invar :: "'s \<Rightarrow> bool"
    and clock_ok :: "'s \<Rightarrow> 'c \<Rightarrow> bool"
  assumes check_invar: "invar s \<Longrightarrow> clock_ok s c \<Longrightarrow> invar (snd (check s c))"
    and check_window: "window (snd (check s c)) = window s"
    and check_clock: "clock_ok (snd (check s c)) d = clock_ok s d"
    and admit_fresh: "invar s \<Longrightarrow> clock_ok s c \<Longrightarrow> fst (check s c) \<Longrightarrow> time c - window s \<le> stamp c"
    and admit_unknown: "invar s \<Longrightarrow> clock_ok s c \<Longrightarrow> fst (check s c) \<Longrightarrow> knows s (key c) t \<Longrightarrow>
      t < time c - window s"
    and admit_records: "invar s \<Longrightarrow> clock_ok s c \<Longrightarrow> fst (check s c) \<Longrightarrow>
      knows (snd (check s c)) (key c) (stamp c)"
    and check_keeps: "invar s \<Longrightarrow> clock_ok s c \<Longrightarrow> knows s k t \<Longrightarrow> time c - window s \<le> t \<Longrightarrow>
      knows (snd (check s c)) k t"
begin

text \<open>A stamp that is known, or has left the window, is spent: it is never admitted again.\<close>

lemma spent_step:
  assumes "invar s" "clock_ok s c" "now \<le> time c" "knows s k t \<or> t < now - window s"
  shows "knows (snd (check s c)) k t \<or> t < time c - window (snd (check s c))"
proof (cases "t < time c - window s")
  case True
  then show ?thesis by (simp add: check_window)
next
  case False
  then have "knows s k t" using assms by auto
  then show ?thesis using assms False by (simp add: check_keeps)
qed

lemma spent_not_admitted:
  assumes "invar s" "\<forall>c \<in> set cs. clock_ok s c" "sorted (map time cs)" "\<forall>c \<in> set cs. now \<le> time c"
    and "knows s k t \<or> t < now - window s"
  shows "(k, t) \<notin> (\<lambda>c. (key c, stamp c)) ` set (admitted check s cs)"
  using assms
proof (induction cs arbitrary: s now)
  case Nil
  then show ?case by simp
next
  case (Cons c cs)
  let ?s = "snd (check s c)"
  from Cons.prems have inv: "invar s" and ok: "clock_ok s c" and now: "now \<le> time c" by auto
  have rest: "(k, t) \<notin> (\<lambda>c. (key c, stamp c)) ` set (admitted check ?s cs)"
  proof (rule Cons.IH [where now = "time c"])
    show "invar ?s" using inv ok by (rule check_invar)
    show "\<forall>d \<in> set cs. clock_ok ?s d" using Cons.prems(2) by (simp add: check_clock)
    show "sorted (map time cs)" "\<forall>d \<in> set cs. time c \<le> time d" using Cons.prems(3) by auto
    show "knows ?s k t \<or> t < time c - window ?s"
      using inv ok now Cons.prems(5) by (rule spent_step)
  qed
  have "\<not> (fst (check s c) \<and> key c = k \<and> stamp c = t)"
    using admit_unknown [OF inv ok] admit_fresh [OF inv ok] now Cons.prems(5) by fastforce
  with rest show ?case by (auto simp: split_beta Let_def)
qed

text \<open>A key is admitted again only after the earlier stamp has left the window.\<close>

lemma spent_reuse:
  assumes "invar s" "\<forall>c \<in> set cs. clock_ok s c" "sorted (map time cs)" "\<forall>c \<in> set cs. now \<le> time c"
    and "knows s k t \<or> t < now - window s"
  shows "\<forall>d \<in> set (admitted check s cs). key d = k \<longrightarrow> t < time d - window s"
  using assms
proof (induction cs arbitrary: s now)
  case Nil
  then show ?case by simp
next
  case (Cons c cs)
  let ?s = "snd (check s c)"
  from Cons.prems have inv: "invar s" and ok: "clock_ok s c" and now: "now \<le> time c" by auto
  have "\<forall>d \<in> set (admitted check ?s cs). key d = k \<longrightarrow> t < time d - window ?s"
  proof (rule Cons.IH [where now = "time c"])
    show "invar ?s" using inv ok by (rule check_invar)
    show "\<forall>d \<in> set cs. clock_ok ?s d" using Cons.prems(2) by (simp add: check_clock)
    show "sorted (map time cs)" "\<forall>d \<in> set cs. time c \<le> time d" using Cons.prems(3) by auto
    show "knows ?s k t \<or> t < time c - window ?s"
      using inv ok now Cons.prems(5) by (rule spent_step)
  qed
  moreover have "fst (check s c) \<Longrightarrow> key c = k \<Longrightarrow> t < time c - window s"
    using admit_unknown [OF inv ok] now Cons.prems(5) by fastforce
  ultimately show ?case by (auto simp: split_beta Let_def check_window)
qed

lemma admitted_reuse:
  assumes "invar s" "\<forall>c \<in> set cs. clock_ok s c" "sorted (map time cs)"
  shows "sorted_wrt (\<lambda>c d. key c = key d \<longrightarrow> stamp c < time d - window s) (admitted check s cs)"
  using assms
proof (induction cs arbitrary: s)
  case Nil
  then show ?case by simp
next
  case (Cons c cs)
  let ?s = "snd (check s c)"
  from Cons.prems have inv: "invar s" and ok: "clock_ok s c" by auto
  have inv': "invar ?s" using inv ok by (rule check_invar)
  have okS: "\<forall>d \<in> set cs. clock_ok ?s d" using Cons.prems(2) by (simp add: check_clock)
  have srt: "sorted (map time cs)" "\<forall>d \<in> set cs. time c \<le> time d" using Cons.prems(3) by auto
  have rest: "sorted_wrt (\<lambda>c d. key c = key d \<longrightarrow> stamp c < time d - window s) (admitted check ?s cs)"
    using Cons.IH [OF inv' okS srt(1)] by (simp add: check_window)
  show ?case
  proof (cases "fst (check s c)")
    case True
    have "\<forall>d \<in> set (admitted check ?s cs). key d = key c \<longrightarrow> stamp c < time d - window ?s"
      using admit_records [OF inv ok True] by (intro spent_reuse [OF inv' okS srt]) simp
    with rest True show ?thesis by (auto simp: split_beta Let_def check_window)
  next
    case False
    with rest show ?thesis by (simp add: split_beta Let_def)
  qed
qed

lemma admitted_fresh:
  assumes "invar s" "\<forall>c \<in> set cs. clock_ok s c"
  shows "\<forall>c \<in> set (admitted check s cs). time c - window s \<le> stamp c"
  using assms
proof (induction cs arbitrary: s)
  case Nil
  then show ?case by simp
next
  case (Cons c cs)
  have "\<forall>d \<in> set (admitted check (snd (check s c)) cs). time d - window (snd (check s c)) \<le> stamp d"
    using Cons.prems by (intro Cons.IH) (simp_all add: check_clock check_invar)
  with Cons.prems show ?case by (auto simp: split_beta Let_def check_window intro: admit_fresh)
qed

text \<open>No two admitted calls agree on key and stamp.\<close>

lemma admitted_distinct:
  assumes "invar s" "\<forall>c \<in> set cs. clock_ok s c" "sorted (map time cs)"
  shows "distinct (map (\<lambda>c. (key c, stamp c)) (admitted check s cs))"
  using assms
proof (induction cs arbitrary: s)
  case Nil
  then show ?case by simp
next
  case (Cons c cs)
  let ?s = "snd (check s c)"
  from Cons.prems have inv: "invar s" and ok: "clock_ok s c" by auto
  have inv': "invar ?s" using inv ok by (rule check_invar)
  have okS: "\<forall>d \<in> set cs. clock_ok ?s d" using Cons.prems(2) by (simp add: check_clock)
  have srt: "sorted (map time cs)" "\<forall>d \<in> set cs. time c \<le> time d" using Cons.prems(3) by auto
  have d: "distinct (map (\<lambda>c. (key c, stamp c)) (admitted check ?s cs))"
    using inv' okS srt(1) by (rule Cons.IH)
  show ?case
  proof (cases "fst (check s c)")
    case True
    have "(key c, stamp c) \<notin> (\<lambda>c. (key c, stamp c)) ` set (admitted check ?s cs)"
      using inv' okS srt admit_records [OF inv ok True] by (intro spent_not_admitted) auto
    with d True show ?thesis by (simp add: split_beta Let_def)
  next
    case False
    with d show ?thesis by (simp add: split_beta Let_def)
  qed
qed

lemma final_state_invar:
  assumes "invar s" "\<forall>c \<in> set cs. clock_ok s c"
  shows "invar (final_state check s cs)"
  using assms by (induction cs arbitrary: s) (auto simp: check_clock check_invar)

end

text \<open>
  A service puts a gate before the guard (a call that fails it does not reach the guard) and
  a confirmation after it (a call that the guard admitted and that is not confirmed is
  refused, but the guard has recorded it). The gated service is a guard again: the
  \<open>sublocale\<close> gives it every client lemma.
\<close>

definition gated :: "('s \<Rightarrow> 'c \<Rightarrow> bool \<times> 's) \<Rightarrow> ('c \<Rightarrow> bool) \<Rightarrow> ('c \<Rightarrow> bool) \<Rightarrow> 's \<Rightarrow> 'c \<Rightarrow> bool \<times> 's" where
  "gated check gate confirm s c =
     (if gate c then (fst (check s c) \<and> confirm c, snd (check s c)) else (False, s))"

lemma admitted_gated_backed:
  "c \<in> set (admitted (gated check gate confirm) s cs) \<Longrightarrow> gate c \<and> confirm c"
  by (induction cs arbitrary: s) (auto simp: gated_def split_beta Let_def split: if_splits)

locale gated_guard = replay_guard check time key stamp window knows invar clock_ok
  for check :: "'s \<Rightarrow> 'c \<Rightarrow> bool \<times> 's"
    and time :: "'c \<Rightarrow> int"
    and key :: "'c \<Rightarrow> 'k"
    and stamp :: "'c \<Rightarrow> int"
    and window :: "'s \<Rightarrow> int"
    and knows :: "'s \<Rightarrow> 'k \<Rightarrow> int \<Rightarrow> bool"
    and invar :: "'s \<Rightarrow> bool"
    and clock_ok :: "'s \<Rightarrow> 'c \<Rightarrow> bool" +
  fixes gate :: "'c \<Rightarrow> bool"
    and confirm :: "'c \<Rightarrow> bool"
begin

sublocale service: replay_guard "gated check gate confirm" time key stamp window knows invar clock_ok
proof (unfold_locales, goal_cases)
  case (1 s c)
  then show ?case by (simp add: gated_def check_invar)
next
  case (2 s c)
  show ?case by (simp add: gated_def check_window)
next
  case (3 s c d)
  show ?case by (simp add: gated_def check_clock)
next
  case (4 s c)
  then show ?case by (simp add: gated_def admit_fresh split: if_splits)
next
  case (5 s c t)
  then show ?case by (auto simp: gated_def split: if_splits intro: admit_unknown)
next
  case (6 s c)
  then show ?case by (simp add: gated_def admit_records split: if_splits)
next
  case (7 s c k t)
  then show ?case by (simp add: gated_def check_keeps)
qed

text \<open>Successes are pairwise distinct and each passed the gate and was confirmed.\<close>

lemma successes_sound:
  assumes "invar s" "\<forall>c \<in> set cs. clock_ok s c" "sorted (map time cs)"
  shows "distinct (map (\<lambda>c. (key c, stamp c)) (admitted (gated check gate confirm) s cs)) \<and>
    (\<forall>c \<in> set (admitted (gated check gate confirm) s cs). gate c \<and> confirm c)"
proof
  show "distinct (map (\<lambda>c. (key c, stamp c)) (admitted (gated check gate confirm) s cs))"
    using assms by (rule service.admitted_distinct)
  show "\<forall>c \<in> set (admitted (gated check gate confirm) s cs). gate c \<and> confirm c"
    by (rule ballI) (rule admitted_gated_backed)
qed

text \<open>A refused call burns its key: once the guard admitted it, no later call with the same key
  and stamp succeeds, whether or not the first was confirmed.\<close>

lemma burnt_key:
  assumes I: "invar s" and ok: "clock_ok s c" and adm: "gate c" "fst (check s c)"
    and okS: "\<forall>d \<in> set cs. clock_ok s d" and srt: "sorted (map time (c # cs))"
  shows "(key c, stamp c) \<notin> (\<lambda>c. (key c, stamp c)) `
    set (admitted (gated check gate confirm) (snd (gated check gate confirm s c)) cs)"
proof (rule service.spent_not_admitted [where now = "time c"])
  show "invar (snd (gated check gate confirm s c))" using I ok by (rule service.check_invar)
  show "\<forall>d \<in> set cs. clock_ok (snd (gated check gate confirm s c)) d"
    using okS by (simp add: service.check_clock)
  show "sorted (map time cs)" "\<forall>d \<in> set cs. time c \<le> time d" using srt by auto
  show "knows (snd (gated check gate confirm s c)) (key c) (stamp c) \<or>
      stamp c < time c - window (snd (gated check gate confirm s c))"
    using admit_records [OF I ok adm(2)] adm(1) by (simp add: gated_def)
qed

end

end
