(* ===== verification/Zkp_Core_Engine.thy ===== *)
theory Zkp_Core_Engine
  imports Rust_Base
begin

text \<open>
  \<open>src/zkp_core_engine.rs\<close>: the Schnorr engine. Errors, the \<open>Proof\<close> structure and its wire
  conversions, the key newtypes, proof generation, freshness, verification and the
  Fiat-Shamir challenge.

  The curve (\<open>k256\<close>), SHA-256 (\<open>sha2\<close>) and \<open>bincode\<close> are not part of the repository. They
  are parameters: the record \<open>k256\<close> holds the operations the engine calls, the record
  \<open>bincode\<close> the two entry points of the serializer. Operating-system randomness and the
  clock are arguments. What is relied on is stated by the predicates \<open>k256_bytes_ok\<close>
  (encodings) and \<open>k256_group_ok\<close> (secp256k1 is a cyclic group of prime order, its scalars
  a field), used as named hypotheses.
\<close>

section \<open>Errors\<close>

datatype ZkpError =
    MathError
  | SerializationError string
  | InvalidProof
  | IoError string

fun ZkpError_display :: "ZkpError \<Rightarrow> string" where
  "ZkpError_display MathError = ''Mathematical inconsistency during proof generation.''"
| "ZkpError_display (SerializationError s) = ''Serialization failed: '' @ s"
| "ZkpError_display InvalidProof = ''Verification failed: Invalid proof.''"
| "ZkpError_display (IoError s) = ''Network/IO error: '' @ s"

section \<open>The libraries the engine calls\<close>

record ('pt, 'sc, 'enc) k256 =
  GENERATOR :: 'pt
  IDENTITY :: 'pt
  pt_add :: "'pt \<Rightarrow> 'pt \<Rightarrow> 'pt"
  pt_mul :: "'pt \<Rightarrow> 'sc \<Rightarrow> 'pt"
  pt_to_bytes :: "'pt \<Rightarrow> bytes"
  encoded_from_bytes :: "bytes \<Rightarrow> (string, 'enc) result"
  from_encoded_point :: "'enc \<Rightarrow> 'pt option"
  SC_ZERO :: 'sc
  SC_ONE :: 'sc
  sc_add :: "'sc \<Rightarrow> 'sc \<Rightarrow> 'sc"
  sc_sub :: "'sc \<Rightarrow> 'sc \<Rightarrow> 'sc"
  sc_mul :: "'sc \<Rightarrow> 'sc \<Rightarrow> 'sc"
  sc_invert :: "'sc \<Rightarrow> 'sc"
  sc_to_bytes :: "'sc \<Rightarrow> bytes"
  sc_from_repr :: "bytes \<Rightarrow> 'sc option"
  field_bytes_from_slice :: "bytes \<Rightarrow> bytes option"
  sha256 :: "bytes \<Rightarrow> bytes"

record 'a bincode =
  bin_serialize :: "'a \<Rightarrow> (string, bytes) result"
  bin_deserialize :: "bytes \<Rightarrow> (string, 'a) result"

section \<open>Proofs and keys\<close>

record Proof =
  r_point :: bytes
  s_scalar :: bytes
  timestamp :: i64
  nonce :: bytes

text \<open>\<open>nonce\<close> is a \<open>[u8; 16]\<close>: the type's invariant.\<close>

definition proof_wf :: "Proof \<Rightarrow> bool" where
  "proof_wf p \<longleftrightarrow> length (nonce p) = 16"

definition proof_try_from :: "Proof bincode \<Rightarrow> bytes \<Rightarrow> (ZkpError, Proof) result" where
  "proof_try_from B bytes =
     (case bin_deserialize B bytes of
        Inl e \<Rightarrow> Inl (SerializationError (''Failed to deserialize Proof: '' @ e))
      | Inr p \<Rightarrow> Inr p)"

definition proof_into_vec :: "Proof bincode \<Rightarrow> Proof \<Rightarrow> bytes run" where
  "proof_into_vec B p =
     (case bin_serialize B p of
        Inl e \<Rightarrow> Panic ''Proof bincode serialization should never fail''
      | Inr bs \<Rightarrow> Ret bs)"

datatype 'sc UserSecretKey = UserSecretKey (secret_scalar: 'sc)

datatype 'pt UserPublicKey = UserPublicKey (public_point: 'pt)

text \<open>\<open>generate\<close>: the scalar drawn by \<open>Scalar::random(OsRng)\<close> is the argument.\<close>

definition generate :: "'sc \<Rightarrow> 'sc UserSecretKey" where
  "generate random = UserSecretKey random"

definition public_key :: "('pt, 'sc, 'enc) k256 \<Rightarrow> 'sc UserSecretKey \<Rightarrow> 'pt UserPublicKey" where
  "public_key K sk = UserPublicKey (pt_mul K (GENERATOR K) (secret_scalar sk))"

definition sk_to_bytes :: "('pt, 'sc, 'enc) k256 \<Rightarrow> 'sc UserSecretKey \<Rightarrow> bytes" where
  "sk_to_bytes K sk = sc_to_bytes K (secret_scalar sk)"

definition sk_from_bytes ::
  "('pt, 'sc, 'enc) k256 \<Rightarrow> bytes \<Rightarrow> (ZkpError, 'sc UserSecretKey) result run" where
  "sk_from_bytes K bytes =
     (if length bytes \<noteq> 32
      then Ret (Inl (SerializationError ''Secret key must be exactly 32 bytes''))
      else (case field_bytes_from_slice K bytes of
              None \<Rightarrow> Panic ''FieldBytes::from_slice: length mismatch''
            | Some s_bytes \<Rightarrow>
                (case sc_from_repr K s_bytes of
                   None \<Rightarrow> Ret (Inl (SerializationError ''Invalid scalar bytes for Secp256k1''))
                 | Some scalar \<Rightarrow> Ret (Inr (UserSecretKey scalar)))))"

definition pk_to_bytes :: "('pt, 'sc, 'enc) k256 \<Rightarrow> 'pt UserPublicKey \<Rightarrow> bytes" where
  "pk_to_bytes K pk = pt_to_bytes K (public_point pk)"

definition pk_from_bytes ::
  "('pt, 'sc, 'enc) k256 \<Rightarrow> bytes \<Rightarrow> (ZkpError, 'pt UserPublicKey) result" where
  "pk_from_bytes K bytes =
     (case encoded_from_bytes K bytes of
        Inl e \<Rightarrow> Inl (SerializationError (''Invalid public key bytes: '' @ e))
      | Inr encoded \<Rightarrow>
          (case from_encoded_point K encoded of
             None \<Rightarrow> Inl (SerializationError ''Point not on Secp256k1 curve'')
           | Some point \<Rightarrow> Inr (UserPublicKey point)))"

section \<open>The challenge, generation and verification\<close>

text \<open>The hasher is fed the four parts in this order; the digest is of their concatenation.\<close>

definition challenge_input ::
  "('pt, 'sc, 'enc) k256 \<Rightarrow> 'pt \<Rightarrow> 'pt \<Rightarrow> i64 \<Rightarrow> bytes \<Rightarrow> bytes" where
  "challenge_input K r y ts nc =
     pt_to_bytes K r @ pt_to_bytes K y @ i64_to_be_bytes ts @ nc"

definition compute_challenge ::
  "('pt, 'sc, 'enc) k256 \<Rightarrow> 'pt \<Rightarrow> 'pt \<Rightarrow> i64 \<Rightarrow> bytes \<Rightarrow> 'sc run" where
  "compute_challenge K r y ts nc =
     (case field_bytes_from_slice K (sha256 K (challenge_input K r y ts nc)) of
        None \<Rightarrow> Panic ''FieldBytes::from_slice: length mismatch''
      | Some bytes \<Rightarrow>
          (case sc_from_repr K bytes of
             None \<Rightarrow> Panic ''Hash to Scalar failed.''
           | Some e \<Rightarrow> Ret e))"

definition schnorr_response :: "('pt, 'sc, 'enc) k256 \<Rightarrow> 'sc \<Rightarrow> 'sc \<Rightarrow> 'sc \<Rightarrow> 'sc" where
  "schnorr_response K k e x = sc_add K k (sc_mul K e x)"

text \<open>
  The nonce (\<open>OsRng.fill_bytes\<close>) and the ephemeral scalar \<open>k\<close> (\<open>Scalar::random\<close>) are the
  arguments \<open>nc\<close> and \<open>k\<close>.
\<close>

definition generate_proof_with_time ::
  "('pt, 'sc, 'enc) k256 \<Rightarrow> 'sc UserSecretKey \<Rightarrow> 'pt UserPublicKey \<Rightarrow> i64 \<Rightarrow>
   bytes \<Rightarrow> 'sc \<Rightarrow> Proof run" where
  "generate_proof_with_time K secret pk ts nc k =
     (let r = pt_mul K (GENERATOR K) k in
      run_bind (compute_challenge K r (public_point pk) ts nc) (\<lambda>e.
        let s = schnorr_response K k e (secret_scalar secret) in
        Ret \<lparr>r_point = pt_to_bytes K r, s_scalar = sc_to_bytes K s,
             timestamp = ts, nonce = nc\<rparr>))"

definition generate_proof ::
  "('pt, 'sc, 'enc) k256 \<Rightarrow> 'sc UserSecretKey \<Rightarrow> 'pt UserPublicKey \<Rightarrow> i64 \<Rightarrow>
   bytes \<Rightarrow> 'sc \<Rightarrow> Proof run" where
  "generate_proof K secret pk now nc k = generate_proof_with_time K secret pk now nc k"

definition is_fresh :: "bool \<Rightarrow> i64 \<Rightarrow> Proof \<Rightarrow> i64 \<Rightarrow> bool run" where
  "is_fresh chk now p max_drift_secs =
     run_bind (i64_sub chk now (timestamp p)) (\<lambda>d.
       run_bind (i64_abs chk d) (\<lambda>a. Ret (sint a \<le> sint max_drift_secs)))"

definition verify ::
  "('pt, 'sc, 'enc) k256 \<Rightarrow> 'pt \<Rightarrow> Proof \<Rightarrow> (ZkpError, bool) result run" where
  "verify K pk p =
     (case encoded_from_bytes K (r_point p) of
        Inl _ \<Rightarrow> Ret (Inl (SerializationError ''Invalid R point length/format''))
      | Inr r_encoded \<Rightarrow>
          (let r = from_encoded_point K r_encoded in
           case field_bytes_from_slice K (s_scalar p) of
             None \<Rightarrow> Panic ''FieldBytes::from_slice: length mismatch''
           | Some s_bytes \<Rightarrow>
               (case (r, sc_from_repr K s_bytes) of
                  (Some r, Some s) \<Rightarrow>
                    run_bind (compute_challenge K r pk (timestamp p) (nonce p)) (\<lambda>e.
                      Ret (Inr (pt_mul K (GENERATOR K) s = pt_add K r (pt_mul K pk e))))
                | _ \<Rightarrow> Ret (Inl (SerializationError ''Invalid point encoding'')))))"

section \<open>What is relied on of the libraries\<close>

text \<open>\<open>bincode\<close> reads back what it wrote.\<close>

definition bincode_ok :: "'a bincode \<Rightarrow> bool" where
  "bincode_ok B \<longleftrightarrow> (\<forall>x bs. bin_serialize B x = Inr bs \<longrightarrow> bin_deserialize B bs = Inr x)"

text \<open>
  Encodings: compressed points are 33 bytes, scalars and digests 32; a point other than the
  identity decodes from its encoding; a scalar's representation is canonical; converting a
  slice to \<open>FieldBytes\<close> fails (the library panics) unless it has 32 bytes.
\<close>

definition k256_bytes_ok :: "('pt, 'sc, 'enc) k256 \<Rightarrow> bool" where
  "k256_bytes_ok K \<longleftrightarrow>
     (\<forall>p. length (pt_to_bytes K p) = 33) \<and>
     (\<forall>p. p \<noteq> IDENTITY K \<longrightarrow>
        (\<exists>c. encoded_from_bytes K (pt_to_bytes K p) = Inr c \<and> from_encoded_point K c = Some p)) \<and>
     (\<forall>s. length (sc_to_bytes K s) = 32) \<and>
     (\<forall>s. sc_from_repr K (sc_to_bytes K s) = Some s) \<and>
     (\<forall>bs s. sc_from_repr K bs = Some s \<longrightarrow> sc_to_bytes K s = bs) \<and>
     (\<forall>bs. field_bytes_from_slice K bs = (if length bs = 32 then Some bs else None)) \<and>
     (\<forall>bs. length (sha256 K bs) = 32)"

text \<open>Scalars form a field; the points are the multiples of the generator, without repetition.\<close>

definition scalar_field_ok :: "('pt, 'sc, 'enc) k256 \<Rightarrow> bool" where
  "scalar_field_ok K \<longleftrightarrow>
     (\<forall>a b c. sc_add K (sc_add K a b) c = sc_add K a (sc_add K b c)) \<and>
     (\<forall>a b. sc_add K a b = sc_add K b a) \<and>
     (\<forall>a. sc_add K a (SC_ZERO K) = a) \<and>
     (\<forall>a b. sc_add K (sc_sub K a b) b = a) \<and>
     (\<forall>a b c. sc_mul K (sc_mul K a b) c = sc_mul K a (sc_mul K b c)) \<and>
     (\<forall>a b. sc_mul K a b = sc_mul K b a) \<and>
     (\<forall>a. sc_mul K a (SC_ONE K) = a) \<and>
     (\<forall>a b c. sc_mul K a (sc_add K b c) = sc_add K (sc_mul K a b) (sc_mul K a c)) \<and>
     (\<forall>a. a \<noteq> SC_ZERO K \<longrightarrow> sc_mul K a (sc_invert K a) = SC_ONE K)"

definition k256_group_ok :: "('pt, 'sc, 'enc) k256 \<Rightarrow> bool" where
  "k256_group_ok K \<longleftrightarrow> scalar_field_ok K \<and>
     (\<forall>a b. pt_mul K (GENERATOR K) (sc_add K a b) =
             pt_add K (pt_mul K (GENERATOR K) a) (pt_mul K (GENERATOR K) b)) \<and>
     (\<forall>a b. pt_mul K (pt_mul K (GENERATOR K) a) b = pt_mul K (GENERATOR K) (sc_mul K a b)) \<and>
     (\<forall>a b. pt_mul K (GENERATOR K) a = pt_mul K (GENERATOR K) b \<longrightarrow> a = b) \<and>
     (\<forall>p. \<exists>a. p = pt_mul K (GENERATOR K) a) \<and>
     pt_mul K (GENERATOR K) (SC_ZERO K) = IDENTITY K"

end
