(* ===== verification/Replay.thy ===== *)
theory Replay
  imports Guard_Interface Zkp_Core_Engine
begin

text \<open>
  \<open>src/replay.rs\<close>: the in-memory replay protector. Its state is the allowed drift, the map
  from (user, nonce) to timestamp and the poisoned flag of the mutex around that map (a panic
  while the guard is held poisons it, and every later \<open>lock().unwrap()\<close> panics). The clock
  is an argument. \<open>check_and_record\<close> is the composition of the freshness check, which runs
  before the mutex is taken, and of the section under the mutex.
\<close>

section \<open>The protector\<close>

datatype ReplayError =
    ProofExpired i64 i64
  | ClockSkewFuture i64
  | ReplayDetected

fun ReplayError_display :: "ReplayError \<Rightarrow> string" where
  "ReplayError_display (ProofExpired age_secs max_allowed) =
     ''Proof expired: age '' @ show_int (sint age_secs) @ ''s exceeds maximum allowed drift of ''
       @ show_int (sint max_allowed) @ ''s''"
| "ReplayError_display (ClockSkewFuture drift_secs) =
     ''Future timestamp detected: clock skew of '' @ show_int (sint drift_secs)
       @ ''s exceeds maximum allowed''"
| "ReplayError_display ReplayDetected =
     ''Replay attack detected: Nonce has already been used for this user''"

type_synonym nonce_key = "string \<times> bytes"

record ReplayProtector =
  max_drift_secs :: i64
  seen_nonces :: "(nonce_key \<times> i64) list"
  nonces_poisoned :: bool

definition DEFAULT_MAX_DRIFT_SECS :: i64 where
  "DEFAULT_MAX_DRIFT_SECS = 60"

definition ReplayProtector_new :: "i64 \<Rightarrow> ReplayProtector" where
  "ReplayProtector_new drift = \<lparr>max_drift_secs = drift, seen_nonces = [], nonces_poisoned = False\<rparr>"

definition ReplayProtector_default :: ReplayProtector where
  "ReplayProtector_default = ReplayProtector_new DEFAULT_MAX_DRIFT_SECS"

text \<open>The checks before the lock.\<close>

definition check_freshness :: "bool \<Rightarrow> i64 \<Rightarrow> i64 \<Rightarrow> i64 \<Rightarrow> (ReplayError, unit) result run" where
  "check_freshness chk now max_drift ts =
     run_bind (i64_sub chk now ts) (\<lambda>diff.
       run_bind (i64_neg chk max_drift) (\<lambda>neg_drift.
         if sint diff < sint neg_drift
         then run_bind (i64_neg chk diff) (\<lambda>d. Ret (Inl (ClockSkewFuture d)))
         else if sint max_drift < sint diff
         then Ret (Inl (ProofExpired diff max_drift))
         else Ret (Inr ())))"

text \<open>The section under the lock: prune, look up, insert.\<close>

definition retain_recent :: "i64 \<Rightarrow> (nonce_key \<times> i64) list \<Rightarrow> (nonce_key \<times> i64) list" where
  "retain_recent cutoff nonces = filter (\<lambda>(_, ts). sint cutoff \<le> sint ts) nonces"

definition record_nonce ::
  "bool \<Rightarrow> i64 \<Rightarrow> ReplayProtector \<Rightarrow> nonce_key \<Rightarrow> i64 \<Rightarrow>
   (ReplayError, unit) result run \<times> ReplayProtector" where
  "record_nonce chk now rp key ts =
     (if nonces_poisoned rp
      then (Panic ''called `Result::unwrap()` on an `Err` value: PoisonError'', rp)
      else (case i64_sub chk now (max_drift_secs rp) of
              Panic m \<Rightarrow> (Panic m, rp\<lparr>nonces_poisoned := True\<rparr>)
            | Ret cutoff \<Rightarrow>
                (let nonces = retain_recent cutoff (seen_nonces rp) in
                 if map_of nonces key \<noteq> None
                 then (Ret (Inl ReplayDetected), rp\<lparr>seen_nonces := nonces\<rparr>)
                 else (Ret (Inr ()), rp\<lparr>seen_nonces := AList.update key ts nonces\<rparr>))))"

definition check_and_record ::
  "bool \<Rightarrow> i64 \<Rightarrow> ReplayProtector \<Rightarrow> string \<Rightarrow> Proof \<Rightarrow>
   (ReplayError, unit) result run \<times> ReplayProtector" where
  "check_and_record chk now rp user_id p =
     (case check_freshness chk now (max_drift_secs rp) (timestamp p) of
        Panic m \<Rightarrow> (Panic m, rp)
      | Ret (Inl e) \<Rightarrow> (Ret (Inl e), rp)
      | Ret (Inr _) \<Rightarrow> record_nonce chk now rp (user_id, nonce p) (timestamp p))"

definition active_nonces_count :: "ReplayProtector \<Rightarrow> nat run" where
  "active_nonces_count rp =
     (if nonces_poisoned rp
      then Panic ''called `Result::unwrap()` on an `Err` value: PoisonError''
      else Ret (length (seen_nonces rp)))"

section \<open>Invariant and operating range\<close>

text \<open>
  The invariant of a protector made with a non-negative drift. \<open>clock_in_range\<close> bounds the
  clock: after 1970, and \<open>now + drift\<close> does not reach the end of \<open>i64\<close>.
\<close>

definition rp_invar :: "ReplayProtector \<Rightarrow> bool" where
  "rp_invar rp \<longleftrightarrow> 0 \<le> sint (max_drift_secs rp) \<and> keys_distinct (seen_nonces rp) \<and> \<not> nonces_poisoned rp"

definition clock_in_range :: "ReplayProtector \<Rightarrow> i64 \<Rightarrow> bool" where
  "clock_in_range rp now \<longleftrightarrow> 0 \<le> sint now \<and> sint now + sint (max_drift_secs rp) \<le> i64_max"

lemmas rp_defs = rp_invar_def clock_in_range_def

lemma rp_invar_new: "0 \<le> sint drift \<Longrightarrow> rp_invar (ReplayProtector_new drift)"
  by (simp add: rp_invar_def ReplayProtector_new_def)

lemma rp_invar_default: "rp_invar ReplayProtector_default"
  by (simp add: ReplayProtector_default_def DEFAULT_MAX_DRIFT_SECS_def rp_invar_new)

section \<open>The freshness check\<close>

lemma neg_drift_exact:
  assumes "0 \<le> sint d"
  shows "i64_neg chk d = Ret (- d)" "sint (- d) = - sint d"
proof -
  have "i64_range (- sint d)"
    using assms sint_i64_bounds [of d] by (simp add: i64_range_def i64_min_def i64_max_def)
  then show "i64_neg chk d = Ret (- d)" "sint (- d) = - sint d"
    by (simp_all add: i64_neg_def sint_uminus_i64)
qed

text \<open>Distances that fit an \<open>i64\<close>: every branch, with its error value.\<close>

lemma check_freshness_exact:
  assumes drift: "0 \<le> sint drift" and d: "\<bar>sint now - sint ts\<bar> \<le> i64_max"
  shows "check_freshness chk now drift ts =
    Ret (if sint now - sint ts < - sint drift then Inl (ClockSkewFuture (ts - now))
         else if sint drift < sint now - sint ts then Inl (ProofExpired (now - ts) drift)
         else Inr ())"
proof -
  have r: "i64_range (sint now - sint ts)" "i64_range (- (sint now - sint ts))"
    using d by (auto simp: i64_range_def i64_min_def i64_max_def)
  have s: "sint (now - ts) = sint now - sint ts" by (rule sint_minus_i64 [OF r(1)])
  have n: "i64_neg chk (now - ts) = Ret (ts - now)"
    using r(2) sint_uminus_i64 [of "now - ts"] by (simp add: i64_neg_def s)
  have sub: "i64_sub chk now ts = Ret (now - ts)" by (simp add: i64_sub_def s)
  show ?thesis
    by (simp add: check_freshness_def sub n s neg_drift_exact [OF drift])
qed

text \<open>Distances that do not fit: a timestamp at least \<open>2 ^ 63\<close> seconds old.\<close>

lemma check_freshness_overflow:
  assumes drift: "0 \<le> sint drift" and clk: "sint now + sint drift \<le> i64_max"
    and now: "0 \<le> sint now" and d: "i64_max < sint now - sint ts"
  shows "check_freshness True now drift ts = Panic ''attempt to subtract with overflow''"
    and "check_freshness False now drift ts = Ret (Inl (ClockSkewFuture (ts - now)))"
proof -
  have s: "sint (now - ts) = sint now - sint ts - 2 ^ 64"
    using d by (simp add: sint_minus_i64_cases Let_def i64_min_def i64_max_def)
  have lt: "sint (now - ts) < - sint drift"
    using s clk sint_i64_bounds(1) [of ts] by (simp add: i64_min_def i64_max_def)
  show "check_freshness True now drift ts = Panic ''attempt to subtract with overflow''"
    using s by (simp add: check_freshness_def i64_sub_def)
  show "check_freshness False now drift ts = Ret (Inl (ClockSkewFuture (ts - now)))"
    using lt by (simp add: check_freshness_def i64_sub_def neg_drift_exact [OF drift])
      (simp add: i64_neg_def)
qed

lemma distance_cases:
  assumes "0 \<le> sint (now :: i64)"
  shows "\<bar>sint now - sint (ts :: i64)\<bar> \<le> i64_max \<or> i64_max < sint now - sint ts"
  using assms sint_i64_bounds(2) [of ts] by (auto simp: i64_max_def)

text \<open>A timestamp passes exactly when it is within the drift of the clock on either side.\<close>

lemma fresh_iff:
  assumes drift: "0 \<le> sint drift" and now: "0 \<le> sint now" "sint now + sint drift \<le> i64_max"
  shows "check_freshness chk now drift ts = Ret (Inr ()) \<longleftrightarrow>
    sint now - sint drift \<le> sint ts \<and> sint ts \<le> sint now + sint drift"
proof (cases "\<bar>sint now - sint ts\<bar> \<le> i64_max")
  case True
  show ?thesis unfolding check_freshness_exact [OF drift True] by auto
next
  case False
  then have o: "i64_max < sint now - sint ts" using distance_cases [OF now(1), of ts] by blast
  have "check_freshness chk now drift ts \<noteq> Ret (Inr ())"
    using check_freshness_overflow [OF drift now(2,1) o] by (cases chk) auto
  moreover have "\<not> sint now - sint drift \<le> sint ts"
    using o now sint_i64_bounds(2) [of drift] by (simp add: i64_max_def)
  ultimately show ?thesis by blast
qed

section \<open>The section under the lock\<close>

definition knows_nonce :: "ReplayProtector \<Rightarrow> nonce_key \<Rightarrow> int \<Rightarrow> bool" where
  "knows_nonce rp k t \<longleftrightarrow> (\<exists>v. map_of (seen_nonces rp) k = Some v \<and> sint v = t)"

lemma cutoff_exact:
  assumes "rp_invar rp" "clock_in_range rp now"
  shows "i64_sub chk now (max_drift_secs rp) = Ret (now - max_drift_secs rp)"
    and "sint (now - max_drift_secs rp) = sint now - sint (max_drift_secs rp)"
proof -
  have "i64_range (sint now - sint (max_drift_secs rp))"
    using assms sint_i64_bounds [of now] sint_i64_bounds [of "max_drift_secs rp"]
    by (auto simp: rp_defs i64_range_def i64_min_def i64_max_def)
  then show "i64_sub chk now (max_drift_secs rp) = Ret (now - max_drift_secs rp)"
    "sint (now - max_drift_secs rp) = sint now - sint (max_drift_secs rp)"
    by (simp_all add: i64_sub_def sint_minus_i64)
qed

lemma keys_distinct_retain [simp, table_laws]:
  "keys_distinct t \<Longrightarrow> keys_distinct (retain_recent c t)"
  by (simp add: retain_recent_def)

lemma map_of_retain:
  "keys_distinct t \<Longrightarrow> map_of (retain_recent c t) k =
    (case map_of t k of None \<Rightarrow> None | Some v \<Rightarrow> if sint c \<le> sint v then Some v else None)"
  by (simp add: retain_recent_def map_of_filter_distinct split: option.split)

lemma record_nonce_exact:
  assumes "rp_invar rp" "clock_in_range rp now"
  shows "record_nonce chk now rp k ts =
    (let nonces = retain_recent (now - max_drift_secs rp) (seen_nonces rp) in
     if \<exists>t. knows_nonce rp k t \<and> sint now - sint (max_drift_secs rp) \<le> t
     then (Ret (Inl ReplayDetected), rp\<lparr>seen_nonces := nonces\<rparr>)
     else (Ret (Inr ()), rp\<lparr>seen_nonces := AList.update k ts nonces\<rparr>))"
  using assms
  by (auto simp: record_nonce_def cutoff_exact rp_invar_def map_of_retain knows_nonce_def Let_def
      split: option.splits if_splits)

lemma check_and_record_split:
  "check_and_record chk now rp u p =
     (if check_freshness chk now (max_drift_secs rp) (timestamp p) = Ret (Inr ())
      then record_nonce chk now rp (u, nonce p) (timestamp p)
      else (check_freshness chk now (max_drift_secs rp) (timestamp p), rp))"
  by (auto simp: check_and_record_def split: run.splits sum.splits)

lemma fresh_iff_rp:
  assumes "rp_invar rp" "clock_in_range rp now"
  shows "check_freshness chk now (max_drift_secs rp) ts = Ret (Inr ()) \<longleftrightarrow>
    sint now - sint (max_drift_secs rp) \<le> sint ts \<and> sint ts \<le> sint now + sint (max_drift_secs rp)"
  using assms by (intro fresh_iff) (auto simp: rp_defs)

text \<open>Admission, in terms of the state.\<close>

lemma admit_iff:
  assumes "rp_invar rp" "clock_in_range rp now"
  shows "fst (check_and_record chk now rp u p) = Ret (Inr ()) \<longleftrightarrow>
    sint now - sint (max_drift_secs rp) \<le> sint (timestamp p) \<and>
    sint (timestamp p) \<le> sint now + sint (max_drift_secs rp) \<and>
    \<not> (\<exists>t. knows_nonce rp (u, nonce p) t \<and> sint now - sint (max_drift_secs rp) \<le> t)"
  using assms
  by (auto simp: check_and_record_split fresh_iff_rp [OF assms] record_nonce_exact [OF assms] Let_def)

lemma record_state_cases [consumes 2, case_names unchanged pruned recorded]:
  assumes "rp_invar rp" "clock_in_range rp now"
  obtains (unchanged) "snd (check_and_record chk now rp u p) = rp"
      "fst (check_and_record chk now rp u p) \<noteq> Ret (Inr ())"
  | (pruned) "snd (check_and_record chk now rp u p) =
        rp\<lparr>seen_nonces := retain_recent (now - max_drift_secs rp) (seen_nonces rp)\<rparr>"
      "fst (check_and_record chk now rp u p) \<noteq> Ret (Inr ())"
  | (recorded) "snd (check_and_record chk now rp u p) =
        rp\<lparr>seen_nonces := AList.update (u, nonce p) (timestamp p)
             (retain_recent (now - max_drift_secs rp) (seen_nonces rp))\<rparr>"
      "fst (check_and_record chk now rp u p) = Ret (Inr ())"
proof (cases "check_freshness chk now (max_drift_secs rp) (timestamp p) = Ret (Inr ())")
  case False
  then show thesis by (intro unchanged) (simp_all add: check_and_record_split)
next
  case fresh: True
  show thesis
  proof (cases "\<exists>t. knows_nonce rp (u, nonce p) t \<and> sint now - sint (max_drift_secs rp) \<le> t")
    case True
    with fresh show thesis
      by (intro pruned) (auto simp: check_and_record_split record_nonce_exact [OF assms] Let_def)
  next
    case False
    with fresh show thesis
      by (intro recorded) (auto simp: check_and_record_split record_nonce_exact [OF assms] Let_def)
  qed
qed

section \<open>The laws of the guard\<close>

lemma check_and_record_drift [simp]:
  "max_drift_secs (snd (check_and_record chk now rp u p)) = max_drift_secs rp"
  by (auto simp: check_and_record_split record_nonce_def Let_def split: run.splits)

lemma check_and_record_invar:
  assumes "rp_invar rp" "clock_in_range rp now"
  shows "rp_invar (snd (check_and_record chk now rp u p))"
proof -
  from assms(1) have "0 \<le> sint (max_drift_secs rp)" "keys_distinct (seen_nonces rp)"
    "\<not> nonces_poisoned rp" by (simp_all add: rp_invar_def)
  with assms show ?thesis
    by (cases rule: record_state_cases [of rp now chk u p]) (simp_all add: rp_invar_def)
qed

lemma knows_after:
  assumes I: "rp_invar rp" and C: "clock_in_range rp now"
    and recent: "sint now - sint (max_drift_secs rp) \<le> t"
  shows "knows_nonce (snd (check_and_record chk now rp u p)) k t \<longleftrightarrow>
    knows_nonce rp k t \<or>
    fst (check_and_record chk now rp u p) = Ret (Inr ()) \<and> k = (u, nonce p) \<and> t = sint (timestamp p)"
proof -
  have kd: "keys_distinct (seen_nonces rp)" using I by (simp add: rp_invar_def)
  note cut = cutoff_exact(2) [OF I C]
  show ?thesis
    using I C
  proof (cases rule: record_state_cases [of rp now chk u p])
    case unchanged
    then show ?thesis by simp
  next
    case pruned
    then show ?thesis using recent
      by (auto simp: knows_nonce_def map_of_retain [OF kd] cut split: option.splits)
  next
    case recorded
    then have "\<not> knows_nonce rp (u, nonce p) t"
      using admit_iff [OF I C, of chk u p] recent by blast
    with recorded show ?thesis using recent
      by (auto simp: knows_nonce_def map_of_retain [OF kd] cut update_conv' split: option.splits)
  qed
qed

lemma clock_in_range_cong:
  "max_drift_secs rp = max_drift_secs rp' \<Longrightarrow> clock_in_range rp now = clock_in_range rp' now"
  by (simp add: clock_in_range_def)

type_synonym rp_call = "i64 \<times> string \<times> Proof"

definition rp_step :: "bool \<Rightarrow> ReplayProtector \<Rightarrow> rp_call \<Rightarrow> bool \<times> ReplayProtector" where
  "rp_step chk rp c =
     (case c of (now, u, p) \<Rightarrow>
        (fst (check_and_record chk now rp u p) = Ret (Inr ()), snd (check_and_record chk now rp u p)))"

definition call_time :: "rp_call \<Rightarrow> int" where "call_time c = sint (fst c)"
definition call_key :: "rp_call \<Rightarrow> nonce_key" where "call_key c = (fst (snd c), nonce (snd (snd c)))"
definition call_stamp :: "rp_call \<Rightarrow> int" where "call_stamp c = sint (timestamp (snd (snd c)))"

lemmas call_defs = call_time_def call_key_def call_stamp_def

interpretation rp: replay_guard "rp_step chk" call_time call_key call_stamp
  "\<lambda>rp. sint (max_drift_secs rp)" knows_nonce rp_invar "\<lambda>rp c. clock_in_range rp (fst c)" for chk
proof (unfold_locales, goal_cases)
  case (1 s c)
  then show ?case by (cases c) (auto simp: rp_step_def check_and_record_invar)
next
  case (2 s c)
  then show ?case by (cases c) (simp add: rp_step_def)
next
  case (3 s c d)
  show ?case by (rule clock_in_range_cong, cases c) (simp add: rp_step_def)
next
  case (4 s c)
  then show ?case by (cases c) (auto simp: rp_step_def call_defs admit_iff)
next
  case (5 s c t)
  then show ?case by (cases c) (auto simp: rp_step_def call_defs admit_iff)
next
  case (6 s c)
  then show ?case by (cases c) (auto simp: rp_step_def call_defs knows_after admit_iff)
next
  case (7 s c k t)
  then show ?case by (cases c) (auto simp: rp_step_def call_defs knows_after)
qed

section \<open>Properties\<close>

text \<open>A proof with the given timestamp, for the witnesses.\<close>

definition probe :: "i64 \<Rightarrow> Proof" where
  "probe ts = \<lparr>r_point = [], s_scalar = [], timestamp = ts, nonce = replicate 16 7\<rparr>"

lemma probe_simps [simp]: "timestamp (probe ts) = ts" "nonce (probe ts) = replicate 16 7"
  by (simp_all add: probe_def)

lemma default_drift [simp]: "max_drift_secs ReplayProtector_default = 60"
  by (simp add: ReplayProtector_default_def ReplayProtector_new_def DEFAULT_MAX_DRIFT_SECS_def)

lemma default_empty [simp]: "seen_nonces ReplayProtector_default = []"
  by (simp add: ReplayProtector_default_def ReplayProtector_new_def)

text \<open>C10: no replay is admitted. Over any sequence of calls whose clock does not go back, no
  two admitted calls have the same user, nonce and timestamp, although old nonces are pruned
  on the way: pruning never forgets a proof that would still pass the freshness check.\<close>

theorem replay_never_admitted_twice:
  assumes "rp_invar rp" and "\<forall>c \<in> set cs. clock_in_range rp (fst c)"
    and "sorted (map call_time cs)"
  shows "distinct (map (\<lambda>c. (call_key c, call_stamp c)) (admitted (rp_step chk) rp cs))"
  using assms by (rule rp.admitted_distinct)

theorem replay_never_admitted_twice_witness:
  "distinct (map (\<lambda>c. (call_key c, call_stamp c))
     (admitted (rp_step True) ReplayProtector_default
        [(100, ''alice'', probe 90), (110, ''alice'', probe 90)]))"
  by (rule replay_never_admitted_twice [OF rp_invar_default])
    (simp_all add: clock_in_range_def i64_max_def call_time_def)

text \<open>C12: the outcome of \<open>check_and_record\<close> on every branch. For a protector in its invariant
  and a clock in range, with the timestamp less than \<open>2 ^ 63\<close> seconds
  away from the clock: too far in
  the future is \<open>ClockSkewFuture\<close> with the skew, too old is \<open>ProofExpired\<close> with the age, a
  nonce of the user recorded with a timestamp that is still in the window is \<open>ReplayDetected\<close>,
  and everything else is admitted.\<close>

theorem check_and_record_outcome:
  assumes I: "rp_invar rp" and C: "clock_in_range rp now"
    and d: "\<bar>sint now - sint (timestamp p)\<bar> \<le> i64_max"
  shows "fst (check_and_record chk now rp u p) = Ret
    (if sint now - sint (timestamp p) < - sint (max_drift_secs rp)
     then Inl (ClockSkewFuture (timestamp p - now))
     else if sint (max_drift_secs rp) < sint now - sint (timestamp p)
     then Inl (ProofExpired (now - timestamp p) (max_drift_secs rp))
     else if \<exists>t. map_of (seen_nonces rp) (u, nonce p) = Some t \<and>
                 sint now - sint (max_drift_secs rp) \<le> sint t
     then Inl ReplayDetected
     else Inr ())"
proof -
  have "0 \<le> sint (max_drift_secs rp)" using I by (simp add: rp_invar_def)
  from check_freshness_exact [OF this d] show ?thesis
    by (auto simp: check_and_record_split record_nonce_exact [OF I C] knows_nonce_def Let_def)
qed

theorem check_and_record_outcome_witness:
  "fst (check_and_record True 200 ReplayProtector_default ''bob'' (probe 80)) =
     Ret (Inl (ProofExpired 120 60))"
  by (subst check_and_record_outcome [OF rp_invar_default])
    (simp_all add: clock_in_range_def i64_max_def)

text \<open>C39: the mutex is never poisoned. Every panic of \<open>check_and_record\<close> happens before the
  lock is taken, so the invariant (distinct keys, mutex not poisoned) holds after every call,
  whatever timestamp an attacker sends, and the call panics only in a build with overflow
  checks, on a timestamp at least \<open>2 ^ 63\<close> seconds behind the clock.\<close>

theorem check_and_record_panics_iff:
  assumes I: "rp_invar rp" and C: "clock_in_range rp now"
  shows "(panics (fst (check_and_record chk now rp u p)) \<longleftrightarrow>
      chk \<and> i64_max < sint now - sint (timestamp p)) \<and>
    rp_invar (snd (check_and_record chk now rp u p))"
proof -
  have dr: "0 \<le> sint (max_drift_secs rp)" and now: "0 \<le> sint now"
    and clk: "sint now + sint (max_drift_secs rp) \<le> i64_max"
    using I C by (simp_all add: rp_defs)
  have np: "\<not> panics (fst (record_nonce chk now rp k ts))" for k ts
    by (simp add: record_nonce_exact [OF I C] Let_def)
  consider (near) "\<bar>sint now - sint (timestamp p)\<bar> \<le> i64_max"
    | (far) "i64_max < sint now - sint (timestamp p)"
    using distance_cases [OF now] by blast
  then have "panics (fst (check_and_record chk now rp u p)) \<longleftrightarrow>
      chk \<and> i64_max < sint now - sint (timestamp p)"
  proof cases
    case near
    then show ?thesis using np by (auto simp: check_and_record_split check_freshness_exact [OF dr near])
  next
    case far
    then show ?thesis
      using check_freshness_overflow [OF dr clk now far] by (cases chk) (simp_all add: check_and_record_split)
  qed
  then show ?thesis using check_and_record_invar [OF I C] by blast
qed

theorem check_and_record_panics_iff_witness:
  "panics (fst (check_and_record True 1 ReplayProtector_default ''eve'' (probe 0x8000000000000000)))"
proof -
  have "clock_in_range ReplayProtector_default 1" by (simp add: clock_in_range_def i64_max_def)
  from check_and_record_panics_iff [OF rp_invar_default this,
      where chk = True and u = "''eve''" and p = "probe 0x8000000000000000"]
  show ?thesis by (simp add: i64_max_def)
qed

text \<open>Without overflow checks, a proof whose timestamp is at least \<open>2 ^ 63\<close> seconds in the
  past is rejected, but as \<open>ClockSkewFuture\<close>: the wrapped difference is negative.\<close>

theorem ancient_reported_as_future:
  assumes I: "rp_invar rp" and C: "clock_in_range rp now"
    and old: "i64_max < sint now - sint (timestamp p)"
  shows "check_and_record False now rp u p = (Ret (Inl (ClockSkewFuture (timestamp p - now))), rp)"
proof -
  have "check_freshness False now (max_drift_secs rp) (timestamp p) =
      Ret (Inl (ClockSkewFuture (timestamp p - now)))"
    using I C old by (intro check_freshness_overflow(2)) (simp_all add: rp_defs)
  then show ?thesis by (simp add: check_and_record_def)
qed

theorem ancient_reported_as_future_witness:
  "check_and_record False 1 ReplayProtector_default ''eve'' (probe 0x8000000000000000) =
     (Ret (Inl (ClockSkewFuture (0x8000000000000000 - 1))), ReplayProtector_default)"
  using ancient_reported_as_future [OF rp_invar_default,
      where now = 1 and p = "probe 0x8000000000000000" and u = "''eve''"]
  by (simp add: clock_in_range_def i64_max_def)

section \<open>Pruning against a reference that never forgets\<close>

text \<open>
  The reference remembers the key (user and nonce) of every call it has admitted, for ever, and
  refuses a key it has seen whatever its stamp. It has no machine integers, no lock and no
  pruning. \<open>first_uses\<close> keeps, of a list of calls, the first one with each key.
\<close>

definition forever_step :: "int \<Rightarrow> nonce_key list \<Rightarrow> rp_call \<Rightarrow> bool \<times> nonce_key list" where
  "forever_step drift hist c =
     (let ok = call_time c - drift \<le> call_stamp c \<and> call_stamp c \<le> call_time c + drift \<and>
               call_key c \<notin> set hist
      in (ok, if ok then call_key c # hist else hist))"

fun first_uses :: "nonce_key list \<Rightarrow> rp_call list \<Rightarrow> rp_call list" where
  "first_uses hist [] = []"
| "first_uses hist (c # cs) =
     (if call_key c \<in> set hist then first_uses hist cs else c # first_uses (call_key c # hist) cs)"

lemma first_uses_all:
  "sorted_wrt (\<lambda>c d. call_key c \<noteq> call_key d) cs \<Longrightarrow> \<forall>c \<in> set cs. call_key c \<notin> set hist \<Longrightarrow>
     first_uses hist cs = cs"
proof (induction cs arbitrary: hist)
  case (Cons c cs)
  then have "\<forall>d \<in> set cs. call_key d \<notin> set (call_key c # hist)" by fastforce
  with Cons show ?case by simp
qed simp

lemma rp_step_drift [simp]: "max_drift_secs (snd (rp_step chk rp c)) = max_drift_secs rp"
  by (simp add: rp_step_def split_beta)

lemma rp_step_admit_iff:
  assumes "rp_invar rp" "clock_in_range rp (fst c)"
  shows "fst (rp_step chk rp c) \<longleftrightarrow>
    call_time c - sint (max_drift_secs rp) \<le> call_stamp c \<and>
    call_stamp c \<le> call_time c + sint (max_drift_secs rp) \<and>
    \<not> (\<exists>t. knows_nonce rp (call_key c) t \<and> call_time c - sint (max_drift_secs rp) \<le> t)"
  using admit_iff [OF assms] by (simp add: rp_step_def split_beta call_defs)

text \<open>What a call adds to the cache and what it prunes.\<close>

lemma cache_keys_step:
  assumes I: "rp_invar rp" and C: "clock_in_range rp (fst c)" and k: "knows_nonce (snd (rp_step chk rp c)) k t"
  shows "knows_nonce rp k t \<or> fst (rp_step chk rp c) \<and> k = call_key c"
proof -
  obtain now u p where c: "c = (now, u, p)" by (cases c)
  have kd: "keys_distinct (seen_nonces rp)" using I by (simp add: rp_invar_def)
  from C have C': "clock_in_range rp now" by (simp add: c)
  show ?thesis
    using I C'
  proof (cases rule: record_state_cases [of rp now chk u p])
    case unchanged
    with k show ?thesis by (simp add: c rp_step_def)
  next
    case pruned
    with k show ?thesis
      by (auto simp: c rp_step_def knows_nonce_def map_of_retain [OF kd] split: option.splits if_splits)
  next
    case recorded
    with k show ?thesis
      by (auto simp: c rp_step_def knows_nonce_def map_of_retain [OF kd] update_conv' call_defs
          split: option.splits if_splits)
  qed
qed

lemma forever_is_first_uses:
  assumes "rp_invar rp" "\<forall>c \<in> set cs. clock_in_range rp (fst c)"
    and "\<forall>k t. knows_nonce rp k t \<longrightarrow> k \<in> set hist"
  shows "admitted (forever_step (sint (max_drift_secs rp))) hist cs =
    first_uses hist (admitted (rp_step chk) rp cs)"
  using assms
proof (induction cs arbitrary: rp hist)
  case Nil
  then show ?case by simp
next
  case (Cons c cs)
  let ?rp = "snd (rp_step chk rp c)" and ?d = "sint (max_drift_secs rp)"
  have I: "rp_invar rp" and C: "clock_in_range rp (fst c)" using Cons.prems by auto
  have I': "rp_invar ?rp" using I C by (rule rp.check_invar)
  have C': "\<forall>d \<in> set cs. clock_in_range ?rp (fst d)" using Cons.prems(2) rp.check_clock by auto
  have keys: "\<forall>k t. knows_nonce ?rp k t \<longrightarrow> k \<in> set (if fst (rp_step chk rp c) then call_key c # hist else hist)"
    using cache_keys_step [OF I C, of chk] Cons.prems(3)
    by (cases "fst (rp_step chk rp c)") (simp_all only: if_True if_False list.set insert_iff, blast+)
  note adm = rp_step_admit_iff [OF I C, of chk]
  have IH: "admitted (forever_step ?d) h cs = first_uses h (admitted (rp_step chk) ?rp cs)"
    if "\<forall>k t. knows_nonce ?rp k t \<longrightarrow> k \<in> set h" for h
    using Cons.IH [OF I' C' that] by simp
  show ?case
  proof (cases "fst (rp_step chk rp c)")
    case True
    show ?thesis
    proof (cases "call_key c \<in> set hist")
      case seen: True
      have "admitted (forever_step ?d) hist cs = first_uses hist (admitted (rp_step chk) ?rp cs)"
        using keys True seen by (intro IH) (simp only: if_True list.set insert_absorb)
      moreover have "forever_step ?d hist c = (False, hist)" using seen by (simp add: forever_step_def)
      ultimately show ?thesis using True seen by (simp add: split_beta Let_def)
    next
      case False
      have "admitted (forever_step ?d) (call_key c # hist) cs =
          first_uses (call_key c # hist) (admitted (rp_step chk) ?rp cs)"
        by (rule IH) (use keys True in auto)
      moreover have "forever_step ?d hist c = (True, call_key c # hist)"
        using True False adm by (simp add: forever_step_def Let_def)
      ultimately show ?thesis using True False by (simp add: split_beta Let_def)
    qed
  next
    case False
    have "knows_nonce rp (call_key c) t \<Longrightarrow> call_key c \<in> set hist" for t using Cons.prems(3) by blast
    with False adm have no: "\<not> fst (forever_step ?d hist c)"
      by (auto simp: forever_step_def Let_def)
    then have "snd (forever_step ?d hist c) = hist" by (auto simp: forever_step_def Let_def)
    moreover have "admitted (forever_step ?d) hist cs = first_uses hist (admitted (rp_step chk) ?rp cs)"
      by (rule IH) (use keys False in auto)
    ultimately show ?thesis using False no by (simp add: split_beta Let_def)
  qed
qed

lemma admitted_subset: "set (admitted check s cs) \<subseteq> set cs"
  by (induction cs arbitrary: s) (auto simp: split_beta Let_def)

text \<open>C11: what pruning gives up, against a reference that remembers every nonce for ever. From an
  empty cache, with a clock that does not go back: (1) the reference admits exactly the first
  use of each user and nonce that the protector admits, so nothing the reference admits is
  refused; (2) the protector admits a user and nonce again only with a call at whose time the
  earlier timestamp has left the window, which by the freshness check takes another
  timestamp, that is another proof; (3) so when no nonce comes with two timestamps, replays of
  the same proofs included, the two admit exactly the same calls.\<close>

theorem pruning_against_full_history:
  assumes "rp_invar rp" "seen_nonces rp = []" "\<forall>c \<in> set cs. clock_in_range rp (fst c)"
    and "sorted (map call_time cs)"
  shows "admitted (forever_step (sint (max_drift_secs rp))) [] cs =
      first_uses [] (admitted (rp_step chk) rp cs) \<and>
    sorted_wrt (\<lambda>c d. call_key c = call_key d \<longrightarrow> call_stamp c < call_time d - sint (max_drift_secs rp))
      (admitted (rp_step chk) rp cs) \<and>
    ((\<forall>c \<in> set cs. \<forall>d \<in> set cs. call_key c = call_key d \<longrightarrow> call_stamp c = call_stamp d) \<longrightarrow>
      admitted (rp_step chk) rp cs = admitted (forever_step (sint (max_drift_secs rp))) [] cs)"
proof (intro conjI impI)
  let ?adm = "admitted (rp_step chk) rp cs" and ?d = "sint (max_drift_secs rp)"
  show first: "admitted (forever_step ?d) [] cs = first_uses [] ?adm"
    using assms(1,3) by (rule forever_is_first_uses) (simp add: knows_nonce_def assms(2))
  show reuse: "sorted_wrt (\<lambda>c d. call_key c = call_key d \<longrightarrow> call_stamp c < call_time d - ?d) ?adm"
    using assms(1,3,4) by (rule rp.admitted_reuse)
  assume one: "\<forall>c \<in> set cs. \<forall>d \<in> set cs. call_key c = call_key d \<longrightarrow> call_stamp c = call_stamp d"
  have "sorted_wrt (\<lambda>c d. call_key c \<noteq> call_key d) ?adm"
  proof (rule sorted_wrt_mono_rel [OF _ reuse])
    fix c d
    assume c: "c \<in> set ?adm" and d: "d \<in> set ?adm"
      and early: "call_key c = call_key d \<longrightarrow> call_stamp c < call_time d - ?d"
    have sub: "set ?adm \<subseteq> set cs" by (rule admitted_subset)
    have "call_time d - ?d \<le> call_stamp d" using rp.admitted_fresh [OF assms(1,3), of chk] d by blast
    moreover have "call_key c = call_key d \<Longrightarrow> call_stamp c = call_stamp d" using one c d sub by blast
    ultimately show "call_key c \<noteq> call_key d" using early by linarith
  qed
  then show "?adm = admitted (forever_step ?d) [] cs" by (simp add: first first_uses_all)
qed

theorem pruning_against_full_history_witness:
  "admitted (rp_step True) ReplayProtector_default
     [(100, ''alice'', probe 40), (100, ''alice'', probe 40), (110, ''bob'', probe 90)] =
   admitted (forever_step (sint (max_drift_secs ReplayProtector_default))) []
     [(100, ''alice'', probe 40), (100, ''alice'', probe 40), (110, ''bob'', probe 90)]"
  by (rule pruning_against_full_history [THEN conjunct2, THEN conjunct2, THEN mp, OF rp_invar_default])
    (simp_all add: clock_in_range_def i64_max_def call_defs)

text \<open>The difference is real: one nonce under two timestamps, far enough apart, is admitted twice
  where the reference refuses the second.\<close>

lemma pruned_nonce_reused:
  "admitted (rp_step chk) ReplayProtector_default [(100, u, probe 90), (200, u, probe 200)] =
     [(100, u, probe 90), (200, u, probe 200)] \<and>
   admitted (forever_step 60) [] [(100, u, probe 90), (200, u, probe 200)] = [(100, u, probe 90)]"
  by (simp add: rp_step_def check_and_record_def check_freshness_def record_nonce_def forever_step_def
      i64_sub_def i64_neg_def retain_recent_def ReplayProtector_default_def ReplayProtector_new_def
      DEFAULT_MAX_DRIFT_SECS_def Let_def call_defs)

section \<open>What the cache holds\<close>

lemma seen_after_subset:
  assumes "rp_invar rp" "clock_in_range rp now"
  shows "set (seen_nonces (snd (check_and_record chk now rp u p))) \<subseteq>
    set (seen_nonces rp) \<union>
    (if fst (check_and_record chk now rp u p) = Ret (Inr ()) then {((u, nonce p), timestamp p)} else {})"
  using assms
proof (cases rule: record_state_cases [of rp now chk u p])
  case recorded
  have "set (AList.update k v t) \<subseteq> insert (k, v) (set t)" for k v and t :: "(nonce_key \<times> i64) list"
    by (induction t) auto
  with recorded show ?thesis by (fastforce simp: retain_recent_def)
qed (auto simp: retain_recent_def)

text \<open>The cache does not grow without admissions. Every entry of the cache after a sequence of
  calls was there before or is the user, nonce and timestamp of an admitted call; rejected
  proofs leave no entry.\<close>

theorem cache_holds_only_admitted:
  assumes "rp_invar rp" "\<forall>c \<in> set cs. clock_in_range rp (fst c)"
  shows "set (seen_nonces (final_state (rp_step chk) rp cs)) \<subseteq> set (seen_nonces rp) \<union>
    (\<lambda>(now, u, p). ((u, nonce p), timestamp p)) ` set (admitted (rp_step chk) rp cs)"
  using assms
proof (induction cs arbitrary: rp)
  case Nil
  then show ?case by simp
next
  case (Cons c cs)
  obtain now u p where c: "c = (now, u, p)" by (cases c)
  let ?rp = "snd (rp_step chk rp c)"
  have "rp_invar ?rp" using Cons.prems by (intro rp.check_invar) auto
  moreover have "\<forall>c \<in> set cs. clock_in_range ?rp (fst c)" using Cons.prems(2) rp.check_clock by auto
  ultimately have "set (seen_nonces (final_state (rp_step chk) ?rp cs)) \<subseteq> set (seen_nonces ?rp) \<union>
    (\<lambda>(now, u, p). ((u, nonce p), timestamp p)) ` set (admitted (rp_step chk) ?rp cs)"
    by (rule Cons.IH)
  moreover have "set (seen_nonces ?rp) \<subseteq> set (seen_nonces rp) \<union>
      (if fst (rp_step chk rp c) then {((u, nonce p), timestamp p)} else {})"
    using Cons.prems seen_after_subset [of rp now chk u p] by (simp add: c rp_step_def)
  ultimately show ?case by (auto simp: c split_beta Let_def split: if_splits)
qed

theorem cache_holds_only_admitted_witness:
  "set (seen_nonces (final_state (rp_step True) ReplayProtector_default [(100, ''alice'', probe 20)]))
     \<subseteq> set (seen_nonces ReplayProtector_default) \<union>
    (\<lambda>(now, u, p). ((u, nonce p), timestamp p)) `
      set (admitted (rp_step True) ReplayProtector_default [(100, ''alice'', probe 20)])"
  by (rule cache_holds_only_admitted [OF rp_invar_default]) (simp add: clock_in_range_def i64_max_def)

section \<open>A clock that goes back\<close>

text \<open>Whether the call reaches the section under the lock.\<close>

definition call_fresh :: "ReplayProtector \<Rightarrow> rp_call \<Rightarrow> bool" where
  "call_fresh rp c \<longleftrightarrow> \<bar>call_time c - call_stamp c\<bar> \<le> sint (max_drift_secs rp)"

lemma knows_other_key:
  assumes I: "rp_invar rp" and C: "clock_in_range rp (fst c)" and k: "call_key c \<noteq> k"
  shows "knows_nonce (snd (rp_step chk rp c)) k t \<longleftrightarrow>
    knows_nonce rp k t \<and> \<not> (call_fresh rp c \<and> t < call_time c - sint (max_drift_secs rp))"
proof -
  obtain now u p where c: "c = (now, u, p)" by (cases c)
  have kd: "keys_distinct (seen_nonces rp)" using I by (simp add: rp_invar_def)
  from C have C': "clock_in_range rp now" by (simp add: c)
  note cut = cutoff_exact(2) [OF I C']
  have fresh: "call_fresh rp c \<longleftrightarrow> check_freshness chk now (max_drift_secs rp) (timestamp p) = Ret (Inr ())"
    unfolding fresh_iff_rp [OF I C'] by (auto simp: call_fresh_def c call_defs)
  show ?thesis
    using k
    by (auto simp: c rp_step_def check_and_record_split record_nonce_exact [OF I C'] Let_def
        fresh [unfolded c] knows_nonce_def map_of_retain [OF kd] update_conv' call_defs cut
        split: option.splits if_splits)
qed

lemma knows_after_others:
  assumes "rp_invar rp" "\<forall>c \<in> set cs. clock_in_range rp (fst c)" "\<forall>c \<in> set cs. call_key c \<noteq> k"
  shows "knows_nonce (final_state (rp_step chk) rp cs) k t \<longleftrightarrow> knows_nonce rp k t \<and>
    \<not> (\<exists>c \<in> set cs. call_fresh rp c \<and> t < call_time c - sint (max_drift_secs rp))"
  using assms
proof (induction cs arbitrary: rp)
  case Nil
  then show ?case by simp
next
  case (Cons c cs)
  let ?rp = "snd (rp_step chk rp c)"
  have I: "rp_invar rp" and C: "clock_in_range rp (fst c)" and k: "call_key c \<noteq> k" using Cons.prems by auto
  have "rp_invar ?rp" using I C by (rule rp.check_invar)
  moreover have "\<forall>d \<in> set cs. clock_in_range ?rp (fst d)" using Cons.prems(2) rp.check_clock by auto
  moreover have "call_fresh ?rp d = call_fresh rp d" for d by (simp add: call_fresh_def)
  ultimately show ?case
    using Cons.IH [of ?rp] Cons.prems(3) knows_other_key [OF I C k] by auto
qed

lemma final_state_drift [simp]:
  "max_drift_secs (final_state (rp_step chk) rp cs) = max_drift_secs rp"
  by (induction cs arbitrary: rp) simp_all

lemma knows_admitted:
  assumes I: "rp_invar rp" and C: "clock_in_range rp now"
    and adm: "fst (check_and_record chk now rp u p) = Ret (Inr ())"
  shows "knows_nonce (snd (check_and_record chk now rp u p)) (u, nonce p) t \<longleftrightarrow> t = sint (timestamp p)"
  using I C
proof (cases rule: record_state_cases [of rp now chk u p])
  case recorded
  then show ?thesis by (auto simp: knows_nonce_def update_conv')
qed (use adm in auto)

text \<open>C40: when a proof is admitted a second time. The code reads the wall clock
  (\<open>chrono::Utc::now\<close>), which can be set back. Let a proof be admitted, then any other calls
  come (with other keys, at any clock values, in any order), and then the same proof at a
  clock within the drift of its timestamp: it is admitted again exactly when one of the calls
  in between passed the freshness check at a clock for which the timestamp had left the window.
  Such a clock is later than the last one, so this takes a clock that went back.\<close>

theorem readmitted_iff_pruned:
  assumes I: "rp_invar rp" and C: "clock_in_range rp t1" "clock_in_range rp t3"
    and clocks: "\<forall>c \<in> set cs. clock_in_range rp (fst c)"
    and adm: "fst (check_and_record chk t1 rp u p) = Ret (Inr ())"
    and others: "\<forall>c \<in> set cs. call_key c \<noteq> (u, nonce p)"
    and fresh: "\<bar>sint t3 - sint (timestamp p)\<bar> \<le> sint (max_drift_secs rp)"
  shows "(fst (check_and_record chk t3
        (final_state (rp_step chk) (snd (check_and_record chk t1 rp u p)) cs) u p) = Ret (Inr ()) \<longleftrightarrow>
      (\<exists>c \<in> set cs. call_fresh rp c \<and> sint (timestamp p) < call_time c - sint (max_drift_secs rp))) \<and>
    (\<forall>c \<in> set cs. sint (timestamp p) < call_time c - sint (max_drift_secs rp) \<longrightarrow> sint t3 < call_time c)"
proof
  let ?rp1 = "snd (check_and_record chk t1 rp u p)"
  let ?rp2 = "final_state (rp_step chk) ?rp1 cs" and ?d = "sint (max_drift_secs rp)"
  have I1: "rp_invar ?rp1" using I C(1) by (rule check_and_record_invar)
  have C1: "\<forall>c \<in> set cs. clock_in_range ?rp1 (fst c)"
    using clocks clock_in_range_cong [of ?rp1 rp] by simp
  have I2: "rp_invar ?rp2" using I1 C1 by (rule rp.final_state_invar)
  have C2: "clock_in_range ?rp2 t3" using C(2) clock_in_range_cong [of ?rp2 rp t3] by simp
  have knows: "knows_nonce ?rp2 (u, nonce p) t \<longleftrightarrow> t = sint (timestamp p) \<and>
      \<not> (\<exists>c \<in> set cs. call_fresh rp c \<and> t < call_time c - ?d)" for t
    unfolding knows_after_others [OF I1 C1 others] knows_admitted [OF I C(1) adm]
    by (simp add: call_fresh_def)
  show "fst (check_and_record chk t3 ?rp2 u p) = Ret (Inr ()) \<longleftrightarrow>
      (\<exists>c \<in> set cs. call_fresh rp c \<and> sint (timestamp p) < call_time c - ?d)"
    unfolding admit_iff [OF I2 C2] knows using fresh by auto
  show "\<forall>c \<in> set cs. sint (timestamp p) < call_time c - ?d \<longrightarrow> sint t3 < call_time c"
    using fresh by auto
qed

text \<open>Stamped 90, admitted at 100; a call at 200 prunes it; the clock is set back to 100.\<close>

theorem readmitted_iff_pruned_witness:
  "fst (check_and_record True 100
     (final_state (rp_step True) (snd (check_and_record True 100 ReplayProtector_default ''alice'' (probe 90)))
        [(200, ''bob'', probe 200)]) ''alice'' (probe 90)) = Ret (Inr ())"
proof -
  have C: "clock_in_range ReplayProtector_default 100" "clock_in_range ReplayProtector_default 100"
    "\<forall>c \<in> set [(200, ''bob'', probe 200)]. clock_in_range ReplayProtector_default (fst c)"
    by (simp_all add: clock_in_range_def i64_max_def)
  have adm: "fst (check_and_record True 100 ReplayProtector_default ''alice'' (probe 90)) = Ret (Inr ())"
    unfolding admit_iff [OF rp_invar_default C(1)] by (simp add: knows_nonce_def)
  have o: "\<forall>c \<in> set [(200 :: i64, ''bob'', probe 200)]. call_key c \<noteq> (''alice'', nonce (probe 90))"
    by (simp add: call_defs)
  have f: "\<bar>sint (100 :: i64) - sint (timestamp (probe 90))\<bar> \<le> sint (max_drift_secs ReplayProtector_default)"
    by simp
  from readmitted_iff_pruned [OF rp_invar_default C adm o f] show ?thesis
    by (simp add: call_fresh_def call_defs)
qed

end
