(* ===== verification/Gf2_Curve.thy ===== *)
theory Gf2_Curve
  imports Zkp_Core_Engine
begin

text \<open>
  A concrete instance of the curve library's interface, over the two-element field: scalars
  and points are booleans, addition is exclusive or, multiplication is conjunction. It meets
  \<open>k256_bytes_ok\<close> and \<open>k256_group_ok\<close>, so the hypotheses on the library can hold
  together; the witnesses of the properties evaluate the model on it. The digest is the
  parity of the input, so it depends on the timestamp and on the nonce.
\<close>

definition gf2_scalar :: "bool \<Rightarrow> bytes" where
  "gf2_scalar b = replicate 31 0 @ [if b then 1 else 0]"

definition gf2_point :: "bool \<Rightarrow> bytes" where
  "gf2_point p = (if p then 2 else 0) # replicate 32 0"

definition gf2_parity :: "bytes \<Rightarrow> bool" where
  "gf2_parity bs = odd (sum_list (map unat bs))"

definition gf2_from_repr :: "bytes \<Rightarrow> bool option" where
  "gf2_from_repr bs = (if bs = gf2_scalar True then Some True
     else if bs = gf2_scalar False then Some False else None)"

definition gf2_encoded :: "bytes \<Rightarrow> (string, bool) result" where
  "gf2_encoded bs = (if bs = gf2_point True then Inr True else Inl ''crypto error'')"

definition gf2 :: "(bool, bool, bool) k256" where
  "gf2 = \<lparr>GENERATOR = True, IDENTITY = False, pt_add = (\<noteq>), pt_mul = (\<and>),
          pt_to_bytes = gf2_point, encoded_from_bytes = gf2_encoded, from_encoded_point = Some,
          SC_ZERO = False, SC_ONE = True, sc_add = (\<noteq>), sc_sub = (\<noteq>), sc_mul = (\<and>),
          sc_invert = (\<lambda>a. a), sc_to_bytes = gf2_scalar, sc_from_repr = gf2_from_repr,
          field_bytes_from_slice = (\<lambda>bs. if length bs = 32 then Some bs else None),
          sha256 = (\<lambda>bs. gf2_scalar (gf2_parity bs))\<rparr>"

lemma gf2_scalar_inj [simp]: "gf2_scalar a = gf2_scalar b \<longleftrightarrow> a = b"
  by (simp add: gf2_scalar_def)

lemma gf2_from_repr_scalar [simp]: "gf2_from_repr (gf2_scalar b) = Some b"
  by (simp add: gf2_from_repr_def)

lemma length_gf2_scalar [simp]: "length (gf2_scalar b) = 32"
  by (simp add: gf2_scalar_def)

lemma gf2_encoded_point [simp]: "gf2_encoded (gf2_point True) = Inr True"
  by (simp add: gf2_encoded_def)

lemma gf2_bytes_ok: "k256_bytes_ok gf2"
  unfolding k256_bytes_ok_def
  by (auto simp: gf2_def gf2_point_def gf2_from_repr_def gf2_encoded_def split: if_splits)

lemma gf2_field_ok: "scalar_field_ok gf2"
  unfolding scalar_field_ok_def by (auto simp: gf2_def)

lemma gf2_group_ok: "k256_group_ok gf2"
  unfolding k256_group_ok_def using gf2_field_ok by (auto simp: gf2_def)

text \<open>The fields of the instance, for evaluation by the simplifier.\<close>

lemma gf2_simps [simp]:
  "GENERATOR gf2 = True" "IDENTITY gf2 = False" "pt_add gf2 a b = (a \<noteq> b)"
  "pt_mul gf2 a b = (a \<and> b)" "pt_to_bytes gf2 a = gf2_point a"
  "encoded_from_bytes gf2 bs = gf2_encoded bs" "from_encoded_point gf2 a = Some a"
  "SC_ZERO gf2 = False" "SC_ONE gf2 = True" "sc_add gf2 a b = (a \<noteq> b)"
  "sc_sub gf2 a b = (a \<noteq> b)" "sc_mul gf2 a b = (a \<and> b)" "sc_invert gf2 a = a"
  "sc_to_bytes gf2 a = gf2_scalar a" "sc_from_repr gf2 bs = gf2_from_repr bs"
  "field_bytes_from_slice gf2 bs = (if length bs = 32 then Some bs else None)"
  "sha256 gf2 bs = gf2_scalar (gf2_parity bs)"
  by (simp_all add: gf2_def)

lemma gf2_challenge:
  "compute_challenge gf2 r y ts nc = Ret (gf2_parity (challenge_input gf2 r y ts nc))"
  by (simp add: compute_challenge_def)

text \<open>The parity of a challenge input, part by part: point encodings are even.\<close>

lemma gf2_parity_append [simp]: "gf2_parity (a @ b) = (gf2_parity a \<noteq> gf2_parity b)"
  by (auto simp: gf2_parity_def)

lemma gf2_parity_point [simp]: "\<not> gf2_parity (gf2_point p)"
  by (simp add: gf2_parity_def gf2_point_def sum_list_replicate)

lemma gf2_parity_input:
  "gf2_parity (challenge_input gf2 r y ts nc) = (gf2_parity (i64_to_be_bytes ts) \<noteq> gf2_parity nc)"
  by (simp add: challenge_input_def)

lemma gf2_parity_zeros [simp]: "\<not> gf2_parity (replicate n 0)"
  by (simp add: gf2_parity_def sum_list_replicate)

lemma gf2_parity_Cons [simp]: "gf2_parity (b # bs) = (odd (unat b) \<noteq> gf2_parity bs)"
  by (auto simp: gf2_parity_def)

lemma gf2_parity_Nil [simp]: "\<not> gf2_parity []"
  by (simp add: gf2_parity_def)

text \<open>A key pair and proofs on this instance, for the witnesses.\<close>

definition gf2_sk :: "bool UserSecretKey" where "gf2_sk = UserSecretKey True"
definition gf2_pk :: "bool UserPublicKey" where "gf2_pk = UserPublicKey True"
definition zero_nonce :: bytes where "zero_nonce = replicate 16 0"
definition one_nonce :: bytes where "one_nonce = replicate 15 0 @ [1]"

lemma gf2_point_of_pk: "public_point gf2_pk = True"
  by (simp add: gf2_pk_def)

lemma gf2_public_key: "public_key gf2 gf2_sk = gf2_pk"
  by (simp add: public_key_def gf2_sk_def gf2_pk_def)

text \<open>
  \<open>gf2_proof ts odd_nonce s\<close>: commitment the generator, response \<open>s\<close>. It verifies under
  \<open>gf2_pk\<close> exactly when \<open>s\<close> is the negation of the challenge.
\<close>

definition gf2_proof :: "i64 \<Rightarrow> bytes \<Rightarrow> bool \<Rightarrow> Proof" where
  "gf2_proof ts nc s =
     \<lparr>r_point = gf2_point True, s_scalar = gf2_scalar s, timestamp = ts, nonce = nc\<rparr>"

lemma gf2_proof_simps [simp]:
  "r_point (gf2_proof ts nc s) = gf2_point True" "s_scalar (gf2_proof ts nc s) = gf2_scalar s"
  "timestamp (gf2_proof ts nc s) = ts" "nonce (gf2_proof ts nc s) = nc"
  by (simp_all add: gf2_proof_def)

lemma gf2_verify:
  "verify gf2 True (gf2_proof ts nc s) =
     Ret (Inr (s \<noteq> gf2_parity (challenge_input gf2 True True ts nc)))"
  by (simp add: verify_def gf2_challenge)

lemma gf2_verify_honest:
  "gf2_parity nc = s \<Longrightarrow> verify gf2 True (gf2_proof 0 nc (\<not> s)) = Ret (Inr True)"
  by (simp add: gf2_verify gf2_parity_input)

end
