(* ===== verification/Schnorr.thy ===== *)
theory Schnorr
  imports Gf2_Curve
begin

text \<open>
  Correctness of the Schnorr engine: completeness, special soundness with an explicit
  extractor, honest-verifier simulation, uniqueness of the response, binding of timestamp
  and nonce, the exact error behaviour of \<open>verify\<close>, the key encodings and \<open>is_fresh\<close>.
\<close>

section \<open>Consequences of the hypotheses on the curve\<close>

lemma k256_bytes_okD:
  assumes "k256_bytes_ok K"
  shows length_pt_to_bytes: "length (pt_to_bytes K p) = 33"
    and length_sc_to_bytes: "length (sc_to_bytes K s) = 32"
    and from_repr_to_bytes: "sc_from_repr K (sc_to_bytes K s) = Some s"
    and from_repr_canonical: "sc_from_repr K bs = Some s \<Longrightarrow> sc_to_bytes K s = bs"
    and field_bytes_iff: "field_bytes_from_slice K bs = (if length bs = 32 then Some bs else None)"
    and length_sha256: "length (sha256 K bs) = 32"
  using assms unfolding k256_bytes_ok_def by blast+

lemma point_decodes:
  assumes "k256_bytes_ok K" "p \<noteq> IDENTITY K"
  obtains c where "encoded_from_bytes K (pt_to_bytes K p) = Inr c" "from_encoded_point K c = Some p"
  using assms unfolding k256_bytes_ok_def by blast

lemma field_okD:
  assumes "scalar_field_ok K"
  shows sc_add_assoc: "sc_add K (sc_add K a b) c = sc_add K a (sc_add K b c)"
    and sc_add_comm: "sc_add K a b = sc_add K b a"
    and sc_add_zero: "sc_add K a (SC_ZERO K) = a"
    and sc_sub_add: "sc_add K (sc_sub K a b) b = a"
    and sc_mul_assoc: "sc_mul K (sc_mul K a b) c = sc_mul K a (sc_mul K b c)"
    and sc_mul_comm: "sc_mul K a b = sc_mul K b a"
    and sc_mul_one: "sc_mul K a (SC_ONE K) = a"
    and sc_distrib: "sc_mul K a (sc_add K b c) = sc_add K (sc_mul K a b) (sc_mul K a c)"
    and sc_inverse: "a \<noteq> SC_ZERO K \<Longrightarrow> sc_mul K a (sc_invert K a) = SC_ONE K"
  using assms unfolding scalar_field_ok_def by blast+

lemma group_okD:
  assumes "k256_group_ok K"
  shows group_field: "scalar_field_ok K"
    and gen_add: "pt_mul K (GENERATOR K) (sc_add K a b) =
        pt_add K (pt_mul K (GENERATOR K) a) (pt_mul K (GENERATOR K) b)"
    and gen_mul: "pt_mul K (pt_mul K (GENERATOR K) a) b = pt_mul K (GENERATOR K) (sc_mul K a b)"
    and gen_inj: "pt_mul K (GENERATOR K) a = pt_mul K (GENERATOR K) b \<longleftrightarrow> a = b"
    and gen_zero: "pt_mul K (GENERATOR K) (SC_ZERO K) = IDENTITY K"
  using assms unfolding k256_group_ok_def by blast+

lemma gen_surj:
  assumes "k256_group_ok K"
  obtains a where "p = pt_mul K (GENERATOR K) a"
  using assms unfolding k256_group_ok_def by blast

text \<open>Field arithmetic that the proofs below need.\<close>

lemma sc_add_cancel:
  assumes F: "scalar_field_ok K"
  shows "sc_add K a c = sc_add K b c \<longleftrightarrow> a = b"
proof
  assume eq: "sc_add K a c = sc_add K b c"
  let ?n = "sc_sub K (SC_ZERO K) c"
  have undo: "sc_add K (sc_add K x c) ?n = x" for x
    using sc_add_assoc [OF F, of x c ?n] sc_add_comm [OF F, of c ?n]
      sc_sub_add [OF F, of "SC_ZERO K" c] sc_add_zero [OF F, of x] by simp
  show "a = b" using undo [of a] undo [of b] eq by metis
qed simp

lemma sc_add_cancel_left:
  assumes F: "scalar_field_ok K"
  shows "sc_add K c a = sc_add K c b \<longleftrightarrow> a = b"
  using sc_add_cancel [OF F] sc_add_comm [OF F] by metis

lemma sc_sub_eq_iff:
  assumes F: "scalar_field_ok K"
  shows "sc_sub K a b = c \<longleftrightarrow> a = sc_add K c b"
  using sc_add_cancel [OF F, of "sc_sub K a b" b c] sc_sub_add [OF F, of a b] by auto

lemma sc_div_cancel:
  assumes F: "scalar_field_ok K" and nz: "d \<noteq> SC_ZERO K"
  shows "sc_mul K (sc_mul K d x) (sc_invert K d) = x"
proof -
  have "sc_mul K (sc_mul K d x) (sc_invert K d) = sc_mul K x (sc_mul K d (sc_invert K d))"
    using sc_mul_comm [OF F, of d x] sc_mul_assoc [OF F, of x d] by simp
  also have "\<dots> = x" by (simp add: sc_inverse [OF F nz] sc_mul_one [OF F])
  finally show ?thesis .
qed

lemma sc_mul_cancel:
  assumes F: "scalar_field_ok K" and nz: "d \<noteq> SC_ZERO K"
  shows "sc_mul K d a = sc_mul K d b \<longleftrightarrow> a = b"
  using sc_div_cancel [OF F nz, of a] sc_div_cancel [OF F nz, of b] by metis

lemma sc_mul_sub:
  assumes F: "scalar_field_ok K"
  shows "sc_mul K (sc_sub K a b) x = sc_sub K (sc_mul K a x) (sc_mul K b x)"
proof -
  have "sc_mul K a x = sc_mul K x (sc_add K (sc_sub K a b) b)"
    unfolding sc_sub_add [OF F] by (rule sc_mul_comm [OF F])
  also have "\<dots> = sc_add K (sc_mul K (sc_sub K a b) x) (sc_mul K b x)"
    by (simp only: sc_distrib [OF F] sc_mul_comm [OF F, of x b]
        sc_mul_comm [OF F, of x "sc_sub K a b"])
  finally show ?thesis
    by (rule sc_sub_eq_iff [OF F, THEN iffD2, symmetric])
qed

lemma sc_sub_nonzero:
  assumes F: "scalar_field_ok K" and ne: "a \<noteq> b"
  shows "sc_sub K a b \<noteq> SC_ZERO K"
  using ne sc_sub_eq_iff [OF F, of a b "SC_ZERO K"] sc_add_comm [OF F, of "SC_ZERO K" b]
    sc_add_zero [OF F, of b] by simp

text \<open>The verification equation over scalars: points are multiples of the generator.\<close>

lemma schnorr_equation:
  assumes G: "k256_group_ok K"
  shows "pt_mul K (GENERATOR K) s =
      pt_add K (pt_mul K (GENERATOR K) k) (pt_mul K (pt_mul K (GENERATOR K) x) e)
    \<longleftrightarrow> s = schnorr_response K k e x"
proof -
  note F = group_field [OF G]
  have "pt_mul K (pt_mul K (GENERATOR K) x) e = pt_mul K (GENERATOR K) (sc_mul K e x)"
    by (simp add: gen_mul [OF G] sc_mul_comm [OF F, of x])
  then show ?thesis
    by (simp add: gen_add [OF G, symmetric] gen_inj [OF G] schnorr_response_def)
qed

section \<open>What an accepting run of verify says\<close>

lemma verify_True_iff:
  "verify K pk p = Ret (Inr True) \<longleftrightarrow>
     (\<exists>c r b s e. encoded_from_bytes K (r_point p) = Inr c \<and> from_encoded_point K c = Some r \<and>
        field_bytes_from_slice K (s_scalar p) = Some b \<and> sc_from_repr K b = Some s \<and>
        compute_challenge K r pk (timestamp p) (nonce p) = Ret e \<and>
        pt_mul K (GENERATOR K) s = pt_add K r (pt_mul K pk e))"
  unfolding verify_def
  by (auto simp: run_convs Let_def split: sum.splits option.splits)

text \<open>The parts of a proof as \<open>verify\<close> reads them, for stating the properties.\<close>

definition commitment_of :: "('pt, 'sc, 'enc) k256 \<Rightarrow> Proof \<Rightarrow> 'pt option" where
  "commitment_of K p =
     (case encoded_from_bytes K (r_point p) of Inl _ \<Rightarrow> None | Inr c \<Rightarrow> from_encoded_point K c)"

definition response_of :: "('pt, 'sc, 'enc) k256 \<Rightarrow> Proof \<Rightarrow> 'sc option" where
  "response_of K p =
     (case field_bytes_from_slice K (s_scalar p) of None \<Rightarrow> None | Some b \<Rightarrow> sc_from_repr K b)"

definition challenge_of :: "('pt, 'sc, 'enc) k256 \<Rightarrow> 'pt \<Rightarrow> Proof \<Rightarrow> 'sc option" where
  "challenge_of K pk p =
     (case commitment_of K p of None \<Rightarrow> None
      | Some r \<Rightarrow> (case compute_challenge K r pk (timestamp p) (nonce p) of
                    Panic _ \<Rightarrow> None | Ret e \<Rightarrow> Some e))"

lemmas parts_defs = commitment_of_def response_of_def challenge_of_def

lemma verify_True_parts:
  "verify K pk p = Ret (Inr True) \<longleftrightarrow>
     (\<exists>r s e. commitment_of K p = Some r \<and> response_of K p = Some s \<and>
        challenge_of K pk p = Some e \<and>
        pt_mul K (GENERATOR K) s = pt_add K r (pt_mul K pk e))"
  unfolding verify_True_iff parts_defs
  by (auto split: sum.splits option.splits run.splits)

lemma accepted_scalars:
  assumes G: "k256_group_ok K" and acc: "verify K pk p = Ret (Inr True)"
    and pk: "pk = pt_mul K (GENERATOR K) x"
  obtains k e where "commitment_of K p = Some (pt_mul K (GENERATOR K) k)"
    "challenge_of K pk p = Some e" "response_of K p = Some (schnorr_response K k e x)"
proof -
  from acc obtain r s e where r: "commitment_of K p = Some r" and s: "response_of K p = Some s"
    and e: "challenge_of K pk p = Some e"
    and eq: "pt_mul K (GENERATOR K) s = pt_add K r (pt_mul K pk e)"
    by (auto simp: verify_True_parts)
  obtain k where k: "r = pt_mul K (GENERATOR K) k" by (rule gen_surj [OF G])
  have "s = schnorr_response K k e x" using eq unfolding k pk by (simp add: schnorr_equation [OF G])
  with r s e k show thesis by (intro that) auto
qed

section \<open>Completeness\<close>

lemma honest_proof_verifies:
  assumes B: "k256_bytes_ok K" and G: "k256_group_ok K" and k: "k \<noteq> SC_ZERO K"
    and gen: "generate_proof_with_time K sk (public_key K sk) ts nc k = Ret p"
  shows "verify K (public_point (public_key K sk)) p = Ret (Inr True)"
proof -
  let ?r = "pt_mul K (GENERATOR K) k" and ?x = "secret_scalar sk"
  let ?pk = "pt_mul K (GENERATOR K) ?x"
  have "?r \<noteq> IDENTITY K" using k by (simp add: gen_zero [OF G, symmetric] gen_inj [OF G])
  then obtain c where c: "encoded_from_bytes K (pt_to_bytes K ?r) = Inr c"
    "from_encoded_point K c = Some ?r" by (rule point_decodes [OF B])
  from gen obtain e where e: "compute_challenge K ?r ?pk ts nc = Ret e"
    and p: "p = \<lparr>r_point = pt_to_bytes K ?r,
      s_scalar = sc_to_bytes K (schnorr_response K k e ?x), timestamp = ts, nonce = nc\<rparr>"
    by (auto simp: generate_proof_with_time_def public_key_def Let_def run_convs)
  show ?thesis
    unfolding verify_True_iff
    using c e B schnorr_equation [OF G, of "schnorr_response K k e ?x" k ?x e]
    by (simp add: p public_key_def field_bytes_iff from_repr_to_bytes length_sc_to_bytes)
qed

text \<open>C7: an honest proof verifies. If \<open>pk\<close> is the public key of \<open>sk\<close>, every proof that
  \<open>generate_proof_with_time\<close> returns, for any timestamp, nonce and non-zero ephemeral scalar,
  is accepted by \<open>verify\<close> under \<open>pk\<close>.\<close>

theorem schnorr_completeness:
  assumes "k256_bytes_ok K" "k256_group_ok K" "k \<noteq> SC_ZERO K"
    and "generate_proof_with_time K sk (public_key K sk) ts nc k = Ret p"
  shows "verify K (public_point (public_key K sk)) p = Ret (Inr True)"
  using assms by (rule honest_proof_verifies)

theorem schnorr_completeness_witness:
  "verify gf2 (public_point (public_key gf2 gf2_sk)) (gf2_proof 0 one_nonce False) = Ret (Inr True)"
proof (rule schnorr_completeness [OF gf2_bytes_ok gf2_group_ok])
  show "True \<noteq> SC_ZERO gf2" by simp
  show "generate_proof_with_time gf2 gf2_sk (public_key gf2 gf2_sk) 0 one_nonce True
      = Ret (gf2_proof 0 one_nonce False)"
    by (simp add: generate_proof_with_time_def gf2_challenge gf2_parity_input gf2_public_key
        gf2_sk_def gf2_pk_def schnorr_response_def gf2_proof_def one_nonce_def)
qed

section \<open>Special soundness\<close>

text \<open>The extractor: divide the difference of the responses by that of the challenges.\<close>

definition extract_secret ::
  "('pt, 'sc, 'enc) k256 \<Rightarrow> 'pt \<Rightarrow> Proof \<Rightarrow> Proof \<Rightarrow> 'sc option" where
  "extract_secret K pk p1 p2 =
     (case (response_of K p1, response_of K p2, challenge_of K pk p1, challenge_of K pk p2) of
        (Some s1, Some s2, Some e1, Some e2) \<Rightarrow>
          Some (sc_mul K (sc_sub K s1 s2) (sc_invert K (sc_sub K e1 e2)))
      | _ \<Rightarrow> None)"

lemma response_difference:
  assumes F: "scalar_field_ok K"
  shows "sc_sub K (schnorr_response K k e1 x) (schnorr_response K k e2 x) =
    sc_mul K (sc_sub K e1 e2) x"
proof (rule sc_sub_eq_iff [OF F, THEN iffD2])
  have "sc_add K (sc_mul K (sc_sub K e1 e2) x) (sc_mul K e2 x) = sc_mul K e1 x"
    unfolding sc_mul_sub [OF F] by (rule sc_sub_add [OF F])
  then show "schnorr_response K k e1 x =
      sc_add K (sc_mul K (sc_sub K e1 e2) x) (schnorr_response K k e2 x)"
    unfolding schnorr_response_def
    by (metis sc_add_assoc [OF F] sc_add_comm [OF F])
qed

text \<open>C6: special soundness. From two accepted proofs with the same commitment bytes and
  different challenges the extractor computes the secret key of the verified public key:
  whoever can answer two challenges for one commitment knows the secret.\<close>

theorem schnorr_special_soundness:
  assumes G: "k256_group_ok K"
    and acc1: "verify K pk p1 = Ret (Inr True)" and acc2: "verify K pk p2 = Ret (Inr True)"
    and same: "r_point p1 = r_point p2"
    and diff: "challenge_of K pk p1 \<noteq> challenge_of K pk p2"
  shows "\<exists>x. extract_secret K pk p1 p2 = Some x \<and> public_key K (UserSecretKey x) = UserPublicKey pk"
proof -
  note F = group_field [OF G]
  obtain x where pk: "pk = pt_mul K (GENERATOR K) x" by (rule gen_surj [OF G])
  obtain k1 e1 where 1: "commitment_of K p1 = Some (pt_mul K (GENERATOR K) k1)"
    "challenge_of K pk p1 = Some e1" "response_of K p1 = Some (schnorr_response K k1 e1 x)"
    by (rule accepted_scalars [OF G acc1 pk])
  obtain k2 e2 where 2: "commitment_of K p2 = Some (pt_mul K (GENERATOR K) k2)"
    "challenge_of K pk p2 = Some e2" "response_of K p2 = Some (schnorr_response K k2 e2 x)"
    by (rule accepted_scalars [OF G acc2 pk])
  have "k1 = k2" using 1(1) 2(1) same by (simp add: commitment_of_def gen_inj [OF G])
  moreover have nz: "sc_sub K e1 e2 \<noteq> SC_ZERO K"
    using diff 1(2) 2(2) by (intro sc_sub_nonzero [OF F]) auto
  ultimately have "extract_secret K pk p1 p2 = Some x"
    using 1 2 by (simp add: extract_secret_def response_difference [OF F] sc_div_cancel [OF F nz])
  then show ?thesis by (simp add: public_key_def pk)
qed

theorem schnorr_special_soundness_witness:
  "\<exists>x. extract_secret gf2 True (gf2_proof 0 zero_nonce True) (gf2_proof 0 one_nonce False) = Some x
     \<and> public_key gf2 (UserSecretKey x) = UserPublicKey True"
proof (rule schnorr_special_soundness [OF gf2_group_ok])
  show "verify gf2 True (gf2_proof 0 zero_nonce True) = Ret (Inr True)"
    by (simp add: gf2_verify gf2_parity_input zero_nonce_def)
  show "verify gf2 True (gf2_proof 0 one_nonce False) = Ret (Inr True)"
    by (simp add: gf2_verify gf2_parity_input one_nonce_def)
  show "challenge_of gf2 True (gf2_proof 0 zero_nonce True)
      \<noteq> challenge_of gf2 True (gf2_proof 0 one_nonce False)"
    by (simp add: parts_defs gf2_challenge gf2_parity_input zero_nonce_def one_nonce_def)
qed simp

section \<open>Honest-verifier simulation\<close>

definition simulate_commitment :: "('pt, 'sc, 'enc) k256 \<Rightarrow> 'pt \<Rightarrow> 'sc \<Rightarrow> 'sc \<Rightarrow> 'pt" where
  "simulate_commitment K pk e s =
     pt_add K (pt_mul K (GENERATOR K) s) (pt_mul K pk (sc_sub K (SC_ZERO K) e))"

lemma simulate_honest:
  assumes G: "k256_group_ok K"
  shows "simulate_commitment K (pt_mul K (GENERATOR K) x) e (schnorr_response K k e x) =
    pt_mul K (GENERATOR K) k"
proof -
  note F = group_field [OF G]
  let ?m = "sc_mul K (sc_sub K (SC_ZERO K) e) x"
  have "sc_mul K (SC_ZERO K) x = SC_ZERO K"
    using sc_distrib [OF F, of x "SC_ZERO K" "SC_ZERO K"] sc_add_zero [OF F]
      sc_add_cancel_left [OF F] sc_mul_comm [OF F] by metis
  then have "sc_add K (sc_mul K e x) ?m = SC_ZERO K"
    unfolding sc_mul_sub [OF F] using sc_sub_add [OF F] sc_add_comm [OF F] by metis
  then have "sc_add K (schnorr_response K k e x) ?m = k"
    unfolding schnorr_response_def by (simp add: sc_add_assoc [OF F] sc_add_zero [OF F])
  moreover have "pt_mul K (pt_mul K (GENERATOR K) x) (sc_sub K (SC_ZERO K) e) =
      pt_mul K (GENERATOR K) ?m"
    unfolding gen_mul [OF G] by (simp only: sc_mul_comm [OF F, of x])
  ultimately show ?thesis
    unfolding simulate_commitment_def by (simp only: gen_add [OF G, symmetric])
qed

text \<open>C8: honest-verifier zero knowledge. For a fixed secret and challenge, drawing the
  ephemeral scalar uniformly and computing the response is a bijection between ephemeral
  scalars and responses, and the commitment is what the simulator computes from the response
  and the public key alone: the transcript carries nothing that depends on the secret.\<close>

theorem schnorr_zero_knowledge:
  assumes G: "k256_group_ok K"
  shows "bij (\<lambda>k. schnorr_response K k e (secret_scalar sk)) \<and>
    (\<forall>k. pt_mul K (GENERATOR K) k =
       simulate_commitment K (public_point (public_key K sk)) e
         (schnorr_response K k e (secret_scalar sk)))"
proof
  note F = group_field [OF G]
  show "bij (\<lambda>k. schnorr_response K k e (secret_scalar sk))"
  proof (rule bijI)
    show "inj (\<lambda>k. schnorr_response K k e (secret_scalar sk))"
      by (rule injI) (simp add: schnorr_response_def sc_add_cancel [OF F])
    show "surj (\<lambda>k. schnorr_response K k e (secret_scalar sk))"
      unfolding schnorr_response_def by (rule surjI) (rule sc_sub_add [OF F])
  qed
qed (simp add: public_key_def simulate_honest [OF G])

theorem schnorr_zero_knowledge_witness:
  "bij (\<lambda>k. schnorr_response gf2 k True (secret_scalar gf2_sk)) \<and>
    (\<forall>k. pt_mul gf2 (GENERATOR gf2) k =
       simulate_commitment gf2 (public_point (public_key gf2 gf2_sk)) True
         (schnorr_response gf2 k True (secret_scalar gf2_sk)))"
  by (rule schnorr_zero_knowledge [OF gf2_group_ok])

section \<open>Tampering\<close>

lemma response_of_bytes:
  assumes B: "k256_bytes_ok K" and "response_of K p = Some s"
  shows "s_scalar p = sc_to_bytes K s"
  using assms by (auto simp: response_of_def field_bytes_iff from_repr_canonical split: if_splits)

lemma parts_update_s [simp]:
  "commitment_of K (p\<lparr>s_scalar := s\<rparr>) = commitment_of K p"
  "challenge_of K pk (p\<lparr>s_scalar := s\<rparr>) = challenge_of K pk p"
  by (simp_all add: commitment_of_def challenge_of_def cong: option.case_cong)

lemma response_unique:
  assumes B: "k256_bytes_ok K" and G: "k256_group_ok K"
    and acc: "verify K pk p = Ret (Inr True)" and ne: "s' \<noteq> s_scalar p"
  shows "verify K pk (p\<lparr>s_scalar := s'\<rparr>) \<noteq> Ret (Inr True)"
proof
  assume acc': "verify K pk (p\<lparr>s_scalar := s'\<rparr>) = Ret (Inr True)"
  obtain x where pk: "pk = pt_mul K (GENERATOR K) x" by (rule gen_surj [OF G])
  obtain k e where 1: "commitment_of K p = Some (pt_mul K (GENERATOR K) k)"
    "challenge_of K pk p = Some e" "response_of K p = Some (schnorr_response K k e x)"
    by (rule accepted_scalars [OF G acc pk])
  obtain k' e' where 2: "commitment_of K (p\<lparr>s_scalar := s'\<rparr>) = Some (pt_mul K (GENERATOR K) k')"
    "challenge_of K pk (p\<lparr>s_scalar := s'\<rparr>) = Some e'"
    "response_of K (p\<lparr>s_scalar := s'\<rparr>) = Some (schnorr_response K k' e' x)"
    by (rule accepted_scalars [OF G acc' pk])
  have "k' = k" "e' = e" using 1 2 by (simp_all add: gen_inj [OF G])
  then have "s' = s_scalar p"
    using response_of_bytes [OF B 1(3)] response_of_bytes [OF B 2(3)] by simp
  with ne show False ..
qed

text \<open>C22: the response is unique. If a proof is accepted, the same proof with any other
  \<open>s_scalar\<close> bytes is not: no altered response is ever verified, whichever byte was changed.\<close>

theorem tampered_response_rejected:
  assumes B: "k256_bytes_ok K" and G: "k256_group_ok K"
    and acc: "verify K pk p = Ret (Inr True)" and ne: "s' \<noteq> s_scalar p"
  shows "verify K pk (p\<lparr>s_scalar := s'\<rparr>) \<noteq> Ret (Inr True)"
  using assms by (rule response_unique)

theorem tampered_response_rejected_witness:
  "verify gf2 True (gf2_proof 0 one_nonce False\<lparr>s_scalar := gf2_scalar True\<rparr>) \<noteq> Ret (Inr True)"
proof (rule tampered_response_rejected [OF gf2_bytes_ok gf2_group_ok])
  show "verify gf2 True (gf2_proof 0 one_nonce False) = Ret (Inr True)"
    by (simp add: gf2_verify gf2_parity_input one_nonce_def)
  show "gf2_scalar True \<noteq> s_scalar (gf2_proof 0 one_nonce False)" by simp
qed

section \<open>Timestamp and nonce are bound by the challenge\<close>

lemma challenge_input_inj:
  assumes "k256_bytes_ok K"
  shows "challenge_input K r y ts nc = challenge_input K r y ts' nc' \<longleftrightarrow> ts = ts' \<and> nc = nc'"
  unfolding challenge_input_def by (simp add: append_eq_fixed_width)

lemma equal_challenges_collide:
  assumes B: "k256_bytes_ok K"
    and "compute_challenge K r y ts nc = Ret e" "compute_challenge K r y ts' nc' = Ret e"
  shows "sha256 K (challenge_input K r y ts nc) = sha256 K (challenge_input K r y ts' nc')"
  using assms
  by (auto simp: compute_challenge_def field_bytes_iff length_sha256
      dest!: from_repr_canonical [OF B] split: option.splits)

lemma parts_update_fresh [simp]:
  "commitment_of K (p\<lparr>timestamp := ts, nonce := nc\<rparr>) = commitment_of K p"
  "response_of K (p\<lparr>timestamp := ts, nonce := nc\<rparr>) = response_of K p"
  by (simp_all add: commitment_of_def response_of_def)

text \<open>C9: timestamp and nonce are bound. If a proof and the same proof with another timestamp
  or nonce are both accepted under a public key other than the identity, the two challenge
  inputs are different preimages of one SHA-256 digest. Making an old proof look fresh, or
  giving it an unused nonce, takes a hash collision.\<close>

theorem freshness_fields_bound:
  assumes B: "k256_bytes_ok K" and G: "k256_group_ok K" and pk: "pk \<noteq> IDENTITY K"
    and acc: "verify K pk p = Ret (Inr True)"
    and acc': "verify K pk (p\<lparr>timestamp := ts, nonce := nc\<rparr>) = Ret (Inr True)"
    and changed: "ts \<noteq> timestamp p \<or> nc \<noteq> nonce p"
  shows "\<exists>r. commitment_of K p = Some r \<and>
    challenge_input K r pk (timestamp p) (nonce p) \<noteq> challenge_input K r pk ts nc \<and>
    sha256 K (challenge_input K r pk (timestamp p) (nonce p)) =
    sha256 K (challenge_input K r pk ts nc)"
proof -
  note F = group_field [OF G]
  let ?p = "p\<lparr>timestamp := ts, nonce := nc\<rparr>"
  obtain x where x: "pk = pt_mul K (GENERATOR K) x" by (rule gen_surj [OF G])
  have nz: "x \<noteq> SC_ZERO K" using pk x gen_zero [OF G] by metis
  obtain k e where 1: "commitment_of K p = Some (pt_mul K (GENERATOR K) k)"
    "challenge_of K pk p = Some e" "response_of K p = Some (schnorr_response K k e x)"
    by (rule accepted_scalars [OF G acc x])
  obtain k' e' where 2: "commitment_of K ?p = Some (pt_mul K (GENERATOR K) k')"
    "challenge_of K pk ?p = Some e'" "response_of K ?p = Some (schnorr_response K k' e' x)"
    by (rule accepted_scalars [OF G acc' x])
  let ?r = "pt_mul K (GENERATOR K) k"
  have "k' = k" using 1 2 by (simp add: gen_inj [OF G])
  then have "sc_mul K x e = sc_mul K x e'"
    using 1(3) 2(3) by (simp add: schnorr_response_def sc_add_cancel_left [OF F]) (metis sc_mul_comm [OF F])
  then have "e = e'" by (simp add: sc_mul_cancel [OF F nz])
  then have "compute_challenge K ?r pk (timestamp p) (nonce p) = Ret e"
    "compute_challenge K ?r pk ts nc = Ret e"
    using 1(1,2) 2(2) by (auto simp: challenge_of_def split: run.splits)
  then show ?thesis
    using 1(1) changed equal_challenges_collide [OF B] challenge_input_inj [OF B] by metis
qed

theorem freshness_fields_bound_witness:
  "\<exists>r. commitment_of gf2 (gf2_proof 0 zero_nonce True) = Some r \<and>
    challenge_input gf2 r True 0 zero_nonce \<noteq> challenge_input gf2 r True 0 (replicate 15 0 @ [2]) \<and>
    sha256 gf2 (challenge_input gf2 r True 0 zero_nonce) =
    sha256 gf2 (challenge_input gf2 r True 0 (replicate 15 0 @ [2]))"
proof -
  let ?p = "gf2_proof 0 zero_nonce True" and ?nc = "replicate 15 0 @ [2] :: bytes"
  have ne: "True \<noteq> IDENTITY gf2" by simp
  have acc: "verify gf2 True ?p = Ret (Inr True)"
    by (simp add: gf2_verify gf2_parity_input zero_nonce_def)
  have upd: "?p\<lparr>timestamp := 0, nonce := ?nc\<rparr> = gf2_proof 0 ?nc True"
    by (simp add: gf2_proof_def)
  have acc': "verify gf2 True (?p\<lparr>timestamp := 0, nonce := ?nc\<rparr>) = Ret (Inr True)"
    unfolding upd by (simp add: gf2_verify gf2_parity_input)
  have changed: "(0 :: i64) \<noteq> timestamp ?p \<or> ?nc \<noteq> nonce ?p"
    by (simp add: zero_nonce_def eval_nat_numeral)
  show ?thesis
    using freshness_fields_bound [OF gf2_bytes_ok gf2_group_ok ne acc acc' changed] by simp
qed

section \<open>When verify fails\<close>

lemma panics_challenge_iff:
  assumes B: "k256_bytes_ok K"
  shows "panics (compute_challenge K r y ts nc) \<longleftrightarrow>
    sc_from_repr K (sha256 K (challenge_input K r y ts nc)) = None"
  by (simp add: compute_challenge_def field_bytes_iff [OF B] length_sha256 [OF B] split: option.split)

text \<open>C28: \<open>verify\<close> panics exactly in two cases: the commitment bytes parse as a point encoding
  and \<open>s_scalar\<close> has not 32 bytes (\<open>FieldBytes::from_slice\<close> asserts the length of data that
  comes from the network), or everything decodes and the digest is not a canonical scalar
  (the \<open>expect\<close> of \<open>compute_challenge\<close>). No other input panics.\<close>

theorem verify_panics_iff:
  assumes B: "k256_bytes_ok K"
  shows "panics (verify K pk p) \<longleftrightarrow>
    (\<exists>c. encoded_from_bytes K (r_point p) = Inr c \<and>
       (length (s_scalar p) \<noteq> 32 \<or>
        (\<exists>r s. from_encoded_point K c = Some r \<and> sc_from_repr K (s_scalar p) = Some s \<and>
           sc_from_repr K (sha256 K (challenge_input K r pk (timestamp p) (nonce p))) = None)))"
  unfolding verify_def
  by (auto simp: field_bytes_iff [OF B] panics_challenge_iff [OF B] Let_def
      split: sum.splits option.splits)

theorem verify_panics_iff_witness:
  "panics (verify gf2 True (gf2_proof 0 zero_nonce True\<lparr>s_scalar := []\<rparr>))"
  unfolding verify_panics_iff [OF gf2_bytes_ok] by auto

text \<open>The errors of \<open>verify\<close>. When it does not panic, it returns \<open>Err\<close> exactly when the
  commitment or the response does not decode, and the error is a \<open>SerializationError\<close>;
  otherwise it returns \<open>Ok\<close> of the verification equation. A malformed proof is never
  accepted.\<close>

theorem verify_error_iff:
  assumes B: "k256_bytes_ok K" and ret: "verify K pk p = Ret res"
  shows "(commitment_of K p = None \<or> response_of K p = None) = (\<exists>e. res = Inl e) \<and>
    (\<forall>e. res = Inl e \<longrightarrow> (\<exists>m. e = SerializationError m)) \<and>
    (\<forall>r s. commitment_of K p = Some r \<and> response_of K p = Some s \<longrightarrow>
       (\<exists>e. challenge_of K pk p = Some e \<and>
          res = Inr (pt_mul K (GENERATOR K) s = pt_add K r (pt_mul K pk e))))"
  using ret unfolding verify_def parts_defs
  by (auto simp: field_bytes_iff [OF B] run_convs Let_def split: sum.splits option.splits if_splits)

theorem verify_error_iff_witness:
  "(commitment_of gf2 (gf2_proof 0 zero_nonce True\<lparr>r_point := []\<rparr>) = None \<or>
    response_of gf2 (gf2_proof 0 zero_nonce True\<lparr>r_point := []\<rparr>) = None) =
   (\<exists>e. (Inl (SerializationError ''Invalid R point length/format'') :: (ZkpError, bool) result) = Inl e)"
proof -
  let ?p = "gf2_proof 0 zero_nonce True\<lparr>r_point := []\<rparr>"
  have "verify gf2 True ?p = Ret (Inl (SerializationError ''Invalid R point length/format''))"
    by (simp add: verify_def gf2_encoded_def gf2_point_def)
  from verify_error_iff [OF gf2_bytes_ok this] show ?thesis by (rule conjunct1)
qed

section \<open>Keys\<close>

text \<open>Secret keys and their encoding. Reading a secret key never panics; it returns the key
  \<open>sk\<close> exactly for the bytes that \<open>to_bytes\<close> writes for \<open>sk\<close> (so the encoding is injective
  and canonical), and any byte string of another length is rejected.\<close>

theorem secret_key_roundtrip:
  assumes B: "k256_bytes_ok K"
  shows "\<not> panics (sk_from_bytes K bs) \<and>
    (sk_from_bytes K bs = Ret (Inr sk) \<longleftrightarrow> bs = sk_to_bytes K sk) \<and>
    (length bs \<noteq> 32 \<longrightarrow>
       sk_from_bytes K bs = Ret (Inl (SerializationError ''Secret key must be exactly 32 bytes'')))"
  unfolding sk_from_bytes_def sk_to_bytes_def
  by (cases sk)
    (auto simp: field_bytes_iff [OF B] length_sc_to_bytes [OF B] from_repr_to_bytes [OF B]
      dest: from_repr_canonical [OF B] split: option.splits)

theorem secret_key_roundtrip_witness:
  "sk_from_bytes gf2 (sk_to_bytes gf2 gf2_sk) = Ret (Inr gf2_sk)"
  using secret_key_roundtrip [OF gf2_bytes_ok, of "sk_to_bytes gf2 gf2_sk" gf2_sk] by simp

text \<open>Public keys and their encoding. A public key other than the identity is read back
  from the 33 bytes that \<open>to_bytes\<close> writes.\<close>

theorem public_key_roundtrip:
  assumes B: "k256_bytes_ok K" and "public_point pk \<noteq> IDENTITY K"
  shows "pk_from_bytes K (pk_to_bytes K pk) = Inr pk \<and> length (pk_to_bytes K pk) = 33"
  using assms(2) length_pt_to_bytes [OF B]
  by (cases pk) (auto simp: pk_from_bytes_def pk_to_bytes_def elim: point_decodes [OF B])

theorem public_key_roundtrip_witness:
  "pk_from_bytes gf2 (pk_to_bytes gf2 gf2_pk) = Inr gf2_pk \<and> length (pk_to_bytes gf2 gf2_pk) = 33"
  by (rule public_key_roundtrip [OF gf2_bytes_ok]) (simp add: gf2_pk_def)

section \<open>Freshness\<close>

lemma i64_sub_exact: "i64_range (sint a - sint b) \<Longrightarrow> i64_sub chk a b = Ret (a - b)"
  by (simp add: i64_sub_def sint_minus_i64)

lemma i64_neg_exact: "i64_range (- sint a) \<Longrightarrow> i64_neg chk a = Ret (- a)"
  by (simp add: i64_neg_def sint_uminus_i64)

text \<open>\<open>is_fresh\<close> compares the distance between the clock and the timestamp with the
  allowed drift, exactly, as long as the distance fits an \<open>i64\<close>, with or without overflow
  checks.\<close>

theorem is_fresh_exact:
  assumes "\<bar>sint now - sint (timestamp p)\<bar> \<le> i64_max"
  shows "is_fresh chk now p drift =
    Ret (\<bar>sint now - sint (timestamp p)\<bar> \<le> sint drift)"
proof -
  let ?d = "sint now - sint (timestamp p)"
  have r: "i64_range ?d" "i64_range (- ?d)"
    using assms by (auto simp: i64_range_def i64_min_def i64_max_def)
  have d: "sint (now - timestamp p) = ?d" by (rule sint_minus_i64 [OF r(1)])
  have n: "sint (- (now - timestamp p)) = - ?d"
    using sint_uminus_i64 [of "now - timestamp p"] r(2) d by simp
  show ?thesis
    using r n by (auto simp: is_fresh_def i64_sub_exact i64_abs_def i64_neg_exact d)
qed

theorem is_fresh_exact_witness:
  "is_fresh True 100 (gf2_proof 50 zero_nonce True) 60 =
    Ret (\<bar>sint (100 :: i64) - sint (timestamp (gf2_proof 50 zero_nonce True))\<bar> \<le> sint (60 :: i64))"
  by (rule is_fresh_exact) (simp add: i64_max_def)

text \<open>At the one distance \<open>2 ^ 63\<close>, \<open>is_fresh\<close> is wrong: with overflow checks it panics,
  and without them it reports a timestamp 292 billion years old as fresh whatever the allowed
  drift, because \<open>i64::abs\<close> of the wrapped difference is negative.\<close>

theorem is_fresh_wraps:
  assumes d: "sint now - sint (timestamp p) = 2 ^ 63"
  shows "is_fresh False now p drift = Ret True \<and> panics (is_fresh True now p drift)"
proof -
  have w: "sint (now - timestamp p) = i64_min"
    using d by (simp add: sint_minus_i64_cases Let_def i64_min_def i64_max_def)
  then have m: "now - timestamp p = 0x8000000000000000"
    by (intro signed_word_eqI) (simp add: i64_min_def)
  have "- (now - timestamp p) = 0x8000000000000000" unfolding m by simp
  then have neg: "sint (timestamp p - now) = i64_min" by (simp add: i64_min_def)
  have "i64_min \<le> sint drift" by (rule sint_i64_bounds)
  then show ?thesis
    using w d neg
    by (simp add: is_fresh_def i64_sub_def i64_abs_def i64_neg_def i64_min_def)
qed

theorem is_fresh_wraps_witness:
  "is_fresh False 0 (gf2_proof 0x8000000000000000 zero_nonce True) 60 = Ret True"
proof -
  have "sint (0 :: i64) - sint (timestamp (gf2_proof 0x8000000000000000 zero_nonce True)) = 2 ^ 63"
    by simp
  from is_fresh_wraps [OF this, of 60] show ?thesis by simp
qed

end
