(* ===== verification/Storage.thy ===== *)
theory Storage
  imports Schnorr "HOL-Library.List_Lexorder" "HOL-Library.Char_ord"
begin

text \<open>
  \<open>src/storage.rs\<close>: the registry of public keys over SQLite. The state is the table
  \<open>user_registry\<close>: user id (the primary key), key bytes, registration time. Each method runs
  one SQL statement under the connection's mutex; its effect on the table is modelled as the
  statement says. The database engine can fail any statement: every operation takes the
  engine's verdict (\<open>None\<close>, or the message of a \<open>rusqlite::Error\<close>), and a failed statement
  leaves the table as it was. No operation panics while it holds the mutex, so it is never
  poisoned. \<open>TEXT\<close> is ordered by its bytes (SQLite's \<open>BINARY\<close> collation).
\<close>

section \<open>The registry\<close>

datatype StorageError =
    DatabaseError string
  | DecodingError string

fun StorageError_display :: "StorageError \<Rightarrow> string" where
  "StorageError_display (DatabaseError e) = ''Database error: '' @ e"
| "StorageError_display (DecodingError e) = ''Public key decoding error: '' @ e"

type_synonym user_row = "string \<times> (bytes \<times> i64)"

text \<open>A connection to a database in which the table may not exist yet.\<close>

record Connection =
  user_table :: "user_row list option"

record UserRegistry =
  user_rows :: "user_row list"

definition init_registry :: "string option \<Rightarrow> Connection \<Rightarrow> (StorageError, UserRegistry) result" where
  "init_registry dberr conn =
     (case dberr of
        Some e \<Rightarrow> Inl (DatabaseError e)
      | None \<Rightarrow> Inr \<lparr>user_rows = (case user_table conn of None \<Rightarrow> [] | Some rows \<Rightarrow> rows)\<rparr>)"

text \<open>\<open>open_registry\<close>: opening the file is the first statement that can fail.\<close>

definition open_registry ::
  "(string, Connection) result \<Rightarrow> string option \<Rightarrow> (StorageError, UserRegistry) result" where
  "open_registry opened dberr =
     (case opened of Inl e \<Rightarrow> Inl (DatabaseError e) | Inr conn \<Rightarrow> init_registry dberr conn)"

definition in_memory :: "string option \<Rightarrow> (StorageError, UserRegistry) result" where
  "in_memory dberr = open_registry (Inr \<lparr>user_table = None\<rparr>) dberr"

definition register ::
  "('pt, 'sc, 'enc) k256 \<Rightarrow> string option \<Rightarrow> i64 \<Rightarrow> UserRegistry \<Rightarrow> string \<Rightarrow> 'pt UserPublicKey \<Rightarrow>
   (StorageError, unit) result \<times> UserRegistry" where
  "register K dberr now reg user_id pk =
     (let pk_bytes = pk_to_bytes K pk in
      case dberr of
        Some e \<Rightarrow> (Inl (DatabaseError e), reg)
      | None \<Rightarrow> (Inr (), reg\<lparr>user_rows := AList.update user_id (pk_bytes, now) (user_rows reg)\<rparr>))"

definition get_public_key ::
  "('pt, 'sc, 'enc) k256 \<Rightarrow> string option \<Rightarrow> UserRegistry \<Rightarrow> string \<Rightarrow>
   (StorageError, 'pt UserPublicKey option) result" where
  "get_public_key K dberr reg user_id =
     (case dberr of
        Some e \<Rightarrow> Inl (DatabaseError e)
      | None \<Rightarrow>
          (case map_option fst (map_of (user_rows reg) user_id) of
             Some bytes \<Rightarrow>
               (case pk_from_bytes K bytes of
                  Inl e \<Rightarrow> Inl (DecodingError (ZkpError_display e))
                | Inr pk \<Rightarrow> Inr (Some pk))
           | None \<Rightarrow> Inr None))"

definition is_registered ::
  "string option \<Rightarrow> UserRegistry \<Rightarrow> string \<Rightarrow> (StorageError, bool) result" where
  "is_registered dberr reg user_id =
     (case dberr of
        Some e \<Rightarrow> Inl (DatabaseError e)
      | None \<Rightarrow> Inr (map_of (user_rows reg) user_id \<noteq> None))"

definition remove_user ::
  "string option \<Rightarrow> UserRegistry \<Rightarrow> string \<Rightarrow> (StorageError, bool) result \<times> UserRegistry" where
  "remove_user dberr reg user_id =
     (case dberr of
        Some e \<Rightarrow> (Inl (DatabaseError e), reg)
      | None \<Rightarrow>
          (let rows = filter (\<lambda>r. fst r \<noteq> user_id) (user_rows reg);
               deleted = length (user_rows reg) - length rows
           in (Inr (0 < deleted), reg\<lparr>user_rows := rows\<rparr>)))"

definition list_users :: "string option \<Rightarrow> UserRegistry \<Rightarrow> (StorageError, string list) result" where
  "list_users dberr reg =
     (case dberr of
        Some e \<Rightarrow> Inl (DatabaseError e)
      | None \<Rightarrow> Inr (sort (map fst (user_rows reg))))"

definition count_users :: "string option \<Rightarrow> UserRegistry \<Rightarrow> (StorageError, nat) result" where
  "count_users dberr reg =
     (case dberr of Some e \<Rightarrow> Inl (DatabaseError e) | None \<Rightarrow> Inr (length (user_rows reg)))"

section \<open>The contract of a key directory\<close>

text \<open>
  What the clients of the registry rely on: a finite map from users to stored key bytes, with
  an invariant, that registration and removal update point-wise.
\<close>

locale key_directory =
  fixes encode_key :: "'k \<Rightarrow> 'v"
    and put :: "'s \<Rightarrow> 'u \<Rightarrow> 'k \<Rightarrow> 's"
    and drop_key :: "'s \<Rightarrow> 'u \<Rightarrow> 's"
    and stored :: "'s \<Rightarrow> 'u \<Rightarrow> 'v option"
    and population :: "'s \<Rightarrow> nat"
    and invar :: "'s \<Rightarrow> bool"
  assumes put_invar: "invar s \<Longrightarrow> invar (put s u k)"
    and drop_invar: "invar s \<Longrightarrow> invar (drop_key s u)"
    and stored_put: "invar s \<Longrightarrow> stored (put s u k) = (stored s)(u \<mapsto> encode_key k)"
    and stored_drop: "invar s \<Longrightarrow> stored (drop_key s u) = (stored s)(u := None)"
    and population_stored: "invar s \<Longrightarrow> population s = card (dom (stored s))"
    and finite_stored: "invar s \<Longrightarrow> finite (dom (stored s))"
begin

lemma put_population:
  assumes "invar s"
  shows "population (put s u k) = (if stored s u = None then Suc (population s) else population s)"
  using assms finite_stored [OF assms]
  by (auto simp: population_stored put_invar stored_put card_insert_if domIff)

lemma drop_population:
  assumes "invar s"
  shows "population (drop_key s u) = (if stored s u = None then population s else population s - 1)"
proof -
  have "dom ((stored s)(u := None)) = dom (stored s) - {u}" by auto
  then show ?thesis
    using assms finite_stored [OF assms]
    by (auto simp: population_stored drop_invar stored_drop card_Diff_singleton_if)
qed

text \<open>Any sequence of registrations (\<open>Some k\<close>) and removals (\<open>None\<close>).\<close>

lemma directory_run:
  assumes "invar s"
  shows "invar (foldl (\<lambda>s (u, w). case w of Some k \<Rightarrow> put s u k | None \<Rightarrow> drop_key s u) s ops) \<and>
    stored (foldl (\<lambda>s (u, w). case w of Some k \<Rightarrow> put s u k | None \<Rightarrow> drop_key s u) s ops) =
    foldl (\<lambda>m (u, w). m(u := map_option encode_key w)) (stored s) ops"
  using assms
proof (induction ops arbitrary: s)
  case Nil
  then show ?case by simp
next
  case (Cons x ops)
  obtain u w where x: "x = (u, w)" by (cases x)
  show ?case
  proof (cases w)
    case None
    with Cons show ?thesis by (simp add: x drop_invar stored_drop fun_upd_def cong: if_cong)
  next
    case (Some v)
    with Cons show ?thesis by (simp add: x put_invar stored_put fun_upd_def cong: if_cong)
  qed
qed

end

section \<open>The registry provides the contract\<close>

definition reg_invar :: "UserRegistry \<Rightarrow> bool" where
  "reg_invar reg \<longleftrightarrow> keys_distinct (user_rows reg)"

definition stored_key :: "UserRegistry \<Rightarrow> string \<Rightarrow> bytes option" where
  "stored_key reg u = map_option fst (map_of (user_rows reg) u)"

lemma map_of_filter_key: "map_of (filter (\<lambda>r. fst r \<noteq> u) t) = (map_of t)(u := None)"
  by (induction t) (auto simp: fun_eq_iff)

lemma stored_register:
  "stored_key (snd (register K None now reg u pk)) = (stored_key reg)(u \<mapsto> pk_to_bytes K pk)"
  by (auto simp: register_def stored_key_def Let_def update_conv' fun_eq_iff)

lemma stored_remove: "stored_key (snd (remove_user None reg u)) = (stored_key reg)(u := None)"
  by (auto simp: remove_user_def stored_key_def Let_def map_of_filter_key fun_eq_iff)

lemma reg_invar_register [table_laws]: "reg_invar reg \<Longrightarrow> reg_invar (snd (register K dberr now reg u pk))"
  by (simp add: register_def reg_invar_def Let_def split: option.split)

lemma reg_invar_remove [table_laws]: "reg_invar reg \<Longrightarrow> reg_invar (snd (remove_user dberr reg u))"
  by (simp add: remove_user_def reg_invar_def Let_def split: option.split)

lemma dom_stored: "dom (stored_key reg) = dom (map_of (user_rows reg))"
  by (auto simp: stored_key_def)

lemma reg_population: "reg_invar reg \<Longrightarrow> length (user_rows reg) = card (dom (stored_key reg))"
  by (simp add: reg_invar_def dom_stored length_eq_card_dom)

lemma finite_stored_key: "finite (dom (stored_key reg))"
  by (simp add: dom_stored finite_dom_map_of)

interpretation dir: key_directory
  "\<lambda>(pk, now). pk_to_bytes K pk" "\<lambda>reg u (pk, now). snd (register K None now reg u pk)"
  "\<lambda>reg u. snd (remove_user None reg u)" stored_key "\<lambda>reg. length (user_rows reg)" reg_invar for K
  by unfold_locales
    (auto simp: stored_register stored_remove reg_invar_register reg_invar_remove reg_population
      finite_stored_key split: prod.splits)

section \<open>Properties\<close>

datatype 'pt registry_op =
    Register string "'pt UserPublicKey" i64
  | Remove string

fun apply_registry_op :: "('pt, 'sc, 'enc) k256 \<Rightarrow> UserRegistry \<Rightarrow> 'pt registry_op \<Rightarrow> UserRegistry" where
  "apply_registry_op K reg (Register u pk now) = snd (register K None now reg u pk)"
| "apply_registry_op K reg (Remove u) = snd (remove_user None reg u)"

fun abstract_op :: "('pt, 'sc, 'enc) k256 \<Rightarrow> (string \<rightharpoonup> bytes) \<Rightarrow> 'pt registry_op \<Rightarrow> (string \<rightharpoonup> bytes)" where
  "abstract_op K m (Register u pk now) = m(u \<mapsto> pk_to_bytes K pk)"
| "abstract_op K m (Remove u) = m(u := None)"

lemma empty_registry: "in_memory None = Inr \<lparr>user_rows = []\<rparr>"
  by (simp add: in_memory_def open_registry_def init_registry_def)

text \<open>C19: the registry refines a finite map. Any sequence of successful registrations and
  removals on the table acts on the abstraction (user to stored key bytes) as the same
  sequence of point-wise updates of a map, keeps the primary key unique, and \<open>count\<close> returns
  the size of the map's domain.\<close>

theorem registry_refines_map:
  assumes "reg_invar reg"
  shows "reg_invar (foldl (apply_registry_op K) reg ops) \<and>
    stored_key (foldl (apply_registry_op K) reg ops) = foldl (abstract_op K) (stored_key reg) ops \<and>
    count_users None (foldl (apply_registry_op K) reg ops) =
      Inr (card (dom (foldl (abstract_op K) (stored_key reg) ops)))"
  using assms
proof (induction ops arbitrary: reg)
  case Nil
  then show ?case by (simp add: count_users_def reg_population)
next
  case (Cons x ops)
  have "reg_invar (apply_registry_op K reg x)"
    using Cons.prems by (cases x) (auto intro: table_laws)
  from Cons.IH [OF this] show ?case
    by (cases x) (simp_all add: stored_register stored_remove fun_upd_def)
qed

theorem registry_refines_map_witness:
  "stored_key (foldl (apply_registry_op gf2) \<lparr>user_rows = []\<rparr>
     [Register ''alice'' gf2_pk 5, Register ''bob'' gf2_pk 6, Remove ''alice'']) =
   foldl (abstract_op gf2) (stored_key \<lparr>user_rows = []\<rparr>)
     [Register ''alice'' gf2_pk 5, Register ''bob'' gf2_pk 6, Remove ''alice'']"
proof -
  have "reg_invar \<lparr>user_rows = []\<rparr>" by (simp add: reg_invar_def)
  from registry_refines_map [OF this] show ?thesis by blast
qed

text \<open>C20: enrollment. After a successful \<open>register\<close> of a key other than the identity, the user
  is registered and \<open>get_public_key\<close> returns exactly that key, whatever was stored before;
  every other user's key is unchanged, and the count grows by one for a new user only.\<close>

theorem register_then_lookup:
  assumes B: "k256_bytes_ok K" and I: "reg_invar reg" and pk: "public_point pk \<noteq> IDENTITY K"
    and reg': "register K None now reg u pk = (Inr (), reg')"
  shows "get_public_key K None reg' u = Inr (Some pk) \<and> is_registered None reg' u = Inr True \<and>
    (\<forall>w. w \<noteq> u \<longrightarrow> get_public_key K None reg' w = get_public_key K None reg w) \<and>
    count_users None reg' =
      Inr (if stored_key reg u = None then Suc (length (user_rows reg)) else length (user_rows reg))"
proof -
  have r: "reg' = snd (register K None now reg u pk)" using reg' by simp
  have st: "stored_key reg' = (stored_key reg)(u \<mapsto> pk_to_bytes K pk)"
    unfolding r by (rule stored_register)
  then have look: "map_option fst (map_of (user_rows reg') w) =
      (if w = u then Some (pk_to_bytes K pk) else map_option fst (map_of (user_rows reg) w))" for w
    by (auto simp: stored_key_def fun_eq_iff)
  obtain c where "encoded_from_bytes K (pk_to_bytes K pk) = Inr c"
    "from_encoded_point K c = Some (public_point pk)"
    unfolding pk_to_bytes_def by (rule point_decodes [OF B pk])
  then have "pk_from_bytes K (pk_to_bytes K pk) = Inr pk" by (simp add: pk_from_bytes_def)
  moreover have "map_of (user_rows reg') u \<noteq> None" using look [of u] by auto
  moreover have "length (user_rows reg') =
      (if stored_key reg u = None then Suc (length (user_rows reg)) else length (user_rows reg))"
    using dir.put_population [OF I, where K = K and u = u and k = "(pk, now)"] by (simp add: r)
  ultimately show ?thesis
    by (simp add: get_public_key_def is_registered_def count_users_def look)
qed

theorem register_then_lookup_witness:
  "get_public_key gf2 None \<lparr>user_rows = [(''bob'', (gf2_point True, 9))]\<rparr> ''bob'' = Inr (Some gf2_pk)"
proof -
  have "register gf2 None 9 \<lparr>user_rows = []\<rparr> ''bob'' gf2_pk =
      (Inr (), \<lparr>user_rows = [(''bob'', (gf2_point True, 9))]\<rparr>)"
    by (simp add: register_def pk_to_bytes_def gf2_pk_def)
  moreover have "public_point gf2_pk \<noteq> IDENTITY gf2" by (simp add: gf2_pk_def)
  ultimately show ?thesis
    using register_then_lookup [OF gf2_bytes_ok, of "\<lparr>user_rows = []\<rparr>" gf2_pk 9 "''bob''"]
    by (simp add: reg_invar_def)
qed

text \<open>Removal. \<open>remove\<close> reports whether the user was registered; afterwards the user is not
  registered and has no key, and every other user is as before.\<close>

theorem remove_then_lookup:
  assumes "reg_invar reg" and rem: "remove_user None reg u = (res, reg')"
  shows "res = Inr (stored_key reg u \<noteq> None) \<and> is_registered None reg' u = Inr False \<and>
    get_public_key K None reg' u = Inr None \<and>
    (\<forall>w. w \<noteq> u \<longrightarrow> get_public_key K None reg' w = get_public_key K None reg w)"
proof -
  have rows: "user_rows reg' = filter (\<lambda>r. fst r \<noteq> u) (user_rows reg)"
    and res: "res = Inr (length (user_rows reg') < length (user_rows reg))"
    using rem by (auto simp: remove_user_def Let_def)
  have "length (user_rows reg') < length (user_rows reg) \<longleftrightarrow> u \<in> fst ` set (user_rows reg)"
    unfolding rows length_filter_less_iff by auto
  moreover have "u \<in> fst ` set (user_rows reg) \<longleftrightarrow> stored_key reg u \<noteq> None"
    by (simp add: stored_key_def map_of_eq_None_iff)
  ultimately show ?thesis
    by (simp add: res is_registered_def get_public_key_def rows map_of_filter_key)
qed

theorem remove_then_lookup_witness:
  "is_registered None \<lparr>user_rows = []\<rparr> ''bob'' = Inr False"
proof -
  have "remove_user None \<lparr>user_rows = [(''bob'', (gf2_point True, 9))]\<rparr> ''bob'' =
      (Inr True, \<lparr>user_rows = []\<rparr>)"
    by (simp add: remove_user_def)
  from remove_then_lookup [OF _ this, where K = gf2] show ?thesis by (simp add: reg_invar_def keys_distinct_def)
qed

text \<open>\<open>list_users\<close> returns the registered users in ascending order, each once, as many as
  \<open>count\<close> says, and every listed user has a stored key: the \<open>unwrap\<close> of the enrollment
  tool's listing cannot meet a missing row.\<close>

theorem list_users_sorted:
  assumes "reg_invar reg" and l: "list_users None reg = Inr us"
  shows "sorted us \<and> distinct us \<and> set us = {u. is_registered None reg u = Inr True} \<and>
    count_users None reg = Inr (length us) \<and> (\<forall>u \<in> set us. stored_key reg u \<noteq> None)"
proof -
  have us: "us = sort (map fst (user_rows reg))" using l by (simp add: list_users_def)
  then have set_us: "set us = fst ` set (user_rows reg)" by simp
  have "distinct us" using assms(1) by (simp add: us reg_invar_def keys_distinct_def)
  moreover have "set us = {u. is_registered None reg u = Inr True}"
    by (simp add: set_us is_registered_def map_of_eq_None_iff)
  moreover have "\<forall>u \<in> set us. stored_key reg u \<noteq> None"
    unfolding set_us by (simp add: stored_key_def map_of_eq_None_iff)
  ultimately show ?thesis by (simp add: us count_users_def)
qed

theorem list_users_sorted_witness:
  "sorted [''alice'', ''bob''] \<and> distinct [''alice'', ''bob'']"
proof -
  let ?reg = "\<lparr>user_rows = [(''bob'', ([2], 9)), (''alice'', ([3], 8))]\<rparr>"
  have "list_users None ?reg = Inr [''alice'', ''bob'']" by code_simp
  moreover have "reg_invar ?reg" by (simp add: reg_invar_def keys_distinct_def)
  ultimately show ?thesis using list_users_sorted [of ?reg] by blast
qed

end
