(* ===== verification/Protocol.thy ===== *)
theory Protocol
  imports Zkp_Core_Engine
begin

text \<open>
  \<open>src/protocol.rs\<close>: the messages of the two services and their wire conversions. The
  serializers (\<open>bincode\<close>, \<open>serde_json\<close>) are parameters; the fresh UUID and the clock in
  milliseconds are arguments of the constructors.
\<close>

section \<open>TCP messages\<close>

record AuthRequest =
  req_user_id :: string
  req_public_key :: bytes
  req_proof :: Proof

record AuthResponse =
  res_user_id :: string
  res_success :: bool
  res_message :: string

definition auth_request_try_from ::
  "AuthRequest bincode \<Rightarrow> bytes \<Rightarrow> (ZkpError, AuthRequest) result" where
  "auth_request_try_from B bytes =
     (case bin_deserialize B bytes of
        Inl e \<Rightarrow> Inl (SerializationError (''Failed to deserialize AuthRequest: '' @ e))
      | Inr r \<Rightarrow> Inr r)"

definition auth_request_into_vec :: "AuthRequest bincode \<Rightarrow> AuthRequest \<Rightarrow> bytes run" where
  "auth_request_into_vec B req =
     (case bin_serialize B req of
        Inl e \<Rightarrow> Panic ''AuthRequest bincode serialization should never fail''
      | Inr bs \<Rightarrow> Ret bs)"

definition auth_response_try_from ::
  "AuthResponse bincode \<Rightarrow> bytes \<Rightarrow> (ZkpError, AuthResponse) result" where
  "auth_response_try_from B bytes =
     (case bin_deserialize B bytes of
        Inl e \<Rightarrow> Inl (SerializationError (''Failed to deserialize AuthResponse: '' @ e))
      | Inr r \<Rightarrow> Inr r)"

definition auth_response_into_vec :: "AuthResponse bincode \<Rightarrow> AuthResponse \<Rightarrow> bytes run" where
  "auth_response_into_vec B res =
     (case bin_serialize B res of
        Inl e \<Rightarrow> Panic ''AuthResponse bincode serialization should never fail''
      | Inr bs \<Rightarrow> Ret bs)"

section \<open>Kafka events\<close>

record 'a serde_json =
  json_to_vec :: "'a \<Rightarrow> (string, bytes) result"
  json_from_slice :: "bytes \<Rightarrow> (string, 'a) result"

record KafkaAuthRequest =
  kreq_request_id :: string
  kreq_user_id :: string
  kreq_public_key :: bytes
  kreq_proof :: Proof
  kreq_timestamp :: i64

definition kafka_request_new ::
  "string \<Rightarrow> i64 \<Rightarrow> string \<Rightarrow> bytes \<Rightarrow> Proof \<Rightarrow> KafkaAuthRequest" where
  "kafka_request_new uuid now_millis user_id pk p =
     \<lparr>kreq_request_id = uuid, kreq_user_id = user_id, kreq_public_key = pk, kreq_proof = p,
      kreq_timestamp = now_millis\<rparr>"

record KafkaAuthResponse =
  kres_request_id :: string
  kres_user_id :: string
  kres_success :: bool
  kres_message :: string
  kres_timestamp :: i64

definition kafka_response_new ::
  "i64 \<Rightarrow> string \<Rightarrow> string \<Rightarrow> bool \<Rightarrow> string \<Rightarrow> KafkaAuthResponse" where
  "kafka_response_new now_millis request_id user_id success message =
     \<lparr>kres_request_id = request_id, kres_user_id = user_id, kres_success = success,
      kres_message = message, kres_timestamp = now_millis\<rparr>"

text \<open>The conversions of both events, \<open>map_err\<close> included.\<close>

definition kreq_to_json_bytes ::
  "KafkaAuthRequest serde_json \<Rightarrow> KafkaAuthRequest \<Rightarrow> (ZkpError, bytes) result" where
  "kreq_to_json_bytes J r =
     (case json_to_vec J r of
        Inl e \<Rightarrow> Inl (SerializationError (''JSON serialization error: '' @ e)) | Inr bs \<Rightarrow> Inr bs)"

definition kreq_from_json_bytes ::
  "KafkaAuthRequest serde_json \<Rightarrow> bytes \<Rightarrow> (ZkpError, KafkaAuthRequest) result" where
  "kreq_from_json_bytes J bytes =
     (case json_from_slice J bytes of
        Inl e \<Rightarrow> Inl (SerializationError (''JSON deserialization error: '' @ e)) | Inr r \<Rightarrow> Inr r)"

definition kreq_to_bincode_bytes ::
  "KafkaAuthRequest bincode \<Rightarrow> KafkaAuthRequest \<Rightarrow> (ZkpError, bytes) result" where
  "kreq_to_bincode_bytes B r =
     (case bin_serialize B r of
        Inl e \<Rightarrow> Inl (SerializationError (''Bincode serialization error: '' @ e)) | Inr bs \<Rightarrow> Inr bs)"

definition kreq_from_bincode_bytes ::
  "KafkaAuthRequest bincode \<Rightarrow> bytes \<Rightarrow> (ZkpError, KafkaAuthRequest) result" where
  "kreq_from_bincode_bytes B bytes =
     (case bin_deserialize B bytes of
        Inl e \<Rightarrow> Inl (SerializationError (''Bincode deserialization error: '' @ e)) | Inr r \<Rightarrow> Inr r)"

definition kres_to_json_bytes ::
  "KafkaAuthResponse serde_json \<Rightarrow> KafkaAuthResponse \<Rightarrow> (ZkpError, bytes) result" where
  "kres_to_json_bytes J r =
     (case json_to_vec J r of
        Inl e \<Rightarrow> Inl (SerializationError (''JSON serialization error: '' @ e)) | Inr bs \<Rightarrow> Inr bs)"

definition kres_from_json_bytes ::
  "KafkaAuthResponse serde_json \<Rightarrow> bytes \<Rightarrow> (ZkpError, KafkaAuthResponse) result" where
  "kres_from_json_bytes J bytes =
     (case json_from_slice J bytes of
        Inl e \<Rightarrow> Inl (SerializationError (''JSON deserialization error: '' @ e)) | Inr r \<Rightarrow> Inr r)"

text \<open>\<open>serde_json\<close> reads back what it wrote.\<close>

definition json_ok :: "'a serde_json \<Rightarrow> bool" where
  "json_ok J \<longleftrightarrow> (\<forall>x bs. json_to_vec J x = Inr bs \<longrightarrow> json_from_slice J bs = Inr x)"

end
