(* ===== verification/Service.thy ===== *)
theory Service
  imports Replay Storage Protocol
begin

text \<open>
  What the TCP server and the Kafka worker have in common when they authenticate: a call is
  the clock reading, the registry as the lookup sees it, the verdict of the database engine,
  and the user, key bytes and proof of the request. \<open>key_matches\<close> is the gate both put before
  the replay check, \<open>proof_verifies\<close> the confirmation after it. The locale \<open>gated_guard\<close> is
  interpreted here on the replay protector with this gate and confirmation; the two handlers
  are shown to be this service in their own theories.
\<close>

record service_call =
  call_now :: i64
  call_dberr :: "string option"
  call_registry :: UserRegistry
  call_user :: string
  call_pk :: bytes
  call_proof :: Proof

definition key_matches :: "('pt, 'sc, 'enc) k256 \<Rightarrow> service_call \<Rightarrow> bool" where
  "key_matches K c \<longleftrightarrow>
     (case get_public_key K (call_dberr c) (call_registry c) (call_user c) of
        Inr (Some pk) \<Rightarrow> call_pk c = pk_to_bytes K pk
      | _ \<Rightarrow> False)"

definition proof_verifies :: "('pt, 'sc, 'enc) k256 \<Rightarrow> service_call \<Rightarrow> bool" where
  "proof_verifies K c \<longleftrightarrow>
     (case get_public_key K (call_dberr c) (call_registry c) (call_user c) of
        Inr (Some pk) \<Rightarrow> verify K (public_point pk) (call_proof c) = Ret (Inr True)
      | _ \<Rightarrow> False)"

definition guard_call :: "service_call \<Rightarrow> rp_call" where
  "guard_call c = (call_now c, call_user c, call_proof c)"

abbreviation service_check :: "bool \<Rightarrow> ReplayProtector \<Rightarrow> service_call \<Rightarrow> bool \<times> ReplayProtector" where
  "service_check chk \<equiv> \<lambda>rp c. rp_step chk rp (guard_call c)"

definition service_step ::
  "('pt, 'sc, 'enc) k256 \<Rightarrow> bool \<Rightarrow> ReplayProtector \<Rightarrow> service_call \<Rightarrow> bool \<times> ReplayProtector" where
  "service_step K chk = gated (service_check chk) (key_matches K) (proof_verifies K)"

definition service_time :: "service_call \<Rightarrow> int" where
  "service_time c = sint (call_now c)"

definition service_key :: "service_call \<Rightarrow> nonce_key \<times> int" where
  "service_key c = ((call_user c, nonce (call_proof c)), sint (timestamp (call_proof c)))"

lemma service_projections:
  "call_time (guard_call c) = service_time c"
  "(call_key (guard_call c), call_stamp (guard_call c)) = service_key c"
  by (simp_all add: guard_call_def call_defs service_time_def service_key_def)

interpretation svc: gated_guard "service_check chk"
  "\<lambda>c. call_time (guard_call c)" "\<lambda>c. call_key (guard_call c)" "\<lambda>c. call_stamp (guard_call c)"
  "\<lambda>rp. sint (max_drift_secs rp)" knows_nonce rp_invar
  "\<lambda>rp c. clock_in_range rp (fst (guard_call c))" "key_matches K" "proof_verifies K"
  for chk K
  by unfold_locales
    (simp_all add: rp.check_invar rp.check_window rp.check_clock rp.admit_fresh rp.admit_unknown
      rp.admit_records rp.check_keeps)

lemma service_successes_sound:
  assumes "rp_invar rp" "\<forall>c \<in> set cs. clock_in_range rp (call_now c)" "sorted (map service_time cs)"
  shows "distinct (map service_key (admitted (service_step K chk) rp cs)) \<and>
    (\<forall>c \<in> set (admitted (service_step K chk) rp cs). key_matches K c \<and> proof_verifies K c)"
  using svc.successes_sound [of rp cs chk K] assms
  unfolding service_step_def service_projections by (simp add: guard_call_def)

lemma service_burnt_key:
  assumes "rp_invar rp" "clock_in_range rp (call_now c)" "key_matches K c"
    and "fst (service_check chk rp c)"
    and "\<forall>d \<in> set cs. clock_in_range rp (call_now d)" "sorted (map service_time (c # cs))"
  shows "service_key c \<notin> service_key ` set (admitted (service_step K chk) (snd (service_step K chk rp c)) cs)"
  using svc.burnt_key [of rp c K chk cs] assms
  unfolding service_step_def service_projections by (simp add: guard_call_def)

end
