(* ===== verification/Codec.thy ===== *)
theory Codec
  imports Zkp_Core_Engine "HOL-Library.Sublist"
begin

text \<open>
  \<open>src/codec.rs\<close>: the length-delimited codec. The buffer (\<open>BytesMut\<close>) is a byte list; the
  \<open>reserve\<close> calls change its capacity only and have no counterpart. Serialization of the
  payload is the \<open>bincode\<close> parameter. \<open>put_frame\<close> and \<open>take_frame\<close> are the framing parts of
  \<open>encode\<close> and \<open>decode\<close>; the locale \<open>framing\<close> states their contract, from which the
  behaviour of the stream reader (repeated decoding of a growing buffer) follows.
\<close>

section \<open>The codec\<close>

definition MAX_FRAME_SIZE :: nat where
  "MAX_FRAME_SIZE = 64 * 1024"

record ZkpMessageCodec =
  max_frame_size :: nat

definition codec_new :: ZkpMessageCodec where
  "codec_new = \<lparr>max_frame_size = MAX_FRAME_SIZE\<rparr>"

definition with_max_frame_size :: "nat \<Rightarrow> ZkpMessageCodec" where
  "with_max_frame_size n = \<lparr>max_frame_size = n\<rparr>"

text \<open>\<open>put_u32(payload.len() as u32)\<close> and \<open>put_slice\<close>: the cast keeps the low 32 bits.\<close>

definition put_frame :: "bytes \<Rightarrow> bytes" where
  "put_frame payload = be_bytes 4 (unat (of_nat (length payload) :: 32 word)) @ payload"

definition encode ::
  "'a bincode \<Rightarrow> ZkpMessageCodec \<Rightarrow> 'a \<Rightarrow> bytes \<Rightarrow> (ZkpError, unit) result \<times> bytes" where
  "encode B codec item dst =
     (case bin_serialize B item of
        Inl e \<Rightarrow> (Inl (SerializationError (''Encoding failed: '' @ e)), dst)
      | Inr payload \<Rightarrow>
          if max_frame_size codec < length payload
          then (Inl (SerializationError
                 (''Message payload exceeds maximum frame size: '' @ show_nat (length payload)
                  @ '' > '' @ show_nat (max_frame_size codec))), dst)
          else (Inr (), dst @ put_frame payload))"

text \<open>
  What \<open>decode\<close> does before deserializing: wait for the header, refuse an oversized length,
  wait for the payload, split the frame off.
\<close>

datatype frame_status =
    NeedMore
  | TooLarge nat
  | Frame bytes bytes

definition take_frame :: "ZkpMessageCodec \<Rightarrow> bytes \<Rightarrow> frame_status" where
  "take_frame codec src =
     (if length src < 4 then NeedMore
      else let frame_len = from_be_bytes (take 4 src) in
        if max_frame_size codec < frame_len then TooLarge frame_len
        else if length src < 4 + frame_len then NeedMore
        else Frame (take frame_len (drop 4 src)) (drop frame_len (drop 4 src)))"

definition decode ::
  "'a bincode \<Rightarrow> ZkpMessageCodec \<Rightarrow> bytes \<Rightarrow> (ZkpError, 'a option) result \<times> bytes" where
  "decode B codec src =
     (case take_frame codec src of
        NeedMore \<Rightarrow> (Inr None, src)
      | TooLarge frame_len \<Rightarrow>
          (Inl (SerializationError
             (''Frame length exceeds allowed limit: '' @ show_nat frame_len
              @ '' > '' @ show_nat (max_frame_size codec))), src)
      | Frame payload rest \<Rightarrow>
          (case bin_deserialize B payload of
             Inl e \<Rightarrow> (Inl (SerializationError (''Decoding failed: '' @ e)), rest)
           | Inr item \<Rightarrow> (Inr (Some item), rest)))"

section \<open>The contract of framing\<close>

text \<open>
  Splitting a stream of frames: \<open>split_frame\<close> gives the first complete frame's payload and the
  rest. \<open>drain\<close> repeats it until no complete frame is left, as a stream reader does, and
  \<open>read_chunks\<close> feeds the reader one network read at a time.
\<close>

function drain :: "('b list \<Rightarrow> ('p \<times> 'b list) option) \<Rightarrow> 'b list \<Rightarrow> 'p list \<times> 'b list" where
  "drain split_frame buf =
     (case split_frame buf of
        None \<Rightarrow> ([], buf)
      | Some (p, rest) \<Rightarrow>
          if length rest < length buf
          then (let (ps, left) = drain split_frame rest in (p # ps, left))
          else ([], buf))"
  by pat_completeness auto
termination
  by (relation "measure (\<lambda>(f, buf). length buf)") auto

declare drain.simps [simp del]

fun read_chunks ::
  "('b list \<Rightarrow> ('p \<times> 'b list) option) \<Rightarrow> 'b list \<Rightarrow> 'b list list \<Rightarrow> 'p list \<times> 'b list" where
  "read_chunks split_frame buf [] = ([], buf)"
| "read_chunks split_frame buf (c # cs) =
     (let (ps, left) = drain split_frame (buf @ c);
          (qs, left') = read_chunks split_frame left cs
      in (ps @ qs, left'))"

locale framing =
  fixes frame :: "'p \<Rightarrow> 'b list"
    and split_frame :: "'b list \<Rightarrow> ('p \<times> 'b list) option"
    and frame_ok :: "'p \<Rightarrow> bool"
  assumes split_complete: "frame_ok p \<Longrightarrow> split_frame (frame p @ rest) = Some (p, rest)"
    and split_partial: "frame_ok p \<Longrightarrow> strict_prefix buf (frame p) \<Longrightarrow> split_frame buf = None"
    and frame_nonempty: "frame_ok p \<Longrightarrow> frame p \<noteq> []"
begin

lemma drain_frame:
  assumes "frame_ok p"
  shows "drain split_frame (frame p @ rest) =
    (p # fst (drain split_frame rest), snd (drain split_frame rest))"
  using split_complete [OF assms, of rest] frame_nonempty [OF assms]
  by (subst drain.simps) (simp add: split_beta Let_def)

lemma drain_partial:
  assumes "frame_ok p" "strict_prefix buf (frame p)"
  shows "drain split_frame buf = ([], buf)"
  using split_partial [OF assms] by (subst drain.simps) simp

text \<open>A buffer that holds complete frames and the beginning of another.\<close>

lemma drain_frames:
  assumes "\<forall>p \<in> set ps. frame_ok p" "frame_ok q" "strict_prefix tail (frame q)"
  shows "drain split_frame (concat (map frame ps) @ tail) = (ps, tail)"
  using assms by (induction ps) (simp_all add: drain_partial drain_frame)

text \<open>Any prefix of a stream of frames is complete frames and a partial one.\<close>

lemma stream_prefix:
  assumes "prefix buf (concat (map frame ps))" "buf \<noteq> concat (map frame ps)"
  obtains qs q rs tail where "ps = qs @ q # rs" "strict_prefix tail (frame q)"
    "buf = concat (map frame qs) @ tail"
  using assms
proof (induction ps arbitrary: buf thesis)
  case Nil
  then show ?case by simp
next
  case (Cons p ps)
  show ?case
  proof (cases "prefix (frame p) buf")
    case True
    then obtain buf' where buf: "buf = frame p @ buf'" by (auto simp: prefix_def)
    with Cons.prems(2,3) have "prefix buf' (concat (map frame ps))" "buf' \<noteq> concat (map frame ps)"
      by auto
    then obtain qs q rs tail where "ps = qs @ q # rs" "strict_prefix tail (frame q)"
      "buf' = concat (map frame qs) @ tail" by (rule Cons.IH [rotated])
    then show ?thesis by (intro Cons.prems(1) [of "p # qs" q rs tail]) (simp_all add: buf)
  next
    case False
    from Cons.prems(2) have "prefix buf (frame p @ concat (map frame ps))" by simp
    with False have "strict_prefix buf (frame p)"
      by (metis prefix_append prefix_order.le_neq_trans prefixI)
    then show ?thesis by (intro Cons.prems(1) [of "[]" p ps buf]) simp_all
  qed
qed

text \<open>However the stream is cut into reads, the same messages come out, in order.\<close>

lemma drain_stream:
  assumes ok: "\<forall>p \<in> set ps. frame_ok p" and buf: "buf @ rest = concat (map frame ps)"
  obtains qs rs tail where "ps = qs @ rs" "drain split_frame buf = (qs, tail)"
    "tail @ rest = concat (map frame rs)" "rest = [] \<longrightarrow> rs = []"
proof (cases "buf = concat (map frame ps)")
  case True
  have "drain split_frame [] = ([], [])"
  proof (cases ps)
    case Nil
    then show ?thesis by (subst drain.simps) (simp split: option.split)
  next
    case (Cons p _)
    with ok have "frame_ok p" by simp
    then show ?thesis
      using drain_partial [of p "[]"] frame_nonempty [of p] by (simp add: strict_prefix_def)
  qed
  then have "drain split_frame (concat (map frame ps)) = (ps, [])"
    using ok by (induction ps) (simp_all add: drain_frame)
  with True buf show thesis by (intro that [of ps "[]" "[]"]) simp_all
next
  case False
  have "prefix buf (concat (map frame ps))" using buf by (metis prefixI)
  then obtain qs q rs tail where ps: "ps = qs @ q # rs" and t: "strict_prefix tail (frame q)"
    and b: "buf = concat (map frame qs) @ tail" using False by (rule stream_prefix)
  have "drain split_frame buf = (qs, tail)"
    unfolding b by (rule drain_frames) (use ok ps t in auto)
  moreover have "tail @ rest = concat (map frame (q # rs))" using buf by (simp add: b ps)
  moreover have "rest \<noteq> []" using False buf by auto
  ultimately show thesis using ps by (intro that [of qs "q # rs" tail]) simp_all
qed

lemma read_chunks_stream:
  assumes "\<forall>p \<in> set ps. frame_ok p" "buf @ concat chunks = concat (map frame ps)" "chunks \<noteq> []"
  shows "read_chunks split_frame buf chunks = (ps, [])"
  using assms
proof (induction chunks arbitrary: buf ps)
  case Nil
  then show ?case by simp
next
  case (Cons c cs)
  have "(buf @ c) @ concat cs = concat (map frame ps)" using Cons.prems(2) by simp
  then obtain qs rs tail where ps: "ps = qs @ rs" and d: "drain split_frame (buf @ c) = (qs, tail)"
    and t: "tail @ concat cs = concat (map frame rs)" and e: "concat cs = [] \<longrightarrow> rs = []"
    by (rule drain_stream [OF Cons.prems(1)])
  show ?case
  proof (cases cs)
    case Nil
    with t d ps e show ?thesis by simp
  next
    case (Cons d' ds)
    then have "read_chunks split_frame tail cs = (rs, [])"
      using Cons.IH [of rs tail] Cons.prems(1) t ps by auto
    with d ps show ?thesis by simp
  qed
qed

end

section \<open>The codec provides the contract\<close>

text \<open>A payload fits when the encoder accepts it and its length is a \<open>u32\<close>.\<close>

definition fits :: "ZkpMessageCodec \<Rightarrow> bytes \<Rightarrow> bool" where
  "fits codec payload \<longleftrightarrow> length payload \<le> max_frame_size codec \<and> length payload < 2 ^ 32"

lemma put_frame_fits:
  "fits codec payload \<Longrightarrow> put_frame payload = be_bytes 4 (length payload) @ payload"
  by (simp add: put_frame_def fits_def unat_of_nat)

lemma length_put_frame [simp]: "length (put_frame payload) = 4 + length payload"
  by (simp add: put_frame_def)

lemma from_be_header: "n < 2 ^ 32 \<Longrightarrow> from_be_bytes (be_bytes 4 n) = n"
  by (simp add: from_be_be_bytes)

lemma take_frame_complete:
  assumes "fits codec payload"
  shows "take_frame codec (put_frame payload @ rest) = Frame payload rest"
proof -
  have "put_frame payload @ rest = be_bytes 4 (length payload) @ payload @ rest"
    by (simp add: put_frame_fits [OF assms])
  then show ?thesis using assms by (simp add: take_frame_def Let_def from_be_header fits_def)
qed

lemma take_frame_partial:
  assumes fits: "fits codec payload" and pre: "strict_prefix buf (put_frame payload)"
  shows "take_frame codec buf = NeedMore"
proof (cases "length buf < 4")
  case True
  then show ?thesis by (simp add: take_frame_def)
next
  case False
  from pre obtain tail where tail: "put_frame payload = buf @ tail" "tail \<noteq> []"
    by (auto simp: strict_prefix_def prefix_def)
  have len: "length buf < 4 + length payload"
    using arg_cong [OF tail(1), of length] tail(2) by (cases tail) auto
  have "take 4 buf = take 4 (put_frame payload)" using False tail(1) by simp
  then have "take 4 buf = be_bytes 4 (length payload)" by (simp add: put_frame_fits [OF fits])
  then show ?thesis using False len fits by (simp add: take_frame_def from_be_header fits_def)
qed

text \<open>Messages: a message is sendable when it serializes to a fitting payload that reads back.\<close>

definition sendable :: "'a bincode \<Rightarrow> ZkpMessageCodec \<Rightarrow> 'a \<Rightarrow> bool" where
  "sendable B codec x \<longleftrightarrow>
     (\<exists>payload. bin_serialize B x = Inr payload \<and> bin_deserialize B payload = Inr x \<and> fits codec payload)"

definition message_frame :: "'a bincode \<Rightarrow> ZkpMessageCodec \<Rightarrow> 'a \<Rightarrow> bytes" where
  "message_frame B codec x = snd (encode B codec x [])"

definition split_message :: "'a bincode \<Rightarrow> ZkpMessageCodec \<Rightarrow> bytes \<Rightarrow> ('a \<times> bytes) option" where
  "split_message B codec src =
     (case decode B codec src of (Inr (Some x), rest) \<Rightarrow> Some (x, rest) | _ \<Rightarrow> None)"

lemma sendableE:
  assumes "sendable B codec x"
  obtains payload where "bin_serialize B x = Inr payload" "bin_deserialize B payload = Inr x"
    "fits codec payload" "message_frame B codec x = put_frame payload"
  using assms by (auto simp: sendable_def message_frame_def encode_def fits_def)

lemma decode_complete:
  assumes "sendable B codec x"
  shows "decode B codec (message_frame B codec x @ rest) = (Inr (Some x), rest)"
  using assms by (auto elim!: sendableE simp: decode_def take_frame_complete)

lemma decode_partial:
  assumes "sendable B codec x" "strict_prefix buf (message_frame B codec x)"
  shows "decode B codec buf = (Inr None, buf)"
  using assms by (auto elim!: sendableE simp: decode_def take_frame_partial)

interpretation messages: framing "message_frame B codec" "split_message B codec" "sendable B codec"
  for B codec
proof (unfold_locales, goal_cases)
  case (1 p rest)
  then show ?case by (simp add: split_message_def decode_complete)
next
  case (2 p buf)
  then show ?case by (simp add: split_message_def decode_partial)
next
  case (3 p)
  then obtain payload where "message_frame B codec p = put_frame payload" by (rule sendableE)
  then have "length (message_frame B codec p) = 4 + length payload" by simp
  then show ?case by auto
qed

lemma encode_sendable:
  assumes "bincode_ok B" "encode B codec x dst = (Inr (), dst')" "max_frame_size codec < 2 ^ 32"
  shows "sendable B codec x" "dst' = dst @ message_frame B codec x"
  using assms
  by (auto simp: encode_def sendable_def bincode_ok_def message_frame_def fits_def
      split: sum.splits if_splits)

lemma read_one_message:
  assumes "bincode_ok B" "encode B codec_new x [] = (Inr (), f)" "concat chunks = f"
  shows "read_chunks (split_message B codec_new) [] chunks = ([x], [])"
proof -
  have s: "sendable B codec_new x" "f = message_frame B codec_new x"
    using encode_sendable [OF assms(1,2)] by (simp_all add: codec_new_def MAX_FRAME_SIZE_def)
  then have "chunks \<noteq> []" using messages.frame_nonempty [of B codec_new x] assms(3) by auto
  with s assms(3) show ?thesis by (intro messages.read_chunks_stream) simp_all
qed

section \<open>Properties\<close>

text \<open>A serializer for witnesses: a byte string is its own encoding.\<close>

definition raw_bincode :: "bytes bincode" where
  "raw_bincode = \<lparr>bin_serialize = Inr, bin_deserialize = Inr\<rparr>"

lemma raw_bincode_ok: "bincode_ok raw_bincode"
  by (simp add: bincode_ok_def raw_bincode_def)

lemma encode_raw:
  "length x \<le> max_frame_size codec \<Longrightarrow> encode raw_bincode codec x dst = (Inr (), dst @ put_frame x)"
  by (simp add: encode_def raw_bincode_def)

text \<open>C16: round trip. What \<open>encode\<close> appends to the buffer is one frame; a decoder whose input
  starts with it returns the message and leaves exactly the bytes after the frame.\<close>

theorem codec_roundtrip:
  assumes "bincode_ok B" "encode B codec x dst = (Inr (), dst')" "max_frame_size codec < 2 ^ 32"
  shows "\<exists>f. dst' = dst @ f \<and> (\<forall>rest. decode B codec (f @ rest) = (Inr (Some x), rest))"
  using encode_sendable [OF assms] by (intro exI [of _ "message_frame B codec x"]) (simp add: decode_complete)

theorem codec_roundtrip_witness:
  "\<exists>f. [9] @ put_frame [1, 2, 3] = [9] @ f \<and>
     (\<forall>rest. decode raw_bincode codec_new (f @ rest) = (Inr (Some [1, 2, 3]), rest))"
  by (rule codec_roundtrip [OF raw_bincode_ok encode_raw])
    (simp_all add: codec_new_def MAX_FRAME_SIZE_def)

text \<open>C17: partial data. A proper prefix of an encoded message decodes to \<open>Ok(None)\<close> with the
  buffer untouched: no error, no byte lost, whatever the cut.\<close>

theorem partial_frame_waits:
  assumes "bincode_ok B" "encode B codec x dst = (Inr (), dst @ f)" "max_frame_size codec < 2 ^ 32"
    and "strict_prefix buf f"
  shows "decode B codec buf = (Inr None, buf)"
  using encode_sendable [OF assms(1-3)] assms(4) decode_partial by auto

theorem partial_frame_waits_witness:
  "decode raw_bincode codec_new [0, 0, 0, 3, 1] = (Inr None, [0, 0, 0, 3, 1])"
proof (rule partial_frame_waits [OF raw_bincode_ok])
  show "encode raw_bincode codec_new [1, 2, 3] [] = (Inr (), [] @ put_frame [1, 2, 3])"
    by (rule encode_raw) (simp add: codec_new_def MAX_FRAME_SIZE_def)
  show "max_frame_size codec_new < 2 ^ 32" by (simp add: codec_new_def MAX_FRAME_SIZE_def)
  have "put_frame [1, 2, 3] = [0, 0, 0, 3, 1, 2, 3]" by (simp add: put_frame_def be_bytes_4)
  then show "strict_prefix [0, 0, 0, 3, 1] (put_frame [1, 2, 3])" by simp
qed

text \<open>C15: the stream reader. However the encoded bytes of a list of messages are cut into
  network reads, decoding after each read yields exactly the messages, in order, and leaves
  nothing in the buffer.\<close>

theorem stream_of_messages:
  assumes "\<forall>x \<in> set xs. sendable B codec x" "chunks \<noteq> []"
    and "concat chunks = concat (map (message_frame B codec) xs)"
  shows "read_chunks (split_message B codec) [] chunks = (xs, [])"
  using assms by (intro messages.read_chunks_stream) simp_all

theorem stream_of_messages_witness:
  "read_chunks (split_message raw_bincode codec_new) [] [[0, 0, 0], [1, 7, 0, 0, 0, 2], [8, 9]] =
     ([[7], [8, 9]], [])"
proof (rule stream_of_messages)
  show "\<forall>x \<in> set [[7], [8, 9]]. sendable raw_bincode codec_new x"
    by (simp add: sendable_def raw_bincode_def fits_def codec_new_def MAX_FRAME_SIZE_def)
  show "concat [[0, 0, 0], [1, 7, 0, 0, 0, 2], [8, 9]] =
      concat (map (message_frame raw_bincode codec_new) [[7], [8, 9]])"
    by (simp add: message_frame_def encode_raw codec_new_def MAX_FRAME_SIZE_def put_frame_def be_bytes_4)
qed simp

text \<open>C18: the size limit. \<open>encode\<close> refuses a payload above the limit and writes nothing;
  \<open>decode\<close> refuses a header above the limit at once, without waiting for the payload and
  without consuming it; and it asks for more data only while the buffer holds less than the
  header plus the limit, so an unbounded frame is never buffered.\<close>

theorem frame_size_limit:
  "(bin_serialize B x = Inr payload \<and> max_frame_size codec < length payload \<longrightarrow>
      (\<exists>m. encode B codec x dst = (Inl (SerializationError m), dst))) \<and>
   (4 \<le> length src \<and> max_frame_size codec < from_be_bytes (take 4 src) \<longrightarrow>
      (\<exists>m. decode B codec src = (Inl (SerializationError m), src))) \<and>
   (decode B codec src = (Inr None, src') \<longrightarrow>
      src' = src \<and> length src < 4 + max_frame_size codec)"
  by (auto simp: encode_def decode_def take_frame_def Let_def
      split: sum.splits if_splits frame_status.splits)

theorem frame_size_limit_witness:
  "\<exists>m. decode raw_bincode codec_new [255, 0, 0, 0] = (Inl (SerializationError m), [255, 0, 0, 0])"
  using frame_size_limit [where B = raw_bincode and codec = codec_new and src = "[255, 0, 0, 0]"]
  by (simp add: codec_new_def MAX_FRAME_SIZE_def from_be_bytes_def)

text \<open>Progress. Whenever \<open>decode\<close> returns a message or a decoding error of a complete frame,
  it has consumed exactly the header and the announced payload, so repeating it ends; in every
  other case the buffer is unchanged.\<close>

theorem decode_consumes:
  assumes "decode B codec src = (res, rest)"
  shows "rest = src \<and> (res = Inr None \<or> (\<exists>m. res = Inl (SerializationError m))) \<or>
    rest = drop (4 + from_be_bytes (take 4 src)) src \<and> length rest < length src \<and> res \<noteq> Inr None"
  using assms
  by (auto simp: decode_def take_frame_def Let_def add.commute
      split: sum.splits if_splits frame_status.splits)

theorem decode_consumes_witness:
  "[5] = drop (4 + from_be_bytes (take 4 [0, 0, 0, 1, 9, 5])) ([0, 0, 0, 1, 9, 5] :: bytes)"
proof -
  have "decode raw_bincode codec_new [0, 0, 0, 1, 9, 5] = (Inr (Some [9]), [5])"
    by (simp add: decode_def take_frame_def from_be_bytes_def raw_bincode_def codec_new_def
        MAX_FRAME_SIZE_def)
  from decode_consumes [OF this] show ?thesis by simp
qed

text \<open>The cast of the length. A codec configured with a limit above \<open>u32::MAX\<close> writes a frame
  that cannot be read back when the payload is that long: the header holds the length modulo
  \<open>2 ^ 32\<close>, and the decoder takes a truncated payload and leaves the rest of the message in the
  buffer as if it were the next frame.\<close>

theorem oversized_length_truncated:
  assumes ser: "bin_serialize B x = Inr payload" and big: "2 ^ 32 \<le> length payload"
    and lim: "length payload \<le> max_frame_size codec"
  shows "encode B codec x [] = (Inr (), put_frame payload) \<and>
    take_frame codec (put_frame payload) =
      Frame (take (length payload mod 2 ^ 32) payload) (drop (length payload mod 2 ^ 32) payload) \<and>
    drop (length payload mod 2 ^ 32) payload \<noteq> []"
proof -
  have lt: "length payload mod 2 ^ 32 < length payload"
    using big by (intro less_le_trans [OF mod_less_divisor]) simp_all
  have "from_be_bytes (take 4 (put_frame payload)) = length payload mod 2 ^ 32"
    by (simp add: put_frame_def unat_of_nat from_be_be_bytes)
  then show ?thesis
    using ser lim lt by (simp add: encode_def take_frame_def Let_def) (simp add: put_frame_def)
qed

theorem oversized_length_truncated_witness:
  "encode raw_bincode (with_max_frame_size (2 ^ 33)) (replicate (2 ^ 32) 0) [] =
     (Inr (), put_frame (replicate (2 ^ 32) 0))"
proof -
  have "bin_serialize raw_bincode (replicate (2 ^ 32) 0) = Inr (replicate (2 ^ 32) 0)"
    by (simp add: raw_bincode_def)
  from oversized_length_truncated [OF this, of "with_max_frame_size (2 ^ 33)"] show ?thesis
    by (simp only: length_replicate with_max_frame_size_def ZkpMessageCodec.select_convs)
      simp
qed

end
