(* ===== verification/Wire_Instance.thy ===== *)
theory Wire_Instance
  imports Protocol
begin

text \<open>
  A concrete serializer for the witnesses, with the documented layout of \<open>bincode\<close> 1: fields in
  order, integers of fixed width in little-endian order, a sequence or string as its 64-bit
  length and its bytes, a fixed array as its bytes; \<open>deserialize\<close> accepts trailing bytes.
  It shows that the hypotheses on the serializers can hold on every message: \<open>reads enc dec ok\<close>
  is the law of one field, and the record serializers are compositions of fields.
\<close>

type_synonym 'a reader = "bytes \<Rightarrow> ('a \<times> bytes) option"

definition reads :: "('a \<Rightarrow> bytes) \<Rightarrow> 'a reader \<Rightarrow> ('a \<Rightarrow> bool) \<Rightarrow> bool" where
  "reads enc dec ok \<longleftrightarrow> (\<forall>x rest. ok x \<longrightarrow> dec (enc x @ rest) = Some (x, rest))"

lemma readsD: "reads enc dec ok \<Longrightarrow> ok x \<Longrightarrow> dec (enc x @ rest) = Some (x, rest)"
  by (simp add: reads_def)

section \<open>Fields\<close>

definition read_n :: "nat \<Rightarrow> bytes reader" where
  "read_n n bs = (if length bs < n then None else Some (take n bs, drop n bs))"

definition write_u64 :: "nat \<Rightarrow> bytes" where
  "write_u64 n = rev (be_bytes 8 n)"

definition read_u64 :: "nat reader" where
  "read_u64 bs = map_option (\<lambda>(w, rest). (from_be_bytes (rev w), rest)) (read_n 8 bs)"

definition write_bytes :: "bytes \<Rightarrow> bytes" where
  "write_bytes xs = write_u64 (length xs) @ xs"

definition read_bytes :: "bytes reader" where
  "read_bytes bs = (case read_u64 bs of None \<Rightarrow> None | Some (n, rest) \<Rightarrow> read_n n rest)"

definition write_string :: "string \<Rightarrow> bytes" where
  "write_string s = write_bytes (str_bytes s)"

definition read_string :: "string reader" where
  "read_string bs = map_option (\<lambda>(xs, rest). (map (\<lambda>b. char_of (unat b)) xs, rest)) (read_bytes bs)"

definition write_i64 :: "i64 \<Rightarrow> bytes" where
  "write_i64 x = rev (i64_to_be_bytes x)"

definition read_i64 :: "i64 reader" where
  "read_i64 bs = map_option (\<lambda>(w, rest). (of_nat (from_be_bytes (rev w)), rest)) (read_n 8 bs)"

definition write_bool :: "bool \<Rightarrow> bytes" where
  "write_bool b = [if b then 1 else 0]"

definition read_bool :: "bool reader" where
  "read_bool bs = (case bs of [] \<Rightarrow> None | b # rest \<Rightarrow>
     if b = 0 then Some (False, rest) else if b = 1 then Some (True, rest) else None)"

abbreviation short :: "'a list \<Rightarrow> bool" where
  "short xs \<equiv> length xs < 256 ^ 8"

lemma read_n_append: "length xs = n \<Longrightarrow> read_n n (xs @ rest) = Some (xs, rest)"
  by (simp add: read_n_def)

lemma reads_u64: "n < 256 ^ 8 \<Longrightarrow> read_u64 (write_u64 n @ rest) = Some (n, rest)"
  by (simp add: read_u64_def write_u64_def read_n_append from_be_be_bytes)

lemma reads_bytes: "reads write_bytes read_bytes short"
  unfolding reads_def
  by (simp add: read_bytes_def write_bytes_def reads_u64 read_n_append)

lemma byte_char: "char_of (unat (of_nat (of_char c) :: byte)) = c"
proof -
  have "of_char c < (256 :: nat)" by simp
  then have "unat (of_nat (of_char c) :: byte) = of_char c"
    by (simp add: unat_of_nat take_bit_eq_mod)
  then show ?thesis by simp
qed

lemma reads_string: "reads write_string read_string short"
  unfolding reads_def
  by (simp add: read_string_def write_string_def readsD [OF reads_bytes] str_bytes_def comp_def byte_char)

lemma i64_mod: "of_nat (unat (x :: i64) mod 18446744073709551616) = x"
proof -
  have "unat x < 18446744073709551616" using unsigned_less [of x] by simp
  then show ?thesis by simp
qed

lemma reads_i64: "reads write_i64 read_i64 (\<lambda>_. True)"
  unfolding reads_def
  by (simp add: read_i64_def write_i64_def read_n_append i64_to_be_bytes_def from_be_be_bytes i64_mod)

lemma reads_bool: "reads write_bool read_bool (\<lambda>_. True)"
  unfolding reads_def by (simp add: write_bool_def read_bool_def)

lemma reads_fixed: "reads id (read_n n) (\<lambda>xs. length xs = n)"
  unfolding reads_def by (simp add: read_n_append)

lemmas fields = readsD [OF reads_bytes] readsD [OF reads_string] readsD [OF reads_i64, simplified]
  readsD [OF reads_bool, simplified] read_n_append

section \<open>Messages\<close>

definition write_proof :: "Proof \<Rightarrow> bytes" where
  "write_proof p = write_bytes (r_point p) @ write_bytes (s_scalar p) @ write_i64 (timestamp p) @ nonce p"

definition read_proof :: "Proof reader" where
  "read_proof bs =
     Option.bind (read_bytes bs) (\<lambda>(r, bs).
       Option.bind (read_bytes bs) (\<lambda>(s, bs).
         Option.bind (read_i64 bs) (\<lambda>(ts, bs).
           Option.bind (read_n 16 bs) (\<lambda>(nc, bs).
             Some (\<lparr>r_point = r, s_scalar = s, timestamp = ts, nonce = nc\<rparr>, bs)))))"

definition proof_short :: "Proof \<Rightarrow> bool" where
  "proof_short p \<longleftrightarrow> short (r_point p) \<and> short (s_scalar p) \<and> proof_wf p"

lemma reads_proof: "reads write_proof read_proof proof_short"
  unfolding reads_def by (simp add: write_proof_def read_proof_def proof_short_def proof_wf_def fields)

definition write_auth_request :: "AuthRequest \<Rightarrow> bytes" where
  "write_auth_request r =
     write_string (req_user_id r) @ write_bytes (req_public_key r) @ write_proof (req_proof r)"

definition read_auth_request :: "AuthRequest reader" where
  "read_auth_request bs =
     Option.bind (read_string bs) (\<lambda>(u, bs).
       Option.bind (read_bytes bs) (\<lambda>(pk, bs).
         Option.bind (read_proof bs) (\<lambda>(p, bs).
           Some (\<lparr>req_user_id = u, req_public_key = pk, req_proof = p\<rparr>, bs))))"

definition auth_request_short :: "AuthRequest \<Rightarrow> bool" where
  "auth_request_short r \<longleftrightarrow> short (req_user_id r) \<and> short (req_public_key r) \<and> proof_short (req_proof r)"

lemma reads_auth_request: "reads write_auth_request read_auth_request auth_request_short"
  unfolding reads_def
  by (simp add: write_auth_request_def read_auth_request_def auth_request_short_def fields
      readsD [OF reads_proof])

definition write_auth_response :: "AuthResponse \<Rightarrow> bytes" where
  "write_auth_response r =
     write_string (res_user_id r) @ write_bool (res_success r) @ write_string (res_message r)"

definition read_auth_response :: "AuthResponse reader" where
  "read_auth_response bs =
     Option.bind (read_string bs) (\<lambda>(u, bs).
       Option.bind (read_bool bs) (\<lambda>(b, bs).
         Option.bind (read_string bs) (\<lambda>(m, bs).
           Some (\<lparr>res_user_id = u, res_success = b, res_message = m\<rparr>, bs))))"

definition auth_response_short :: "AuthResponse \<Rightarrow> bool" where
  "auth_response_short r \<longleftrightarrow> short (res_user_id r) \<and> short (res_message r)"

lemma reads_auth_response: "reads write_auth_response read_auth_response auth_response_short"
  unfolding reads_def
  by (simp add: write_auth_response_def read_auth_response_def auth_response_short_def fields)

definition write_kafka_request :: "KafkaAuthRequest \<Rightarrow> bytes" where
  "write_kafka_request r =
     write_string (kreq_request_id r) @ write_string (kreq_user_id r) @
     write_bytes (kreq_public_key r) @ write_proof (kreq_proof r) @ write_i64 (kreq_timestamp r)"

definition read_kafka_request :: "KafkaAuthRequest reader" where
  "read_kafka_request bs =
     Option.bind (read_string bs) (\<lambda>(i, bs).
       Option.bind (read_string bs) (\<lambda>(u, bs).
         Option.bind (read_bytes bs) (\<lambda>(pk, bs).
           Option.bind (read_proof bs) (\<lambda>(p, bs).
             Option.bind (read_i64 bs) (\<lambda>(ts, bs).
               Some (\<lparr>kreq_request_id = i, kreq_user_id = u, kreq_public_key = pk, kreq_proof = p,
                      kreq_timestamp = ts\<rparr>, bs))))))"

definition kafka_request_short :: "KafkaAuthRequest \<Rightarrow> bool" where
  "kafka_request_short r \<longleftrightarrow> short (kreq_request_id r) \<and> short (kreq_user_id r) \<and>
     short (kreq_public_key r) \<and> proof_short (kreq_proof r)"

lemma reads_kafka_request: "reads write_kafka_request read_kafka_request kafka_request_short"
  unfolding reads_def
  by (simp add: write_kafka_request_def read_kafka_request_def kafka_request_short_def fields
      readsD [OF reads_proof])

definition write_kafka_response :: "KafkaAuthResponse \<Rightarrow> bytes" where
  "write_kafka_response r =
     write_string (kres_request_id r) @ write_string (kres_user_id r) @ write_bool (kres_success r) @
     write_string (kres_message r) @ write_i64 (kres_timestamp r)"

definition read_kafka_response :: "KafkaAuthResponse reader" where
  "read_kafka_response bs =
     Option.bind (read_string bs) (\<lambda>(i, bs).
       Option.bind (read_string bs) (\<lambda>(u, bs).
         Option.bind (read_bool bs) (\<lambda>(b, bs).
           Option.bind (read_string bs) (\<lambda>(m, bs).
             Option.bind (read_i64 bs) (\<lambda>(ts, bs).
               Some (\<lparr>kres_request_id = i, kres_user_id = u, kres_success = b, kres_message = m,
                      kres_timestamp = ts\<rparr>, bs))))))"

definition kafka_response_short :: "KafkaAuthResponse \<Rightarrow> bool" where
  "kafka_response_short r \<longleftrightarrow>
     short (kres_request_id r) \<and> short (kres_user_id r) \<and> short (kres_message r)"

lemma reads_kafka_response: "reads write_kafka_response read_kafka_response kafka_response_short"
  unfolding reads_def
  by (simp add: write_kafka_response_def read_kafka_response_def kafka_response_short_def fields)

section \<open>The serializers\<close>

definition serialize_with :: "('a \<Rightarrow> bytes) \<Rightarrow> ('a \<Rightarrow> bool) \<Rightarrow> 'a \<Rightarrow> (string, bytes) result" where
  "serialize_with enc ok x = (if ok x then Inr (enc x) else Inl ''the size limit has been reached'')"

definition deserialize_with :: "'a reader \<Rightarrow> bytes \<Rightarrow> (string, 'a) result" where
  "deserialize_with dec bs =
     (case dec bs of Some (x, rest) \<Rightarrow> Inr x | None \<Rightarrow> Inl ''unexpected end of file'')"

definition wire_bincode :: "('a \<Rightarrow> bytes) \<Rightarrow> 'a reader \<Rightarrow> ('a \<Rightarrow> bool) \<Rightarrow> 'a bincode" where
  "wire_bincode enc dec ok =
     \<lparr>bin_serialize = serialize_with enc ok, bin_deserialize = deserialize_with dec\<rparr>"

definition wire_json :: "('a \<Rightarrow> bytes) \<Rightarrow> 'a reader \<Rightarrow> ('a \<Rightarrow> bool) \<Rightarrow> 'a serde_json" where
  "wire_json enc dec ok =
     \<lparr>json_to_vec = serialize_with enc ok, json_from_slice = deserialize_with dec\<rparr>"

lemma deserialize_serialize:
  "reads enc dec ok \<Longrightarrow> serialize_with enc ok x = Inr bs \<Longrightarrow> deserialize_with dec bs = Inr x"
  using readsD [of enc dec ok x "[]"] by (auto simp: serialize_with_def deserialize_with_def split: if_splits)

definition request_bincode :: "AuthRequest bincode" where
  "request_bincode = wire_bincode write_auth_request read_auth_request auth_request_short"

definition response_bincode :: "AuthResponse bincode" where
  "response_bincode = wire_bincode write_auth_response read_auth_response auth_response_short"

definition kafka_request_bincode :: "KafkaAuthRequest bincode" where
  "kafka_request_bincode = wire_bincode write_kafka_request read_kafka_request kafka_request_short"

definition kafka_request_json :: "KafkaAuthRequest serde_json" where
  "kafka_request_json = wire_json write_kafka_request read_kafka_request kafka_request_short"

definition kafka_response_json :: "KafkaAuthResponse serde_json" where
  "kafka_response_json = wire_json write_kafka_response read_kafka_response kafka_response_short"

lemma wire_bincode_ok: "reads enc dec ok \<Longrightarrow> bincode_ok (wire_bincode enc dec ok)"
  by (auto simp: bincode_ok_def wire_bincode_def deserialize_serialize)

lemma wire_json_ok: "reads enc dec ok \<Longrightarrow> json_ok (wire_json enc dec ok)"
  by (auto simp: json_ok_def wire_json_def deserialize_serialize)

lemma wire_serializers_ok:
  "bincode_ok request_bincode" "bincode_ok response_bincode" "bincode_ok kafka_request_bincode"
  "json_ok kafka_request_json" "json_ok kafka_response_json"
  unfolding request_bincode_def response_bincode_def kafka_request_bincode_def kafka_request_json_def
    kafka_response_json_def
  by (intro wire_bincode_ok wire_json_ok reads_auth_request reads_auth_response reads_kafka_request
      reads_kafka_response)+

end
