(* ===== verification/Tcp_Server.thy ===== *)
theory Tcp_Server
  imports Service Codec Wire_Instance
begin

text \<open>
  \<open>src/tcp/server.rs\<close>: the bank server. \<open>lookup_stage\<close>, the replay check and \<open>verify_stage\<close> are
  the numbered steps of \<open>handle_connection\<close>; \<open>handle_request\<close> composes them for one request,
  \<open>handle_connection\<close> is the loop over the messages of one connection, \<open>server_run\<close> the
  select loop that accepts connections until shutdown.

  The socket is external: what the framed stream yields and whether each write succeeds is
  given per message by a \<open>conn_event\<close>, together with the clock and the state of the registry
  at that moment (other connections and other processes can change it).
\<close>

section \<open>The server object\<close>

record BankServer =
  srv_local_addr :: string
  srv_registry :: UserRegistry
  srv_replay_protector :: ReplayProtector

text \<open>\<open>bind\<close>: the listener's address, or the error of binding it; the default registry is in
  memory, and failing to make it is a panic (\<open>expect\<close>).\<close>

definition bind_server ::
  "(string, string) result \<Rightarrow> string option \<Rightarrow> (string, BankServer) result run" where
  "bind_server bound dberr =
     (case bound of
        Inl e \<Rightarrow> Ret (Inl e)
      | Inr addr \<Rightarrow>
          (case in_memory dberr of
             Inl _ \<Rightarrow> Panic ''Failed to init default registry''
           | Inr reg \<Rightarrow> Ret (Inr \<lparr>srv_local_addr = addr, srv_registry = reg,
                                 srv_replay_protector = ReplayProtector_default\<rparr>)))"

definition with_registry :: "BankServer \<Rightarrow> UserRegistry \<Rightarrow> BankServer" where
  "with_registry srv reg = srv\<lparr>srv_registry := reg\<rparr>"

definition with_replay_protector :: "BankServer \<Rightarrow> ReplayProtector \<Rightarrow> BankServer" where
  "with_replay_protector srv rp = srv\<lparr>srv_replay_protector := rp\<rparr>"

section \<open>One request\<close>

definition response :: "AuthRequest \<Rightarrow> bool \<Rightarrow> string \<Rightarrow> AuthResponse" where
  "response req success message =
     \<lparr>res_user_id = req_user_id req, res_success = success, res_message = message\<rparr>"

text \<open>Steps 1 and 2: the registered key, and the comparison with the key of the request.\<close>

definition lookup_stage ::
  "('pt, 'sc, 'enc) k256 \<Rightarrow> string option \<Rightarrow> UserRegistry \<Rightarrow> AuthRequest \<Rightarrow>
   (AuthResponse, 'pt UserPublicKey) result" where
  "lookup_stage K dberr reg req =
     (case get_public_key K dberr reg (req_user_id req) of
        Inr (Some registered_pk) \<Rightarrow>
          if req_public_key req \<noteq> pk_to_bytes K registered_pk
          then Inl (response req False
                 ''Authentication failed: Public key does not match bank records'')
          else Inr registered_pk
      | Inr None \<Rightarrow>
          Inl (response req False
            (''Authentication failed: User '' @ squote (req_user_id req)
              @ '' is not registered with bank''))
      | Inl e \<Rightarrow>
          Inl (response req False (''Storage lookup error: '' @ StorageError_display e)))"

text \<open>Step 3: the response to a refused replay check.\<close>

definition replay_rejection :: "AuthRequest \<Rightarrow> ReplayError \<Rightarrow> AuthResponse" where
  "replay_rejection req e = response req False (''Security rejection: '' @ ReplayError_display e)"

text \<open>Step 4: the response to what \<open>verify\<close> returned.\<close>

definition verify_stage :: "AuthRequest \<Rightarrow> (ZkpError, bool) result \<Rightarrow> AuthResponse" where
  "verify_stage req res =
     (case res of
        Inr True \<Rightarrow> response req True
          (''Identity verified successfully for user '' @ squote (req_user_id req) @ ''.'')
      | Inr False \<Rightarrow> response req False
          ''Verification failed: Mathematical proof check did not match public key.''
      | Inl e \<Rightarrow> response req False (''Cryptographic verification error: '' @ ZkpError_display e))"

definition handle_request ::
  "('pt, 'sc, 'enc) k256 \<Rightarrow> bool \<Rightarrow> i64 \<Rightarrow> string option \<Rightarrow> UserRegistry \<Rightarrow> ReplayProtector \<Rightarrow>
   AuthRequest \<Rightarrow> AuthResponse run \<times> ReplayProtector" where
  "handle_request K chk now dberr reg rp req =
     (case lookup_stage K dberr reg req of
        Inl resp \<Rightarrow> (Ret resp, rp)
      | Inr registered_pk \<Rightarrow>
          (case check_and_record chk now rp (req_user_id req) (req_proof req) of
             (Panic m, rp') \<Rightarrow> (Panic m, rp')
           | (Ret (Inl replay_err), rp') \<Rightarrow> (Ret (replay_rejection req replay_err), rp')
           | (Ret (Inr _), rp') \<Rightarrow>
               (run_bind (verify K (public_point registered_pk) (req_proof req))
                  (\<lambda>res. Ret (verify_stage req res)), rp')))"

section \<open>One connection\<close>

record conn_event =
  ev_message :: "(ZkpError, AuthRequest) result"
  ev_now :: i64
  ev_dberr :: "string option"
  ev_registry :: UserRegistry
  ev_send :: "ZkpError option"

definition malformed_response :: "ZkpError \<Rightarrow> AuthResponse" where
  "malformed_response e =
     \<lparr>res_user_id = ''unknown'', res_success = False,
      res_message = ''Malformed packet: '' @ ZkpError_display e\<rparr>"

text \<open>\<open>framed.send\<close>: the codec encodes the response into the empty write buffer, and the buffer is
  flushed to the socket. An error of the codec comes before the socket is touched.\<close>

definition send_response :: "AuthResponse bincode \<Rightarrow> conn_event \<Rightarrow> AuthResponse \<Rightarrow> (ZkpError, unit) result" where
  "send_response B ev resp =
     (case fst (encode B codec_new resp []) of
        Inl e \<Rightarrow> Inl e
      | Inr _ \<Rightarrow> (case ev_send ev of Some e \<Rightarrow> Inl e | None \<Rightarrow> Inr ()))"

text \<open>
  The loop: the responses whose send succeeded, how the task ended (\<open>Ok\<close> when the stream ends,
  the codec's or the socket's error, or a panic), and the protector afterwards.
\<close>

fun handle_connection ::
  "('pt, 'sc, 'enc) k256 \<Rightarrow> AuthResponse bincode \<Rightarrow> bool \<Rightarrow> ReplayProtector \<Rightarrow> conn_event list \<Rightarrow>
   AuthResponse list \<times> (ZkpError, unit) result run \<times> ReplayProtector" where
  "handle_connection K B chk rp [] = ([], Ret (Inr ()), rp)"
| "handle_connection K B chk rp (ev # evs) =
     (case ev_message ev of
        Inl e \<Rightarrow>
          (case send_response B ev (malformed_response e) of
             Inl _ \<Rightarrow> ([], Ret (Inl e), rp)
           | Inr _ \<Rightarrow> ([malformed_response e], Ret (Inl e), rp))
      | Inr req \<Rightarrow>
          (case handle_request K chk (ev_now ev) (ev_dberr ev) (ev_registry ev) rp req of
             (Panic m, rp') \<Rightarrow> ([], Panic m, rp')
           | (Ret resp, rp') \<Rightarrow>
               (case send_response B ev resp of
                  Inl e \<Rightarrow> ([], Ret (Inl e), rp')
                | Inr _ \<Rightarrow>
                    (let (sent, res, rp'') = handle_connection K B chk rp' evs
                     in (resp # sent, res, rp'')))))"

section \<open>The accept loop\<close>

text \<open>What \<open>select!\<close> yields: a change of the shutdown flag (with the value then read), a
  connection, or a failed accept. The result: the connections spawned, and whether the loop
  was stopped.\<close>

datatype 'conn server_event = ShutdownChanged bool | Accepted 'conn | AcceptFailed string

fun server_run :: "'conn server_event list \<Rightarrow> 'conn list \<times> bool" where
  "server_run [] = ([], False)"
| "server_run (ShutdownChanged b # es) = (if b then ([], True) else server_run es)"
| "server_run (Accepted c # es) = (let (cs, stopped) = server_run es in (c # cs, stopped))"
| "server_run (AcceptFailed e # es) = server_run es"

section \<open>The handler is the gated service\<close>

definition tcp_call :: "i64 \<Rightarrow> string option \<Rightarrow> UserRegistry \<Rightarrow> AuthRequest \<Rightarrow> service_call" where
  "tcp_call now dberr reg req =
     \<lparr>call_now = now, call_dberr = dberr, call_registry = reg, call_user = req_user_id req,
      call_pk = req_public_key req, call_proof = req_proof req\<rparr>"

lemma tcp_call_simps [simp]:
  "call_now (tcp_call now dberr reg req) = now" "call_dberr (tcp_call now dberr reg req) = dberr"
  "call_registry (tcp_call now dberr reg req) = reg"
  "call_user (tcp_call now dberr reg req) = req_user_id req"
  "call_pk (tcp_call now dberr reg req) = req_public_key req"
  "call_proof (tcp_call now dberr reg req) = req_proof req"
  by (simp_all add: tcp_call_def)

definition granted :: "AuthResponse run \<Rightarrow> bool" where
  "granted r \<longleftrightarrow> (case r of Panic _ \<Rightarrow> False | Ret resp \<Rightarrow> res_success resp)"

lemma granted_simps [simp]: "\<not> granted (Panic m)" "granted (Ret resp) = res_success resp"
  by (simp_all add: granted_def)

lemma granted_iff: "granted r \<longleftrightarrow> (\<exists>resp. r = Ret resp \<and> res_success resp)"
  by (cases r) simp_all

lemma res_success_simps [simp]:
  "\<not> res_success (replay_rejection req e)" "\<not> res_success (malformed_response ze)"
  "res_success (verify_stage req r) \<longleftrightarrow> r = Inr True" "res_success (response req b m) = b"
  by (auto simp: replay_rejection_def malformed_response_def verify_stage_def response_def
      split: sum.splits bool.splits)

lemma lookup_stage_Inr:
  "lookup_stage K dberr reg req = Inr pk \<longleftrightarrow>
     get_public_key K dberr reg (req_user_id req) = Inr (Some pk) \<and>
     req_public_key req = pk_to_bytes K pk"
  by (auto simp: lookup_stage_def split: sum.splits option.splits)

lemma lookup_stage_Inl: "lookup_stage K dberr reg req = Inl resp \<Longrightarrow> \<not> res_success resp"
  by (auto simp: lookup_stage_def split: sum.splits option.splits if_splits)

lemma key_matches_tcp:
  "key_matches K (tcp_call now dberr reg req) \<longleftrightarrow> (\<exists>pk. lookup_stage K dberr reg req = Inr pk)"
  by (auto simp: key_matches_def lookup_stage_Inr split: sum.splits option.splits)

lemma granted_verify [simp]:
  "granted (run_bind (verify K pk p) (\<lambda>res. Ret (verify_stage req res))) \<longleftrightarrow>
     verify K pk p = Ret (Inr True)"
  by (cases "verify K pk p") simp_all

lemma handle_request_service:
  "(granted (fst (handle_request K chk now dberr reg rp req)),
    snd (handle_request K chk now dberr reg rp req)) =
   service_step K chk rp (tcp_call now dberr reg req)"
proof (cases "lookup_stage K dberr reg req")
  case (Inl resp)
  then have "\<not> key_matches K (tcp_call now dberr reg req)" by (simp add: key_matches_tcp)
  then show ?thesis
    using Inl lookup_stage_Inl [OF Inl]
    by (simp add: handle_request_def service_step_def gated_def)
next
  case (Inr pk)
  then have km: "key_matches K (tcp_call now dberr reg req)" by (simp add: key_matches_tcp)
  have pv: "proof_verifies K (tcp_call now dberr reg req) \<longleftrightarrow>
      verify K (public_point pk) (req_proof req) = Ret (Inr True)"
    using Inr by (simp add: proof_verifies_def lookup_stage_Inr)
  obtain r rp' where cr: "check_and_record chk now rp (req_user_id req) (req_proof req) = (r, rp')"
    by (cases "check_and_record chk now rp (req_user_id req) (req_proof req)")
  show ?thesis
    using Inr km pv cr
    by (cases r; cases "\<exists>e. r = Ret (Inl e)")
      (auto simp: handle_request_def service_step_def gated_def guard_call_def rp_step_def
        split: sum.splits)
qed

section \<open>Properties of one request\<close>

text \<open>A registry with one user and a request, for the witnesses.\<close>

definition alice_registry :: UserRegistry where
  "alice_registry = \<lparr>user_rows = [(''alice'', (gf2_point True, 0))]\<rparr>"

definition alice_request :: "Proof \<Rightarrow> AuthRequest" where
  "alice_request p = \<lparr>req_user_id = ''alice'', req_public_key = gf2_point True, req_proof = p\<rparr>"

lemma alice_request_simps [simp]:
  "req_user_id (alice_request p) = ''alice''" "req_public_key (alice_request p) = gf2_point True"
  "req_proof (alice_request p) = p"
  by (simp_all add: alice_request_def)

lemma alice_key [simp]: "get_public_key gf2 None alice_registry ''alice'' = Inr (Some gf2_pk)"
  by (simp add: get_public_key_def alice_registry_def pk_from_bytes_def gf2_pk_def)

lemma gf2_pk_bytes [simp]: "pk_to_bytes gf2 gf2_pk = gf2_point True"
  by (simp add: pk_to_bytes_def gf2_pk_def)

lemma alice_lookup [simp]: "lookup_stage gf2 None alice_registry (alice_request p) = Inr gf2_pk"
  by (simp add: lookup_stage_Inr)

lemma alice_admitted:
  "nonce p = nc \<Longrightarrow> timestamp p = 0 \<Longrightarrow>
   check_and_record chk 0 ReplayProtector_default ''alice'' p =
     (Ret (Inr ()), ReplayProtector_default\<lparr>seen_nonces := [((''alice'', nc), 0)]\<rparr>)"
  by (simp add: check_and_record_def check_freshness_def record_nonce_def i64_sub_def i64_neg_def
      retain_recent_def ReplayProtector_default_def ReplayProtector_new_def
      DEFAULT_MAX_DRIFT_SECS_def Let_def)

text \<open>C5: what a success means. The server answers \<open>success: true\<close> exactly when the user has a
  stored key that decodes, the request carries that key's bytes, the replay protector admits
  user, nonce and timestamp, and the proof verifies under the stored key. No other path of
  the handler leads to success.\<close>

theorem tcp_success_iff:
  "(\<exists>resp. fst (handle_request K chk now dberr reg rp req) = Ret resp \<and> res_success resp) \<longleftrightarrow>
   (\<exists>pk. get_public_key K dberr reg (req_user_id req) = Inr (Some pk) \<and>
      req_public_key req = pk_to_bytes K pk \<and>
      fst (check_and_record chk now rp (req_user_id req) (req_proof req)) = Ret (Inr ()) \<and>
      verify K (public_point pk) (req_proof req) = Ret (Inr True))"
proof -
  let ?h = "handle_request K chk now dberr reg rp req" and ?c = "tcp_call now dberr reg req"
  have "(\<exists>resp. fst ?h = Ret resp \<and> res_success resp) \<longleftrightarrow> granted (fst ?h)"
    by (auto simp: granted_def split: run.splits)
  also have "\<dots> \<longleftrightarrow> fst (service_step K chk rp ?c)"
    using handle_request_service [of K chk now dberr reg rp req] by (metis fst_conv)
  also have "\<dots> \<longleftrightarrow> key_matches K ?c \<and> proof_verifies K ?c \<and>
      fst (check_and_record chk now rp (req_user_id req) (req_proof req)) = Ret (Inr ())"
    by (auto simp: service_step_def gated_def guard_call_def rp_step_def)
  finally show ?thesis
    by (auto simp: key_matches_def proof_verifies_def split: sum.splits option.splits)
qed

lemma res_user_simps [simp]:
  "res_user_id (replay_rejection req e) = req_user_id req"
  "res_user_id (verify_stage req r) = req_user_id req" "res_user_id (response req b m) = req_user_id req"
  by (auto simp: replay_rejection_def verify_stage_def response_def split: sum.splits bool.splits)

lemma lookup_stage_user: "lookup_stage K dberr reg req = Inl resp \<Longrightarrow> res_user_id resp = req_user_id req"
  by (auto simp: lookup_stage_def split: sum.splits option.splits if_splits)

lemma handle_request_lookup_Inl:
  "lookup_stage K dberr reg req = Inl resp \<Longrightarrow> handle_request K chk now dberr reg rp req = (Ret resp, rp)"
  by (simp add: handle_request_def)

lemma handle_request_user:
  assumes "fst (handle_request K chk now dberr reg rp req) = Ret resp"
  shows "res_user_id resp = req_user_id req"
proof (cases "lookup_stage K dberr reg req")
  case (Inl r)
  with assms show ?thesis by (simp add: handle_request_def lookup_stage_user)
next
  case (Inr pk)
  obtain r rp' where cr: "check_and_record chk now rp (req_user_id req) (req_proof req) = (r, rp')"
    by (cases "check_and_record chk now rp (req_user_id req) (req_proof req)")
  with Inr assms show ?thesis
    by (auto simp: handle_request_def run_convs split: run.splits sum.splits)
qed

text \<open>C23: rejections. On every branch the response goes to the user of the request; an
  unregistered user, a storage error, a key mismatch and a replay rejection are answered
  \<open>success: false\<close> with the message of that branch, and only a request that passes the
  first two checks reaches (and changes) the replay protector.\<close>

theorem tcp_rejections:
  "(\<forall>resp. fst (handle_request K chk now dberr reg rp req) = Ret resp \<longrightarrow>
      res_user_id resp = req_user_id req) \<and>
   (get_public_key K dberr reg (req_user_id req) = Inr None \<longrightarrow>
      handle_request K chk now dberr reg rp req =
        (Ret (response req False (''Authentication failed: User '' @ squote (req_user_id req)
           @ '' is not registered with bank'')), rp)) \<and>
   (\<forall>e. get_public_key K dberr reg (req_user_id req) = Inl e \<longrightarrow>
      handle_request K chk now dberr reg rp req =
        (Ret (response req False (''Storage lookup error: '' @ StorageError_display e)), rp)) \<and>
   (\<forall>pk. get_public_key K dberr reg (req_user_id req) = Inr (Some pk) \<and>
         req_public_key req \<noteq> pk_to_bytes K pk \<longrightarrow>
      handle_request K chk now dberr reg rp req =
        (Ret (response req False
           ''Authentication failed: Public key does not match bank records''), rp)) \<and>
   (\<forall>pk e. get_public_key K dberr reg (req_user_id req) = Inr (Some pk) \<and>
         req_public_key req = pk_to_bytes K pk \<and>
         fst (check_and_record chk now rp (req_user_id req) (req_proof req)) = Ret (Inl e) \<longrightarrow>
      fst (handle_request K chk now dberr reg rp req) =
        Ret (response req False (''Security rejection: '' @ ReplayError_display e)))"
proof (intro conjI allI impI)
  fix pk e
  assume a: "get_public_key K dberr reg (req_user_id req) = Inr (Some pk) \<and>
    req_public_key req = pk_to_bytes K pk \<and>
    fst (check_and_record chk now rp (req_user_id req) (req_proof req)) = Ret (Inl e)"
  then obtain rp' where "check_and_record chk now rp (req_user_id req) (req_proof req) = (Ret (Inl e), rp')"
    by (metis prod.collapse)
  with a show "fst (handle_request K chk now dberr reg rp req) =
      Ret (response req False (''Security rejection: '' @ ReplayError_display e))"
    by (simp add: handle_request_def lookup_stage_def replay_rejection_def)
qed (auto simp: handle_request_user handle_request_lookup_Inl lookup_stage_def)

theorem tcp_rejections_witness:
  "handle_request gf2 True 0 None \<lparr>user_rows = []\<rparr> ReplayProtector_default (alice_request (probe 0)) =
     (Ret (response (alice_request (probe 0)) False
        (''Authentication failed: User '' @ squote ''alice'' @ '' is not registered with bank'')),
      ReplayProtector_default)"
  using tcp_rejections [of gf2 True 0 None "\<lparr>user_rows = []\<rparr>" ReplayProtector_default "alice_request (probe 0)"]
  by (simp add: get_public_key_def)

lemma honest_request_granted:
  assumes B: "k256_bytes_ok K" and G: "k256_group_ok K" and k: "k \<noteq> SC_ZERO K"
    and I: "rp_invar rp" and C: "clock_in_range rp now"
    and reg: "get_public_key K dberr reg u = Inr (Some (public_key K sk))"
    and gen: "generate_proof K sk (public_key K sk) ts nc k = Ret p"
    and fresh: "\<bar>sint now - sint ts\<bar> \<le> sint (max_drift_secs rp)"
    and unused: "map_of (seen_nonces rp) (u, nc) = None"
  shows "granted (fst (handle_request K chk now dberr reg rp
      \<lparr>req_user_id = u, req_public_key = pk_to_bytes K (public_key K sk), req_proof = p\<rparr>))"
proof -
  let ?req = "\<lparr>req_user_id = u, req_public_key = pk_to_bytes K (public_key K sk), req_proof = p\<rparr>"
  have gen': "generate_proof_with_time K sk (public_key K sk) ts nc k = Ret p"
    using gen by (simp add: generate_proof_def)
  then have p: "timestamp p = ts" "nonce p = nc"
    by (auto simp: generate_proof_with_time_def Let_def run_convs)
  have "fst (check_and_record chk now rp u p) = Ret (Inr ())"
    unfolding admit_iff [OF I C] using fresh unused by (auto simp: p knows_nonce_def)
  moreover have "verify K (public_point (public_key K sk)) p = Ret (Inr True)"
    by (rule honest_proof_verifies [OF B G k gen'])
  ultimately have "fst (service_step K chk rp (tcp_call now dberr reg ?req))"
    by (simp add: service_step_def gated_def key_matches_def proof_verifies_def guard_call_def
        rp_step_def reg)
  then show ?thesis
    using handle_request_service [of K chk now dberr reg rp ?req] by (metis fst_conv)
qed

text \<open>An honest user is authenticated. For a user registered with the public key of \<open>sk\<close>, a
  proof generated with \<open>sk\<close>, stamped within the drift of the server's clock and with a nonce
  that is not in the cache, is answered \<open>success: true\<close>.\<close>

theorem honest_user_succeeds:
  assumes B: "k256_bytes_ok K" and G: "k256_group_ok K" and k: "k \<noteq> SC_ZERO K"
    and I: "rp_invar rp" and C: "clock_in_range rp now"
    and reg: "get_public_key K dberr reg u = Inr (Some (public_key K sk))"
    and gen: "generate_proof K sk (public_key K sk) ts nc k = Ret p"
    and fresh: "\<bar>sint now - sint ts\<bar> \<le> sint (max_drift_secs rp)"
    and unused: "map_of (seen_nonces rp) (u, nc) = None"
  shows "\<exists>resp. fst (handle_request K chk now dberr reg rp
      \<lparr>req_user_id = u, req_public_key = pk_to_bytes K (public_key K sk), req_proof = p\<rparr>) = Ret resp
    \<and> res_success resp"
  by (rule honest_request_granted [OF assms, unfolded granted_iff])

theorem honest_user_succeeds_witness:
  "\<exists>resp. fst (handle_request gf2 True 0 None alice_registry ReplayProtector_default
      \<lparr>req_user_id = ''alice'', req_public_key = pk_to_bytes gf2 (public_key gf2 gf2_sk),
       req_proof = gf2_proof 0 one_nonce False\<rparr>) = Ret resp \<and> res_success resp"
proof (rule honest_user_succeeds [OF gf2_bytes_ok gf2_group_ok _ rp_invar_default,
      where k = True and ts = 0 and nc = one_nonce])
  show "generate_proof gf2 gf2_sk (public_key gf2 gf2_sk) 0 one_nonce True
      = Ret (gf2_proof 0 one_nonce False)"
    by (simp add: generate_proof_def generate_proof_with_time_def gf2_challenge gf2_parity_input
        gf2_public_key gf2_sk_def gf2_pk_def schnorr_response_def gf2_proof_def one_nonce_def)
qed (simp_all add: clock_in_range_def i64_max_def gf2_public_key)

section \<open>A malformed response scalar\<close>

lemma verify_bad_scalar:
  assumes "k256_bytes_ok K" "encoded_from_bytes K (r_point p) = Inr c" "length (s_scalar p) \<noteq> 32"
  obtains m where "verify K pk p = Panic m"
  using assms by (simp add: verify_def field_bytes_iff)

text \<open>C29: a request for a registered user with the user's (public) key, a fresh timestamp, an
  unused nonce, any well-formed commitment and an \<open>s_scalar\<close> that has not 32 bytes makes the
  handler panic. The connection's task dies without sending a response, and the nonce stays
  recorded. No secret is needed to send such a request.\<close>

theorem bad_scalar_length_panics:
  assumes B: "k256_bytes_ok K"
    and pk: "get_public_key K dberr reg (req_user_id req) = Inr (Some pk)"
    and match: "req_public_key req = pk_to_bytes K pk"
    and adm: "check_and_record chk now rp (req_user_id req) (req_proof req) = (Ret (Inr ()), rp')"
    and r: "encoded_from_bytes K (r_point (req_proof req)) = Inr c"
    and s: "length (s_scalar (req_proof req)) \<noteq> 32"
  shows "\<exists>m. handle_request K chk now dberr reg rp req = (Panic m, rp')"
proof -
  obtain m where "verify K (public_point pk) (req_proof req) = Panic m"
    using B r s by (rule verify_bad_scalar)
  then show ?thesis
    using pk match adm by (simp add: handle_request_def lookup_stage_Inr [THEN iffD2])
qed

theorem bad_scalar_length_panics_witness:
  "\<exists>m. handle_request gf2 True 0 None alice_registry ReplayProtector_default
      (alice_request (gf2_proof 0 one_nonce True\<lparr>s_scalar := [1]\<rparr>)) =
    (Panic m, ReplayProtector_default\<lparr>seen_nonces := [((''alice'', one_nonce), 0)]\<rparr>)"
  by (rule bad_scalar_length_panics [OF gf2_bytes_ok, where pk = gf2_pk and c = True])
    (simp_all add: alice_admitted)

section \<open>Sequences of requests\<close>

text \<open>The service calls of a list of requests, and the handler as a step on them.\<close>

type_synonym tcp_input = "i64 \<times> string option \<times> UserRegistry \<times> AuthRequest"

definition tcp_step ::
  "('pt, 'sc, 'enc) k256 \<Rightarrow> bool \<Rightarrow> ReplayProtector \<Rightarrow> tcp_input \<Rightarrow> bool \<times> ReplayProtector" where
  "tcp_step K chk rp i =
     (case i of (now, dberr, reg, req) \<Rightarrow>
        (granted (fst (handle_request K chk now dberr reg rp req)),
         snd (handle_request K chk now dberr reg rp req)))"

definition input_call :: "tcp_input \<Rightarrow> service_call" where
  "input_call i = (case i of (now, dberr, reg, req) \<Rightarrow> tcp_call now dberr reg req)"

definition input_key :: "tcp_input \<Rightarrow> nonce_key \<times> int" where
  "input_key i = service_key (input_call i)"

lemma input_call_simp [simp]: "input_call (now, dberr, reg, req) = tcp_call now dberr reg req"
  by (simp add: input_call_def)

lemma tcp_step_service: "tcp_step K chk rp i = service_step K chk rp (input_call i)"
  by (cases i) (simp add: tcp_step_def handle_request_service)

lemma admitted_tcp:
  "map input_call (admitted (tcp_step K chk) rp ins) = admitted (service_step K chk) rp (map input_call ins)"
  by (induction ins arbitrary: rp) (simp_all add: tcp_step_service split_beta Let_def)

text \<open>C4: one success per proof. Over any sequence of requests that the server handles with a
  clock that does not go back, from any connections and in any order, no two successes have
  the same user, nonce and timestamp, and each success was for the stored key of its user
  with a proof that verifies.\<close>

theorem tcp_one_success_per_proof:
  assumes "rp_invar rp" "\<forall>i \<in> set ins. clock_in_range rp (fst i)" "sorted (map (\<lambda>i. sint (fst i)) ins)"
  shows "distinct (map input_key (admitted (tcp_step K chk) rp ins)) \<and>
    (\<forall>i \<in> set (admitted (tcp_step K chk) rp ins).
       key_matches K (input_call i) \<and> proof_verifies K (input_call i))"
proof -
  have t: "map service_time (map input_call ins) = map (\<lambda>i. sint (fst i)) ins"
    by (auto simp: service_time_def input_call_def)
  have "\<forall>c \<in> set (map input_call ins). clock_in_range rp (call_now c)"
    using assms(2) by (auto simp: input_call_def)
  from service_successes_sound [OF assms(1) this, of K chk] show ?thesis
    unfolding t admitted_tcp [symmetric] input_key_def [abs_def] using assms(3)
    by (simp add: comp_def)
qed

theorem tcp_one_success_per_proof_witness:
  "distinct (map input_key (admitted (tcp_step gf2 True) ReplayProtector_default
     [(0, None, alice_registry, alice_request (gf2_proof 0 one_nonce False)),
      (1, None, alice_registry, alice_request (gf2_proof 0 one_nonce False))]))"
proof -
  let ?ins = "[(0, None, alice_registry, alice_request (gf2_proof 0 one_nonce False)),
      (1 :: i64, None, alice_registry, alice_request (gf2_proof 0 one_nonce False))]"
  have "\<forall>i \<in> set ?ins. clock_in_range ReplayProtector_default (fst i)"
    "sorted (map (\<lambda>i. sint (fst i)) ?ins)" by (simp_all add: clock_in_range_def i64_max_def)
  from tcp_one_success_per_proof [OF rp_invar_default this, of gf2 True] show ?thesis by blast
qed

text \<open>C31: a proof that fails verification burns its nonce. The replay check runs before the
  verification, so a request that names a registered user and key and is admitted by the
  protector, but whose proof is wrong, makes every later request of that user with the same
  nonce and timestamp fail, the genuine one included.\<close>

theorem failed_proof_burns_nonce:
  assumes I: "rp_invar rp" and C: "clock_in_range rp now"
    and pk: "get_public_key K dberr reg (req_user_id req) = Inr (Some pk)"
    and match: "req_public_key req = pk_to_bytes K pk"
    and adm: "fst (check_and_record chk now rp (req_user_id req) (req_proof req)) = Ret (Inr ())"
    and wrong: "verify K (public_point pk) (req_proof req) \<noteq> Ret (Inr True)"
    and clocks: "\<forall>i \<in> set ins. clock_in_range rp (fst i)"
    and srt: "sorted (sint now # map (\<lambda>i. sint (fst i)) ins)"
  shows "\<not> granted (fst (handle_request K chk now dberr reg rp req)) \<and>
    input_key (now, dberr, reg, req) \<notin> input_key `
      set (admitted (tcp_step K chk) (snd (handle_request K chk now dberr reg rp req)) ins)"
proof
  let ?c = "tcp_call now dberr reg req"
  have km: "key_matches K ?c" using pk match by (simp add: key_matches_def)
  have h: "snd (handle_request K chk now dberr reg rp req) = snd (service_step K chk rp ?c)"
    using handle_request_service [of K chk now dberr reg rp req] by (metis snd_conv)
  show "\<not> granted (fst (handle_request K chk now dberr reg rp req))"
    using handle_request_service [of K chk now dberr reg rp req] pk wrong
    by (simp add: service_step_def gated_def proof_verifies_def prod_eq_iff)
  have t: "map service_time (?c # map input_call ins) = sint now # map (\<lambda>i. sint (fst i)) ins"
    by (auto simp: service_time_def input_call_def)
  have "service_key ?c \<notin> service_key ` set (admitted (service_step K chk)
      (snd (service_step K chk rp ?c)) (map input_call ins))"
  proof (rule service_burnt_key [OF I _ km])
    show "sorted (map service_time (?c # map input_call ins))" unfolding t by (rule srt)
    show "\<forall>d \<in> set (map input_call ins). clock_in_range rp (call_now d)"
      using clocks by (auto simp: input_call_def)
  qed (use C adm in \<open>simp_all add: guard_call_def rp_step_def\<close>)
  then show "input_key (now, dberr, reg, req) \<notin> input_key `
      set (admitted (tcp_step K chk) (snd (handle_request K chk now dberr reg rp req)) ins)"
    unfolding admitted_tcp [symmetric] h by (auto simp: input_key_def)
qed

theorem failed_proof_burns_nonce_witness:
  "input_key (0, None, alice_registry, alice_request (gf2_proof 0 one_nonce True)) \<notin> input_key `
     set (admitted (tcp_step gf2 True)
       (snd (handle_request gf2 True 0 None alice_registry ReplayProtector_default
          (alice_request (gf2_proof 0 one_nonce True))))
       [(1, None, alice_registry, alice_request (gf2_proof 0 one_nonce False))])"
proof -
  let ?req = "alice_request (gf2_proof 0 one_nonce True)"
    and ?ins = "[(1 :: i64, None :: string option, alice_registry,
      alice_request (gf2_proof 0 one_nonce False))]"
  have C: "clock_in_range ReplayProtector_default 0" by (simp add: clock_in_range_def i64_max_def)
  have pk: "get_public_key gf2 None alice_registry (req_user_id ?req) = Inr (Some gf2_pk)" by simp
  have m: "req_public_key ?req = pk_to_bytes gf2 gf2_pk" by simp
  have a: "fst (check_and_record True 0 ReplayProtector_default (req_user_id ?req) (req_proof ?req))
      = Ret (Inr ())" by (simp add: alice_admitted)
  have w: "verify gf2 (public_point gf2_pk) (req_proof ?req) \<noteq> Ret (Inr True)"
    by (simp add: gf2_pk_def gf2_verify gf2_parity_input one_nonce_def)
  have i: "\<forall>i \<in> set ?ins. clock_in_range ReplayProtector_default (fst i)"
    "sorted (sint (0 :: i64) # map (\<lambda>i. sint (fst i)) ?ins)"
    by (simp_all add: clock_in_range_def i64_max_def)
  from failed_proof_burns_nonce [OF rp_invar_default C pk m a w i] show ?thesis by blast
qed

section \<open>Connections\<close>

lemma snd_handle_request:
  "snd (handle_request K chk now dberr reg rp req) =
    snd (service_step K chk rp (tcp_call now dberr reg req))"
  using handle_request_service [of K chk now dberr reg rp req] by (metis snd_conv)

lemma handle_request_invar:
  assumes "rp_invar rp" "clock_in_range rp now"
  shows "rp_invar (snd (handle_request K chk now dberr reg rp req))"
  unfolding snd_handle_request service_step_def
  using assms by (intro svc.service.check_invar) (simp_all add: guard_call_def)

lemma handle_request_drift:
  "max_drift_secs (snd (handle_request K chk now dberr reg rp req)) = max_drift_secs rp"
  unfolding snd_handle_request service_step_def gated_def
  by (simp add: rp_step_def guard_call_def)

text \<open>C24: the responses of a connection. They answer the messages one by one in the order of
  arrival, each to the user of its request; the answer to undecodable bytes goes to
  \<open>unknown\<close>, is the last one, and ends the connection with the codec's error; and the task
  returns \<open>Ok\<close> only when every message was a request and every one was answered.\<close>

theorem connection_answers_in_order:
  assumes "handle_connection K B chk rp evs = (sent, res, rp')"
  shows "length sent \<le> length evs \<and>
    (\<forall>i < length sent. case ev_message (evs ! i) of
       Inr req \<Rightarrow> res_user_id (sent ! i) = req_user_id req
     | Inl e \<Rightarrow> sent ! i = malformed_response e \<and> Suc i = length sent \<and> res = Ret (Inl e)) \<and>
    (res = Ret (Inr ()) \<longrightarrow> length sent = length evs \<and> (\<forall>ev \<in> set evs. \<exists>req. ev_message ev = Inr req))"
  using assms
proof (induction evs arbitrary: rp sent)
  case Nil
  then show ?case by simp
next
  case (Cons ev evs)
  show ?case
  proof (cases "ev_message ev")
    case (Inl e)
    with Cons.prems show ?thesis by (auto split: sum.splits)
  next
    case (Inr req)
    obtain r rp1 where h: "handle_request K chk (ev_now ev) (ev_dberr ev) (ev_registry ev) rp req = (r, rp1)"
      by (cases "handle_request K chk (ev_now ev) (ev_dberr ev) (ev_registry ev) rp req")
    show ?thesis
    proof (cases "\<exists>resp. r = Ret resp \<and> send_response B ev resp = Inr ()")
      case False
      with Cons.prems Inr h show ?thesis by (auto split: run.splits sum.splits)
    next
      case True
      then obtain resp where r: "r = Ret resp" and s: "send_response B ev resp = Inr ()" by blast
      obtain sent1 where rest: "handle_connection K B chk rp1 evs = (sent1, res, rp')"
        and sent: "sent = resp # sent1"
        using Cons.prems Inr h r s by (auto split: prod.splits)
      have "res_user_id resp = req_user_id req"
        using handle_request_user [of K chk "ev_now ev" "ev_dberr ev" "ev_registry ev" rp req resp] h r
        by simp
      with Cons.IH [OF rest] Inr show ?thesis
        unfolding sent length_Cons All_less_Suc2 nth_Cons_0 nth_Cons_Suc by (simp cong: sum.case_cong)
    qed
  qed
qed

lemma malformed_encodes: "fst (encode response_bincode codec_new (malformed_response MathError) []) = Inr ()"
  by (simp add: encode_def response_bincode_def wire_bincode_def serialize_with_def auth_response_short_def
      malformed_response_def write_auth_response_def write_string_def write_bytes_def write_u64_def
      write_bool_def str_bytes_def codec_new_def MAX_FRAME_SIZE_def)

theorem connection_answers_in_order_witness:
  "handle_connection gf2 response_bincode True ReplayProtector_default
     [\<lparr>ev_message = Inl MathError, ev_now = 0, ev_dberr = None, ev_registry = alice_registry,
       ev_send = None\<rparr>] = ([malformed_response MathError], Ret (Inl MathError), ReplayProtector_default) \<and>
   length [malformed_response MathError] \<le> 1"
proof -
  let ?ev = "\<lparr>ev_message = Inl MathError, ev_now = 0, ev_dberr = None, ev_registry = alice_registry,
       ev_send = None\<rparr>"
  have "handle_connection gf2 response_bincode True ReplayProtector_default [?ev] =
      ([malformed_response MathError], Ret (Inl MathError), ReplayProtector_default)"
    by (simp add: send_response_def malformed_encodes)
  from connection_answers_in_order [OF this] this show ?thesis by simp
qed

text \<open>What one request does to the cache: it adds at most its own entry, and that only when it names
  the stored key, and it drops no entry that is inside the window.\<close>

lemma handle_request_cache:
  assumes "rp_invar rp" "clock_in_range rp now"
  shows "set (seen_nonces (snd (handle_request K chk now dberr reg rp req))) \<subseteq> set (seen_nonces rp) \<union>
    (if key_matches K (tcp_call now dberr reg req)
     then {((req_user_id req, nonce (req_proof req)), timestamp (req_proof req))} else {})"
  using seen_after_subset [OF assms, of chk "req_user_id req" "req_proof req"]
  by (auto simp: snd_handle_request service_step_def gated_def guard_call_def rp_step_def split: if_splits)

lemma handle_request_keeps:
  assumes "rp_invar rp" "clock_in_range rp now" "knows_nonce rp k t" "sint now - sint (max_drift_secs rp) \<le> t"
  shows "knows_nonce (snd (handle_request K chk now dberr reg rp req)) k t"
  using assms knows_after [OF assms(1,2,4)]
  by (simp add: snd_handle_request service_step_def gated_def guard_call_def rp_step_def)

definition conn_entries :: "('pt, 'sc, 'enc) k256 \<Rightarrow> conn_event list \<Rightarrow> (nonce_key \<times> i64) set" where
  "conn_entries K evs =
     {((req_user_id req, nonce (req_proof req)), timestamp (req_proof req)) | ev req.
        ev \<in> set evs \<and> ev_message ev = Inr req \<and>
        key_matches K (tcp_call (ev_now ev) (ev_dberr ev) (ev_registry ev) req)}"

lemma conn_entries_Cons_message:
  "ev_message ev = Inr req \<Longrightarrow> conn_entries K (ev # evs) = conn_entries K evs \<union>
     (if key_matches K (tcp_call (ev_now ev) (ev_dberr ev) (ev_registry ev) req)
      then {((req_user_id req, nonce (req_proof req)), timestamp (req_proof req))} else {})"
  by (auto simp: conn_entries_def)

lemma connection_step_cases [consumes 1, case_names refused ended continued]:
  assumes "handle_connection K B chk rp (ev # evs) = (sent, res, rp')"
  obtains (refused) e where "ev_message ev = Inl e" "rp' = rp"
  | (ended) req where "ev_message ev = Inr req"
      "rp' = snd (handle_request K chk (ev_now ev) (ev_dberr ev) (ev_registry ev) rp req)"
  | (continued) req sent1 where "ev_message ev = Inr req"
      "handle_connection K B chk
         (snd (handle_request K chk (ev_now ev) (ev_dberr ev) (ev_registry ev) rp req)) evs = (sent1, res, rp')"
proof (cases "ev_message ev")
  case (Inl e)
  with assms refused show thesis by (auto split: sum.splits)
next
  case (Inr req)
  then show thesis
    using assms ended [OF Inr] continued [OF Inr] by (auto split: prod.splits run.splits sum.splits)
qed

text \<open>C34: a connection cannot damage the protector it shares with the others. Whatever its messages,
  and however its task ends (a panic of \<open>verify\<close> included), the mutex is not poisoned and the
  keys stay distinct; the cache gains only entries of this connection's own requests, and only of
  those that named the stored key of their user; and no entry is lost whose timestamp stays
  inside the window of the clocks that were read, so a flood of requests evicts nothing that
  still protects.\<close>

theorem connection_keeps_protector:
  assumes "rp_invar rp" "\<forall>ev \<in> set evs. clock_in_range rp (ev_now ev)"
    and "handle_connection K B chk rp evs = (sent, res, rp')"
  shows "rp_invar rp' \<and> max_drift_secs rp' = max_drift_secs rp \<and>
    set (seen_nonces rp') \<subseteq> set (seen_nonces rp) \<union> conn_entries K evs \<and>
    (\<forall>k t. knows_nonce rp k t \<and> (\<forall>ev \<in> set evs. sint (ev_now ev) - sint (max_drift_secs rp) \<le> t) \<longrightarrow>
       knows_nonce rp' k t)"
  using assms
proof (induction evs arbitrary: rp sent)
  case Nil
  then show ?case by simp
next
  case (Cons ev evs)
  have I: "rp_invar rp" and C: "clock_in_range rp (ev_now ev)" using Cons.prems by auto
  let ?rp1 = "\<lambda>req. snd (handle_request K chk (ev_now ev) (ev_dberr ev) (ev_registry ev) rp req)"
  note keep = handle_request_keeps [OF I C] and cache = handle_request_cache [OF I C]
  from Cons.prems(3) show ?case
  proof (cases rule: connection_step_cases)
    case (refused e)
    then show ?thesis using I by simp
  next
    case (ended req)
    then show ?thesis
      using handle_request_invar [OF I C] handle_request_drift cache keep
      by (fastforce simp: conn_entries_Cons_message)
  next
    case (continued req sent1)
    have d: "max_drift_secs (?rp1 req) = max_drift_secs rp" by (rule handle_request_drift)
    have i: "rp_invar (?rp1 req)" using I C by (rule handle_request_invar)
    have c: "\<forall>e \<in> set evs. clock_in_range (?rp1 req) (ev_now e)"
      using Cons.prems(2) clock_in_range_cong [OF d] by simp
    note IH = Cons.IH [OF i c continued(2), unfolded d]
    have "set (seen_nonces rp') \<subseteq> set (seen_nonces rp) \<union> conn_entries K (ev # evs)"
      using IH cache [of K chk "ev_dberr ev" "ev_registry ev" req]
      unfolding conn_entries_Cons_message [OF continued(1)] by blast
    moreover have "knows_nonce rp' k t" if "knows_nonce rp k t"
      "\<forall>ev \<in> set (ev # evs). sint (ev_now ev) - sint (max_drift_secs rp) \<le> t" for k t
    proof -
      have "knows_nonce (?rp1 req) k t" using keep [of k t] that by simp
      with IH that(2) show ?thesis by (meson list.set_intros(2))
    qed
    ultimately show ?thesis using IH by blast
  qed
qed

theorem connection_keeps_protector_witness:
  "rp_invar (snd (snd (handle_connection gf2 response_bincode True ReplayProtector_default
     [\<lparr>ev_message = Inr (alice_request (gf2_proof 0 one_nonce True\<lparr>s_scalar := [1]\<rparr>)), ev_now = 0,
       ev_dberr = None, ev_registry = alice_registry, ev_send = None\<rparr>])))"
proof -
  let ?evs = "[\<lparr>ev_message = Inr (alice_request (gf2_proof 0 one_nonce True\<lparr>s_scalar := [1]\<rparr>)), ev_now = 0,
       ev_dberr = None, ev_registry = alice_registry, ev_send = None\<rparr>]"
  have c: "\<forall>ev \<in> set ?evs. clock_in_range ReplayProtector_default (ev_now ev)"
    by (simp add: clock_in_range_def i64_max_def)
  obtain sent res rp' where h: "handle_connection gf2 response_bincode True ReplayProtector_default ?evs =
      (sent, res, rp')" by (rule prod_cases3)
  from connection_keeps_protector [OF rp_invar_default c h] show ?thesis unfolding h by simp
qed

section \<open>The accept loop\<close>

text \<open>Shutdown. Up to the first change of the shutdown flag to true the loop serves every
  connection it accepts, in order, whatever accepts fail on the way; after it, none.\<close>

theorem server_run_until_shutdown:
  assumes "\<forall>e \<in> set es. e \<noteq> ShutdownChanged True"
  shows "server_run (es @ ShutdownChanged True # fs) =
      (concat (map (\<lambda>e. case e of Accepted c \<Rightarrow> [c] | _ \<Rightarrow> []) es), True) \<and>
    server_run es = (concat (map (\<lambda>e. case e of Accepted c \<Rightarrow> [c] | _ \<Rightarrow> []) es), False)"
  using assms
proof (induction es)
  case Nil
  then show ?case by simp
next
  case (Cons e es)
  then show ?case by (cases e) auto
qed

theorem server_run_until_shutdown_witness:
  "server_run ([Accepted (1 :: nat), AcceptFailed ''e''] @ ShutdownChanged True # [Accepted 2]) = ([1], True)"
  by (subst server_run_until_shutdown [THEN conjunct1]) simp_all

end
