(* ===== verification/Tcp_System.thy ===== *)
theory Tcp_System
  imports Tcp_Server
begin

text \<open>
  The TCP server with its connections running concurrently. Each connection is a task of
  \<open>handle_connection\<close>; the tasks share the registry and the replay protector. Between two
  accesses to shared state a task can be suspended, so a request goes through phases: the key
  lookup (one statement under the registry's mutex), the freshness check (which reads the
  clock before the protector's mutex is taken), the section under the mutex, the verification
  with the answer. \<open>sys_step\<close> interleaves the phases of all connections with the passing of time
  and with changes of the registry.

  The flag \<open>ordered\<close> restricts the order in which tasks enter the protector's mutex: with it,
  they enter in the order of the clock values they have read. The code does not enforce it.
  With it no proof succeeds twice; without it a task that is suspended between reading the
  clock and taking the mutex can bring a pruned proof back.
\<close>

section \<open>States\<close>

datatype 'pt phase =
    Idle
  | Received AuthRequest
  | KeyOk AuthRequest "'pt UserPublicKey"
  | FreshOk AuthRequest "'pt UserPublicKey" i64
  | Recorded AuthRequest "'pt UserPublicKey"
  | Ended

text \<open>\<open>sys_last\<close> is the clock value of the last entry into the protector's mutex and \<open>sys_log\<close> the
  responses sent, with their requests, oldest first; both serve the statements only.\<close>

record 'pt sys =
  sys_clock :: i64
  sys_registry :: UserRegistry
  sys_protector :: ReplayProtector
  sys_conn :: "nat \<Rightarrow> 'pt phase"
  sys_last :: int
  sys_log :: "(AuthRequest \<times> AuthResponse) list"

definition sys_init :: "i64 \<Rightarrow> UserRegistry \<Rightarrow> ReplayProtector \<Rightarrow> 'pt sys" where
  "sys_init now reg rp = \<lparr>sys_clock = now, sys_registry = reg, sys_protector = rp,
     sys_conn = (\<lambda>_. Idle), sys_last = sint now, sys_log = []\<rparr>"

abbreviation goto :: "'pt sys \<Rightarrow> nat \<Rightarrow> 'pt phase \<Rightarrow> 'pt sys" where
  "goto st c ph \<equiv> st\<lparr>sys_conn := (sys_conn st)(c := ph)\<rparr>"

abbreviation answer :: "'pt sys \<Rightarrow> nat \<Rightarrow> AuthRequest \<Rightarrow> AuthResponse \<Rightarrow> 'pt sys" where
  "answer st c req resp \<equiv>
     st\<lparr>sys_conn := (sys_conn st)(c := Idle), sys_log := sys_log st @ [(req, resp)]\<rparr>"

abbreviation locked :: "'pt sys \<Rightarrow> i64 \<Rightarrow> ReplayProtector \<Rightarrow> 'pt sys" where
  "locked st now rp \<equiv> st\<lparr>sys_protector := rp, sys_last := sint now\<rparr>"

section \<open>Steps\<close>

inductive sys_step :: "('pt, 'sc, 'enc) k256 \<Rightarrow> bool \<Rightarrow> bool \<Rightarrow> 'pt sys \<Rightarrow> 'pt sys \<Rightarrow> bool"
  for K chk ordered where
  tick: "sint (sys_clock st) \<le> sint t \<Longrightarrow> clock_in_range (sys_protector st) t \<Longrightarrow>
    sys_step K chk ordered st (st\<lparr>sys_clock := t\<rparr>)"
| registry: "sys_step K chk ordered st (st\<lparr>sys_registry := reg\<rparr>)"
| hang_up: "sys_step K chk ordered st (goto st c Ended)"
| receive: "sys_conn st c = Idle \<Longrightarrow> sys_step K chk ordered st (goto st c (Received req))"
| lookup_refused: "sys_conn st c = Received req \<Longrightarrow>
    lookup_stage K dberr (sys_registry st) req = Inl resp \<Longrightarrow>
    sys_step K chk ordered st (answer st c req resp)"
| lookup_ok: "sys_conn st c = Received req \<Longrightarrow>
    lookup_stage K dberr (sys_registry st) req = Inr pk \<Longrightarrow>
    sys_step K chk ordered st (goto st c (KeyOk req pk))"
| stale: "sys_conn st c = KeyOk req pk \<Longrightarrow>
    check_freshness chk (sys_clock st) (max_drift_secs (sys_protector st)) (timestamp (req_proof req)) =
      Ret (Inl e) \<Longrightarrow>
    sys_step K chk ordered st (answer st c req (replay_rejection req e))"
| fresh: "sys_conn st c = KeyOk req pk \<Longrightarrow>
    check_freshness chk (sys_clock st) (max_drift_secs (sys_protector st)) (timestamp (req_proof req)) =
      Ret (Inr ()) \<Longrightarrow>
    sys_step K chk ordered st (goto st c (FreshOk req pk (sys_clock st)))"
| fresh_panic: "sys_conn st c = KeyOk req pk \<Longrightarrow>
    check_freshness chk (sys_clock st) (max_drift_secs (sys_protector st)) (timestamp (req_proof req)) =
      Panic m \<Longrightarrow>
    sys_step K chk ordered st (goto st c Ended)"
| replayed: "sys_conn st c = FreshOk req pk now \<Longrightarrow> (ordered \<longrightarrow> sys_last st \<le> sint now) \<Longrightarrow>
    record_nonce chk now (sys_protector st) (req_user_id req, nonce (req_proof req))
      (timestamp (req_proof req)) = (Ret (Inl e), rp') \<Longrightarrow>
    sys_step K chk ordered st (answer (locked st now rp') c req (replay_rejection req e))"
| recorded: "sys_conn st c = FreshOk req pk now \<Longrightarrow> (ordered \<longrightarrow> sys_last st \<le> sint now) \<Longrightarrow>
    record_nonce chk now (sys_protector st) (req_user_id req, nonce (req_proof req))
      (timestamp (req_proof req)) = (Ret (Inr ()), rp') \<Longrightarrow>
    sys_step K chk ordered st (goto (locked st now rp') c (Recorded req pk))"
| record_panic: "sys_conn st c = FreshOk req pk now \<Longrightarrow> (ordered \<longrightarrow> sys_last st \<le> sint now) \<Longrightarrow>
    record_nonce chk now (sys_protector st) (req_user_id req, nonce (req_proof req))
      (timestamp (req_proof req)) = (Panic m, rp') \<Longrightarrow>
    sys_step K chk ordered st (goto (locked st now rp') c Ended)"
| verified: "sys_conn st c = Recorded req pk \<Longrightarrow>
    verify K (public_point pk) (req_proof req) = Ret res \<Longrightarrow>
    sys_step K chk ordered st (answer st c req (verify_stage req res))"
| verify_panic: "sys_conn st c = Recorded req pk \<Longrightarrow>
    verify K (public_point pk) (req_proof req) = Panic m \<Longrightarrow>
    sys_step K chk ordered st (goto st c Ended)"

abbreviation sys_reaches ::
  "('pt, 'sc, 'enc) k256 \<Rightarrow> bool \<Rightarrow> bool \<Rightarrow> 'pt sys \<Rightarrow> 'pt sys \<Rightarrow> bool" where
  "sys_reaches K chk ordered \<equiv> (sys_step K chk ordered)\<^sup>*\<^sup>*"

section \<open>Dead tasks\<close>

inductive_cases sys_stepE: "sys_step K chk ordered st st'"

text \<open>A task that ended stays ended, the log of responses only grows, and the drift is fixed.\<close>

lemma ended_stays: "sys_step K chk ordered st st' \<Longrightarrow> sys_conn st c = Ended \<Longrightarrow> sys_conn st' c = Ended"
  by (erule sys_stepE) auto

lemma log_grows: "sys_step K chk ordered st st' \<Longrightarrow> \<exists>more. sys_log st' = sys_log st @ more"
  by (erule sys_stepE) auto

lemma ended_forever:
  "sys_reaches K chk ordered st st' \<Longrightarrow> sys_conn st c = Ended \<Longrightarrow> sys_conn st' c = Ended"
  by (induction rule: rtranclp_induct) (auto dest: ended_stays)

section \<open>The invariant\<close>

definition request_key :: "AuthRequest \<Rightarrow> nonce_key \<times> int" where
  "request_key req = ((req_user_id req, nonce (req_proof req)), sint (timestamp (req_proof req)))"

definition successes :: "(AuthRequest \<times> AuthResponse) list \<Rightarrow> AuthRequest list" where
  "successes log = map fst (filter (\<lambda>e. res_success (snd e)) log)"

text \<open>A key is spent when the protector knows it or its stamp has left the window for good.\<close>

definition spent :: "'pt sys \<Rightarrow> nonce_key \<times> int \<Rightarrow> bool" where
  "spent st k \<longleftrightarrow> knows_nonce (sys_protector st) (fst k) (snd k) \<or>
     snd k < sys_last st - sint (max_drift_secs (sys_protector st))"

text \<open>The keys that were admitted and may still lead, or have led, to a success.\<close>

definition pending :: "'pt sys \<Rightarrow> nat \<Rightarrow> nonce_key \<times> int \<Rightarrow> bool" where
  "pending st c k \<longleftrightarrow> (\<exists>req pk. sys_conn st c = Recorded req pk \<and> request_key req = k)"

definition backed :: "('pt, 'sc, 'enc) k256 \<Rightarrow> AuthRequest \<Rightarrow> bool" where
  "backed K req \<longleftrightarrow> (\<exists>pk. req_public_key req = pk_to_bytes K pk \<and>
     verify K (public_point pk) (req_proof req) = Ret (Inr True))"

fun phase_ok :: "('pt, 'sc, 'enc) k256 \<Rightarrow> bool \<Rightarrow> ReplayProtector \<Rightarrow> 'pt phase \<Rightarrow> bool" where
  "phase_ok K chk rp (KeyOk req pk) \<longleftrightarrow> req_public_key req = pk_to_bytes K pk"
| "phase_ok K chk rp (FreshOk req pk now) \<longleftrightarrow> req_public_key req = pk_to_bytes K pk \<and>
     clock_in_range rp now \<and>
     check_freshness chk now (max_drift_secs rp) (timestamp (req_proof req)) = Ret (Inr ())"
| "phase_ok K chk rp (Recorded req pk) \<longleftrightarrow> req_public_key req = pk_to_bytes K pk"
| "phase_ok K chk rp _ \<longleftrightarrow> True"

definition sys_sane :: "('pt, 'sc, 'enc) k256 \<Rightarrow> bool \<Rightarrow> 'pt sys \<Rightarrow> bool" where
  "sys_sane K chk st \<longleftrightarrow> rp_invar (sys_protector st) \<and> clock_in_range (sys_protector st) (sys_clock st) \<and>
     (\<forall>c. phase_ok K chk (sys_protector st) (sys_conn st c)) \<and>
     (\<forall>req \<in> set (successes (sys_log st)). backed K req)"

definition sys_once :: "'pt sys \<Rightarrow> bool" where
  "sys_once st \<longleftrightarrow> distinct (map request_key (successes (sys_log st))) \<and>
     (\<forall>req \<in> set (successes (sys_log st)). spent st (request_key req)) \<and>
     (\<forall>c k. pending st c k \<longrightarrow> spent st k \<and> k \<notin> request_key ` set (successes (sys_log st))) \<and>
     (\<forall>c d k. pending st c k \<and> pending st d k \<longrightarrow> c = d)"

lemma successes_append [simp]:
  "successes (log @ [(req, resp)]) = successes log @ (if res_success resp then [req] else [])"
  by (simp add: successes_def)

lemma successes_Nil [simp]: "successes [] = []"
  by (simp add: successes_def)

text \<open>The section under the mutex, in a phase that passed the freshness check, is the whole
  \<open>check_and_record\<close>.\<close>

lemma record_is_check:
  assumes "phase_ok K chk rp (FreshOk req pk now)"
  shows "record_nonce chk now rp (req_user_id req, nonce (req_proof req)) (timestamp (req_proof req)) =
    check_and_record chk now rp (req_user_id req) (req_proof req)"
  using assms by (simp add: check_and_record_split)

lemma phase_ok_drift:
  "max_drift_secs rp' = max_drift_secs rp \<Longrightarrow> phase_ok K chk rp' ph = phase_ok K chk rp ph"
  by (cases ph) (simp_all add: clock_in_range_def)

lemma locked_protector:
  assumes S: "sys_sane K chk st" and ph: "sys_conn st c = FreshOk req pk now"
    and r: "record_nonce chk now (sys_protector st) (req_user_id req, nonce (req_proof req))
      (timestamp (req_proof req)) = (r, rp')"
  shows "rp_invar rp'" "max_drift_secs rp' = max_drift_secs (sys_protector st)"
    "clock_in_range (sys_protector st) now" "req_public_key req = pk_to_bytes K pk"
    "rp_step chk (sys_protector st) (now, req_user_id req, req_proof req) = (r = Ret (Inr ()), rp')"
proof -
  have ok: "phase_ok K chk (sys_protector st) (FreshOk req pk now)" and I: "rp_invar (sys_protector st)"
    using S ph by (auto simp: sys_sane_def dest: spec [of _ c])
  have cr: "(r, rp') = check_and_record chk now (sys_protector st) (req_user_id req) (req_proof req)"
    using record_is_check [OF ok] r by simp
  then show "rp_step chk (sys_protector st) (now, req_user_id req, req_proof req) = (r = Ret (Inr ()), rp')"
    by (simp add: rp_step_def flip: cr)
  show C: "clock_in_range (sys_protector st) now" "req_public_key req = pk_to_bytes K pk"
    using ok by simp_all
  show "rp_invar rp'" "max_drift_secs rp' = max_drift_secs (sys_protector st)"
    using check_and_record_invar [OF I C(1), of chk "req_user_id req" "req_proof req"]
      check_and_record_drift [of chk now "sys_protector st" "req_user_id req" "req_proof req"]
    by (simp_all flip: cr)
qed

lemma sane_step:
  assumes "sys_step K chk ordered st st'" "sys_sane K chk st"
  shows "sys_sane K chk st' \<and>
    max_drift_secs (sys_protector st') = max_drift_secs (sys_protector st)"
  using assms
proof (induction rule: sys_step.induct)
  case (tick st t)
  then show ?case by (simp add: sys_sane_def)
next
  case (lookup_refused st c req dberr resp)
  then show ?case by (auto simp: sys_sane_def dest: lookup_stage_Inl)
next
  case (lookup_ok st c req dberr pk)
  then show ?case by (auto simp: sys_sane_def lookup_stage_Inr)
next
  case (fresh st c req pk)
  then have "req_public_key req = pk_to_bytes K pk" by (auto simp: sys_sane_def dest: spec [of _ c])
  with fresh show ?case by (simp add: sys_sane_def)
next
  case (replayed st c req pk now e rp')
  note l = locked_protector [OF replayed(4,1,3)]
  from replayed(4) l show ?case by (simp add: sys_sane_def clock_in_range_cong [OF l(2)] phase_ok_drift [OF l(2)])
next
  case (recorded st c req pk now rp')
  note l = locked_protector [OF recorded(4,1,3)]
  from recorded(4) l show ?case by (simp add: sys_sane_def clock_in_range_cong [OF l(2)] phase_ok_drift [OF l(2)])
next
  case (record_panic st c req pk now m rp')
  note l = locked_protector [OF record_panic(4,1,3)]
  from record_panic(4) l show ?case
    by (simp add: sys_sane_def clock_in_range_cong [OF l(2)] phase_ok_drift [OF l(2)])
next
  case (verified st c req pk res)
  then have "req_public_key req = pk_to_bytes K pk" by (auto simp: sys_sane_def dest: spec [of _ c])
  with verified show ?case by (auto simp: sys_sane_def backed_def)
qed (simp_all add: sys_sane_def)

lemma spent_locked:
  assumes S: "sys_sane K chk st" and ph: "sys_conn st c = FreshOk req pk now"
    and r: "record_nonce chk now (sys_protector st) (req_user_id req, nonce (req_proof req))
      (timestamp (req_proof req)) = (r, rp')"
    and ord: "sys_last st \<le> sint now" and sp: "spent st k"
  shows "spent (locked st now rp') k"
proof -
  note l = locked_protector [OF S ph r]
  have I: "rp_invar (sys_protector st)" using S by (simp add: sys_sane_def)
  show ?thesis
  proof (cases "snd k < sint now - sint (max_drift_secs (sys_protector st))")
    case True
    then show ?thesis by (simp add: spent_def l(2))
  next
    case False
    then have "knows_nonce (sys_protector st) (fst k) (snd k)" using sp ord by (auto simp: spent_def)
    then have "knows_nonce rp' (fst k) (snd k)"
      using rp.check_keeps [of "sys_protector st" "(now, req_user_id req, req_proof req)" "fst k" "snd k" chk]
        I l(3,5) False by (simp add: call_defs)
    then show ?thesis by (simp add: spent_def)
  qed
qed

lemma admitted_unspent:
  assumes S: "sys_sane K chk st" and ph: "sys_conn st c = FreshOk req pk now"
    and r: "record_nonce chk now (sys_protector st) (req_user_id req, nonce (req_proof req))
      (timestamp (req_proof req)) = (Ret (Inr ()), rp')"
    and ord: "sys_last st \<le> sint now"
  shows "\<not> spent st (request_key req)" "spent (locked st now rp') (request_key req)"
proof -
  note l = locked_protector [OF S ph r]
  have I: "rp_invar (sys_protector st)" using S by (simp add: sys_sane_def)
  let ?call = "(now, req_user_id req, req_proof req)"
  have step: "rp_step chk (sys_protector st) ?call = (True, rp')"
    using l(5) by simp
  show "\<not> spent st (request_key req)"
    using rp.admit_unknown [of "sys_protector st" ?call chk] rp.admit_fresh [of "sys_protector st" ?call chk]
      I l(3) step ord by (fastforce simp: spent_def request_key_def call_defs)
  show "spent (locked st now rp') (request_key req)"
    using rp.admit_records [of "sys_protector st" ?call chk] I l(3) step
    by (simp add: spent_def request_key_def call_defs)
qed

lemma pending_goto:
  "pending (st\<lparr>sys_conn := (sys_conn st)(c := ph)\<rparr>) d k \<longleftrightarrow>
     (if d = c then \<exists>req pk. ph = Recorded req pk \<and> request_key req = k else pending st d k)"
  by (simp add: pending_def)

lemma pending_frame [simp]:
  "pending (st\<lparr>sys_log := log\<rparr>) = pending st" "pending (st\<lparr>sys_clock := t\<rparr>) = pending st"
  "pending (st\<lparr>sys_registry := reg\<rparr>) = pending st" "pending (st\<lparr>sys_last := l\<rparr>) = pending st"
  "pending (st\<lparr>sys_protector := rp\<rparr>) = pending st"
  by (simp_all add: pending_def fun_eq_iff)

lemma spent_frame [simp]:
  "spent (st\<lparr>sys_log := log\<rparr>) = spent st" "spent (st\<lparr>sys_clock := t\<rparr>) = spent st"
  "spent (st\<lparr>sys_registry := reg\<rparr>) = spent st" "spent (st\<lparr>sys_conn := cs\<rparr>) = spent st"
  by (simp_all add: spent_def fun_eq_iff)

lemma once_shrink:
  assumes "sys_once st" "\<And>k. spent st k \<Longrightarrow> spent st' k" "\<And>c k. pending st' c k \<Longrightarrow> pending st c k"
    and "successes (sys_log st') = successes (sys_log st)"
  shows "sys_once st'"
  using assms unfolding sys_once_def by metis

lemma sys_onceD:
  assumes "sys_once st"
  shows "distinct (map request_key (successes (sys_log st)))"
    "req \<in> set (successes (sys_log st)) \<Longrightarrow> spent st (request_key req)"
    "pending st c k \<Longrightarrow> spent st k" "pending st c k \<Longrightarrow> k \<notin> request_key ` set (successes (sys_log st))"
    "pending st c k \<Longrightarrow> pending st d k \<Longrightarrow> c = d"
  using assms unfolding sys_once_def by blast+

lemma once_recorded:
  assumes S: "sys_sane K chk st" and once: "sys_once st" and ph: "sys_conn st c = FreshOk req pk now"
    and r: "record_nonce chk now (sys_protector st) (req_user_id req, nonce (req_proof req))
      (timestamp (req_proof req)) = (Ret (Inr ()), rp')"
    and ord: "sys_last st \<le> sint now"
  shows "sys_once (goto (locked st now rp') c (Recorded req pk))"
proof -
  note new = admitted_unspent [OF S ph r ord]
  have keep: "spent st k \<Longrightarrow> spent (locked st now rp') k" for k
    using spent_locked [OF S ph r ord] .
  have pend: "pending (goto (locked st now rp') c (Recorded req pk)) d k \<longleftrightarrow>
      (if d = c then k = request_key req else pending st d k)" for d k
    by (auto simp: pending_def)
  have "request_key req \<notin> request_key ` set (successes (sys_log st))"
    using sys_onceD(2) [OF once] new(1) by auto
  moreover have "\<not> pending st d (request_key req)" for d using sys_onceD(3) [OF once] new(1) by blast
  ultimately have new': "request_key req \<notin> request_key ` set (successes (sys_log st))"
    "\<And>d. \<not> pending st d (request_key req)" by blast+
  have sp: "spent (goto (locked st now rp') c (Recorded req pk)) = spent (locked st now rp')" by simp
  show ?thesis
    unfolding sys_once_def pend sp
  proof (intro conjI allI impI ballI)
    show "distinct (map request_key (successes (sys_log (goto (locked st now rp') c (Recorded req pk)))))"
      using sys_onceD(1) [OF once] by simp
    fix q assume "q \<in> set (successes (sys_log (goto (locked st now rp') c (Recorded req pk))))"
    then show "spent (locked st now rp') (request_key q)"
      using sys_onceD(2) [OF once] keep by simp
  next
    fix d k assume "if d = c then k = request_key req else pending st d k"
    then show "spent (locked st now rp') k"
      and "k \<notin> request_key ` set (successes (sys_log (goto (locked st now rp') c (Recorded req pk))))"
      using new(2) new' keep sys_onceD(3,4) [OF once] by (auto split: if_splits)
  next
    fix d e k
    assume "(if d = c then k = request_key req else pending st d k) \<and>
      (if e = c then k = request_key req else pending st e k)"
    then show "d = e" using new'(2) sys_onceD(5) [OF once] by (metis (full_types))
  qed
qed

lemma once_verified:
  assumes once: "sys_once st" and ph: "sys_conn st c = Recorded req pk"
  shows "sys_once (answer st c req (verify_stage req res))"
proof -
  have p: "pending st c (request_key req)" using ph by (auto simp: pending_def)
  have pend: "pending (answer st c req (verify_stage req res)) d k \<longleftrightarrow> d \<noteq> c \<and> pending st d k" for d k
    by (simp add: pending_def)
  have sp: "spent (answer st c req (verify_stage req res)) = spent st" by simp
  have log: "request_key ` set (successes (sys_log (answer st c req (verify_stage req res)))) \<subseteq>
      insert (request_key req) (request_key ` set (successes (sys_log st)))" by auto
  show ?thesis
    unfolding sys_once_def pend sp
  proof (intro conjI allI impI ballI)
    show "distinct (map request_key (successes (sys_log (answer st c req (verify_stage req res)))))"
      using sys_onceD(1,4) [OF once] p by simp
    fix r assume "r \<in> set (successes (sys_log (answer st c req (verify_stage req res))))"
    then show "spent st (request_key r)"
      using sys_onceD(2) [OF once] sys_onceD(3) [OF once p] by (auto split: if_splits)
  next
    fix d k assume d: "d \<noteq> c \<and> pending st d k"
    then show "spent st k" using sys_onceD(3) [OF once] by blast
    have "k \<noteq> request_key req" using sys_onceD(5) [OF once p] d by blast
    then show "k \<notin> request_key ` set (successes (sys_log (answer st c req (verify_stage req res))))"
      using log sys_onceD(4) [OF once] d by blast
  next
    fix d e k assume "(d \<noteq> c \<and> pending st d k) \<and> (e \<noteq> c \<and> pending st e k)"
    then show "d = e" using sys_onceD(5) [OF once] by blast
  qed
qed

lemma once_step:
  assumes "sys_step K chk True st st'" "sys_sane K chk st" "sys_once st"
  shows "sys_once st'"
  using assms
proof (induction rule: sys_step.induct)
  case (recorded st c req pk now rp')
  then show ?case by (intro once_recorded) simp_all
next
  case (verified st c req pk res)
  then show ?case by (intro once_verified)
next
  case (replayed st c req pk now e rp')
  show ?case
    by (rule once_shrink [OF replayed(5)])
      (use spent_locked [OF replayed(4,1,3)] replayed(2) in \<open>auto simp: pending_def split: if_splits\<close>)
next
  case (record_panic st c req pk now m rp')
  show ?case
    by (rule once_shrink [OF record_panic(5)])
      (use spent_locked [OF record_panic(4,1,3)] record_panic(2) in \<open>auto simp: pending_def split: if_splits\<close>)
next
  case (lookup_refused st c req dberr resp)
  show ?case
    by (rule once_shrink [OF lookup_refused(4)])
      (use lookup_stage_Inl [OF lookup_refused(2)] in \<open>auto simp: pending_def split: if_splits\<close>)
qed (erule once_shrink; auto simp: pending_def split: if_splits)+

section \<open>Properties\<close>

lemma reachable_sane:
  assumes "sys_reaches K chk ordered st st'" "sys_sane K chk st"
  shows "sys_sane K chk st'"
  using assms by (induction rule: rtranclp_induct) (auto dest: sane_step)

lemma reachable_once:
  assumes "sys_reaches K chk True st st'" "sys_sane K chk st" "sys_once st"
  shows "sys_once st'"
  using assms
proof (induction rule: rtranclp_induct)
  case (step st1 st2)
  then show ?case using once_step [of K chk st1 st2] reachable_sane [of K chk True st st1] by blast
qed simp

lemma init_sane:
  assumes "rp_invar rp" "clock_in_range rp now"
  shows "sys_sane K chk (sys_init now reg rp)" "sys_once (sys_init now reg rp :: 'pt sys)"
  using assms by (simp_all add: sys_sane_def sys_once_def sys_init_def pending_def)

text \<open>C3: one success per proof under concurrency. However the connections interleave, whatever is
  registered or removed meanwhile, and however tasks die, as long as the tasks enter the
  protector's mutex in the order of the clock values they read: no two \<open>success: true\<close>
  responses were sent for the same user, nonce and timestamp, and each was sent for a request
  whose key bytes are those of a key under which its proof verifies.\<close>

theorem concurrent_one_success:
  fixes K :: "('pt, 'sc, 'enc) k256" and st :: "'pt sys"
  assumes "rp_invar rp" "clock_in_range rp now"
    and "sys_reaches K chk True (sys_init now reg rp) st"
  shows "distinct (map request_key (successes (sys_log st))) \<and>
    (\<forall>req \<in> set (successes (sys_log st)). backed K req)"
  using reachable_once [OF assms(3) init_sane [OF assms(1,2)]]
    reachable_sane [OF assms(3) init_sane(1) [OF assms(1,2)]]
  by (simp add: sys_once_def sys_sane_def)

text \<open>A request up to the freshness check, without interruption.\<close>

lemma reach_fresh:
  assumes "sys_conn st c = Idle" "lookup_stage K dberr (sys_registry st) req = Inr pk"
    and "check_freshness chk (sys_clock st) (max_drift_secs (sys_protector st))
      (timestamp (req_proof req)) = Ret (Inr ())"
  shows "sys_reaches K chk ordered st (goto st c (FreshOk req pk (sys_clock st)))"
proof -
  have "sys_step K chk ordered st (goto st c (Received req))" using assms(1) by (rule receive)
  moreover have "sys_step K chk ordered (goto st c (Received req)) (goto st c (KeyOk req pk))"
    using lookup_ok [of "goto st c (Received req)" c req K dberr pk chk ordered] assms(2) by simp
  moreover have "sys_step K chk ordered (goto st c (KeyOk req pk)) (goto st c (FreshOk req pk (sys_clock st)))"
    using fresh [of "goto st c (KeyOk req pk)" c req pk chk K ordered] assms(3) by simp
  ultimately show ?thesis by (meson rtranclp.rtrancl_into_rtrancl rtranclp.rtrancl_refl)
qed

lemma reach_recorded:
  assumes "sys_conn st c = FreshOk req pk now" "ordered \<longrightarrow> sys_last st \<le> sint now"
    and "record_nonce chk now (sys_protector st) (req_user_id req, nonce (req_proof req))
      (timestamp (req_proof req)) = (Ret (Inr ()), rp')"
    and "verify K (public_point pk) (req_proof req) = Ret res"
  shows "sys_reaches K chk ordered st (answer (locked st now rp') c req (verify_stage req res))"
proof -
  have "sys_step K chk ordered st (goto (locked st now rp') c (Recorded req pk))"
    using assms(1-3) by (rule recorded)
  moreover have "sys_step K chk ordered (goto (locked st now rp') c (Recorded req pk))
      (answer (locked st now rp') c req (verify_stage req res))"
    using verified [of "goto (locked st now rp') c (Recorded req pk)" c req pk K res chk ordered] assms(4)
    by simp
  ultimately show ?thesis by (meson rtranclp.rtrancl_into_rtrancl rtranclp.rtrancl_refl)
qed

text \<open>Alice's proof, stamped 0, and another request of hers a minute later.\<close>

definition race_request :: AuthRequest where
  "race_request = alice_request (gf2_proof 0 one_nonce False)"

definition later_request :: AuthRequest where
  "later_request = alice_request (gf2_proof 61 zero_nonce False)"

abbreviation race_start :: "bool sys" where
  "race_start \<equiv> sys_init 0 alice_registry ReplayProtector_default"

lemma nonces_differ: "one_nonce \<noteq> zero_nonce"
  by (simp add: one_nonce_def zero_nonce_def numeral_eq_Suc)

lemma race_simps [simp]:
  "lookup_stage gf2 None alice_registry race_request = Inr gf2_pk"
  "lookup_stage gf2 None alice_registry later_request = Inr gf2_pk"
  "timestamp (req_proof race_request) = 0" "timestamp (req_proof later_request) = 61"
  "req_user_id race_request = ''alice''" "req_user_id later_request = ''alice''"
  "nonce (req_proof race_request) = one_nonce" "nonce (req_proof later_request) = zero_nonce"
  by (simp_all add: race_request_def later_request_def)

lemma race_verify: "verify gf2 (public_point gf2_pk) (req_proof race_request) = Ret (Inr True)"
  by (simp add: race_request_def gf2_pk_def gf2_verify gf2_parity_input one_nonce_def)

lemma race_fresh [simp]: "check_freshness True t 60 t = Ret (Inr ())"
  by (simp add: check_freshness_def i64_sub_def i64_neg_def)

abbreviation cache :: "(nonce_key \<times> i64) list \<Rightarrow> ReplayProtector" where
  "cache ns \<equiv> ReplayProtector_default\<lparr>seen_nonces := ns\<rparr>"

lemma race_records:
  "record_nonce True 0 ReplayProtector_default (''alice'', one_nonce) 0 =
     (Ret (Inr ()), cache [((''alice'', one_nonce), 0)])"
  "record_nonce True 61 (cache [((''alice'', one_nonce), 0)]) (''alice'', zero_nonce) 61 =
     (Ret (Inr ()), cache [((''alice'', zero_nonce), 61)])"
  "record_nonce True 0 (cache [((''alice'', zero_nonce), 61)]) (''alice'', one_nonce) 0 =
     (Ret (Inr ()), cache [((''alice'', zero_nonce), 61), ((''alice'', one_nonce), 0)])"
  using nonces_differ
  by (simp_all add: record_nonce_def i64_sub_def retain_recent_def ReplayProtector_default_def
      ReplayProtector_new_def DEFAULT_MAX_DRIFT_SECS_def Let_def)

lemma race_first:
  "sys_reaches gf2 True ordered race_start
     (race_start\<lparr>sys_protector := cache [((''alice'', one_nonce), 0)], sys_last := 0,
        sys_conn := (\<lambda>_. Idle),
        sys_log := [(race_request, verify_stage race_request (Inr True))]\<rparr>)"
proof -
  let ?f = "goto race_start 0 (FreshOk race_request gf2_pk 0)"
  have "sys_reaches gf2 True ordered race_start ?f"
    using reach_fresh [of race_start 0 gf2 None race_request gf2_pk True ordered] by (simp add: sys_init_def)
  moreover have "sys_reaches gf2 True ordered ?f
      (answer (locked ?f 0 (cache [((''alice'', one_nonce), 0)])) 0 race_request
         (verify_stage race_request (Inr True)))"
    by (rule reach_recorded [OF _ _ _ race_verify]) (simp_all add: sys_init_def race_records)
  moreover have "(\<lambda>_. Idle)(0 := Idle) = (\<lambda>_. Idle)" by auto
  ultimately show ?thesis by (simp add: sys_init_def fun_upd_idem)
qed

theorem concurrent_one_success_witness:
  "\<exists>st. sys_reaches gf2 True True race_start st \<and> successes (sys_log st) = [race_request] \<and>
    distinct (map request_key (successes (sys_log st))) \<and> backed gf2 race_request"
proof -
  have C: "clock_in_range ReplayProtector_default 0" by (simp add: clock_in_range_def i64_max_def)
  note r = race_first [of True]
  from concurrent_one_success [OF rp_invar_default C r] r show ?thesis
    by (intro exI [of _ "race_start\<lparr>sys_protector := cache [((''alice'', one_nonce), 0)], sys_last := 0,
        sys_conn := (\<lambda>_. Idle), sys_log := [(race_request, verify_stage race_request (Inr True))]\<rparr>"])
      (simp add: successes_def)
qed

text \<open>C32: the order matters. Nothing in the code keeps tasks from entering the mutex in another
  order than that of the clock values they have read, and then the guarantee fails although
  the clock never goes back. Two connections present one proof; the second reads the clock at
  once and is suspended before the mutex; 61 seconds later a third request prunes the proof's
  nonce; the second then enters the mutex with its old clock value and is admitted: one proof,
  two successes.\<close>

theorem suspended_task_readmits:
  "\<exists>st. sys_reaches gf2 True False race_start st \<and> successes (sys_log st) = [race_request, race_request]"
proof -
  let ?P = race_request and ?Q = later_request
  let ?ok = "verify_stage ?P (Inr True)"
  let ?s1 = "goto race_start 0 (FreshOk ?P gf2_pk 0)"
  let ?s2 = "goto ?s1 1 (FreshOk ?P gf2_pk 0)"
  let ?s3 = "answer (locked ?s2 0 (cache [((''alice'', one_nonce), 0)])) 0 ?P ?ok"
  let ?s4 = "?s3\<lparr>sys_clock := 61\<rparr>"
  let ?s5 = "goto ?s4 2 (FreshOk ?Q gf2_pk 61)"
  let ?s6 = "goto (locked ?s5 61 (cache [((''alice'', zero_nonce), 61)])) 2 (Recorded ?Q gf2_pk)"
  let ?s7 = "answer (locked ?s6 0 (cache [((''alice'', zero_nonce), 61), ((''alice'', one_nonce), 0)])) 1 ?P ?ok"
  let ?R = "sys_reaches gf2 True False"
  have 1: "?R race_start ?s1"
    using reach_fresh [of race_start 0 gf2 None ?P gf2_pk True False] by (simp add: sys_init_def)
  have 2: "?R ?s1 ?s2"
    using reach_fresh [of ?s1 1 gf2 None ?P gf2_pk True False] by (simp add: sys_init_def)
  have 3: "?R ?s2 ?s3"
    by (rule reach_recorded [OF _ _ _ race_verify]) (simp_all add: sys_init_def race_records)
  have "sys_step gf2 True False ?s3 ?s4"
    by (rule tick) (simp_all add: sys_init_def clock_in_range_def i64_max_def)
  then have 4: "?R ?s3 ?s4" by (rule r_into_rtranclp)
  have 5: "?R ?s4 ?s5"
    using reach_fresh [of ?s4 2 gf2 None ?Q gf2_pk True False] by (simp add: sys_init_def)
  have "sys_step gf2 True False ?s5 ?s6"
    by (rule recorded) (simp_all add: sys_init_def race_records)
  then have 6: "?R ?s5 ?s6" by (rule r_into_rtranclp)
  have 7: "?R ?s6 ?s7"
    by (rule reach_recorded [OF _ _ _ race_verify]) (simp_all add: sys_init_def race_records)
  have "?R race_start ?s7"
    using 1 2 3 4 5 6 7 by (meson rtranclp_trans)
  moreover have "successes (sys_log ?s7) = [?P, ?P]" by (simp add: sys_init_def successes_def)
  ultimately show ?thesis by blast
qed

section \<open>The sequential handler is a run of the system\<close>

lemma reach_key:
  assumes "sys_conn st c = Idle" "lookup_stage K dberr (sys_registry st) req = Inr pk"
  shows "sys_reaches K chk ordered st (goto st c (KeyOk req pk))"
proof -
  have "sys_step K chk ordered st (goto st c (Received req))" using assms(1) by (rule receive)
  moreover have "sys_step K chk ordered (goto st c (Received req)) (goto st c (KeyOk req pk))"
    using lookup_ok [of "goto st c (Received req)" c req K dberr pk chk ordered] assms(2) by simp
  ultimately show ?thesis by (meson rtranclp.rtrancl_into_rtrancl rtranclp.rtrancl_refl)
qed

text \<open>C33: the sequential handler refines the system. What \<open>handle_request\<close> does at one instant, a
  connection of the concurrent system can do in a run of its own without interruption: from any
  state in which it is idle, with the clock not behind the last entry into the mutex, to the
  state with the handler's response sent and the handler's protector. So the sequential
  results are about runs of the system.\<close>

theorem handler_refines_system:
  assumes idle: "sys_conn st c = Idle" and last: "sys_last st \<le> sint (sys_clock st)"
    and h: "handle_request K chk (sys_clock st) dberr (sys_registry st) (sys_protector st) req = (Ret resp, rp')"
  shows "\<exists>l. sys_reaches K chk ordered st (answer (st\<lparr>sys_protector := rp', sys_last := l\<rparr>) c req resp)"
proof (cases "lookup_stage K dberr (sys_registry st) req")
  case (Inl resp')
  with h have r: "resp' = resp" "rp' = sys_protector st" by (simp_all add: handle_request_def)
  have "sys_step K chk ordered st (goto st c (Received req))" using idle by (rule receive)
  moreover have "sys_step K chk ordered (goto st c (Received req)) (answer st c req resp)"
    using lookup_refused [of "goto st c (Received req)" c req K dberr resp' chk ordered] Inl r by simp
  ultimately have "sys_reaches K chk ordered st (answer st c req resp)"
    by (meson rtranclp.rtrancl_into_rtrancl rtranclp.rtrancl_refl)
  then show ?thesis using r by (intro exI [of _ "sys_last st"]) simp
next
  case (Inr pk)
  let ?now = "sys_clock st" and ?rp = "sys_protector st" and ?p = "req_proof req"
  have key: "sys_reaches K chk ordered st (goto st c (KeyOk req pk))" using idle Inr by (rule reach_key)
  obtain r where cr: "check_and_record chk ?now ?rp (req_user_id req) ?p = (Ret r, rp')"
    using h Inr by (auto simp: handle_request_def split: prod.splits run.splits sum.splits)
  show ?thesis
  proof (cases "check_freshness chk ?now (max_drift_secs ?rp) (timestamp ?p) = Ret (Inr ())")
    case False
    then obtain e where e: "check_freshness chk ?now (max_drift_secs ?rp) (timestamp ?p) = Ret (Inl e)"
      "r = Inl e" "rp' = ?rp"
    proof -
      from cr have "check_freshness chk ?now (max_drift_secs ?rp) (timestamp ?p) = Ret r \<and> ?rp = rp'"
        unfolding check_and_record_split if_not_P [OF False] prod.inject .
      then have f: "check_freshness chk ?now (max_drift_secs ?rp) (timestamp ?p) = Ret r" "rp' = ?rp" by metis+
      show thesis
      proof (cases r)
        case (Inl e)
        show thesis by (rule that [OF f(1) [unfolded Inl] Inl f(2)])
      next
        case (Inr u)
        then have "r = Inr ()" by simp
        with f(1) False show thesis by metis
      qed
    qed
    then have "resp = replay_rejection req e" using h Inr cr by (simp add: handle_request_def)
    then have "sys_step K chk ordered (goto st c (KeyOk req pk)) (answer st c req resp)"
      using stale [of "goto st c (KeyOk req pk)" c req pk chk e K ordered] e by simp
    with key have "sys_reaches K chk ordered st (answer st c req resp)"
      by (rule rtranclp.rtrancl_into_rtrancl)
    then show ?thesis using e(3) by (intro exI [of _ "sys_last st"]) simp
  next
    case True
    let ?f = "goto st c (FreshOk req pk ?now)"
    have fr: "sys_reaches K chk ordered st ?f" using idle Inr True by (rule reach_fresh)
    have rec: "record_nonce chk ?now ?rp (req_user_id req, nonce ?p) (timestamp ?p) = (Ret r, rp')"
      using cr True by (simp add: check_and_record_split)
    show ?thesis
    proof (cases r)
      case (Inl e)
      then have "resp = replay_rejection req e" using h Inr cr by (simp add: handle_request_def)
      then have "sys_step K chk ordered ?f (answer (locked st ?now rp') c req resp)"
        using replayed [of ?f c req pk ?now ordered chk e rp' K] rec Inl last by simp
      with fr have "sys_reaches K chk ordered st (answer (locked st ?now rp') c req resp)"
        by (rule rtranclp.rtrancl_into_rtrancl)
      then show ?thesis by (intro exI [of _ "sint ?now"]) simp
    next
      case ok: (Inr u)
      then obtain res where v: "verify K (public_point pk) ?p = Ret res" "resp = verify_stage req res"
        using h Inr cr by (auto simp: handle_request_def run_convs)
      have "sys_reaches K chk ordered ?f (answer (locked ?f ?now rp') c req (verify_stage req res))"
        using rec ok last v(1) by (intro reach_recorded) simp_all
      with fr have "sys_reaches K chk ordered st (answer (locked ?f ?now rp') c req (verify_stage req res))"
        by (rule rtranclp_trans)
      then show ?thesis using v(2) by (intro exI [of _ "sint ?now"]) simp
    qed
  qed
qed

theorem handler_refines_system_witness:
  "\<exists>l. sys_reaches gf2 True True race_start (answer (race_start\<lparr>sys_protector :=
      cache [((''alice'', one_nonce), 0)], sys_last := l\<rparr>) 3 race_request
      (verify_stage race_request (Inr True)))"
proof (rule handler_refines_system)
  show "handle_request gf2 True (sys_clock race_start) None (sys_registry race_start)
      (sys_protector race_start) race_request =
    (Ret (verify_stage race_request (Inr True)), cache [((''alice'', one_nonce), 0)])"
    using race_verify race_records(1) by (simp add: sys_init_def handle_request_def check_and_record_split)
qed (simp_all add: sys_init_def)

end
