(* ===== verification/Cli_Keys.thy ===== *)
theory Cli_Keys
  imports Storage "HOL-Library.Sublist"
begin

text \<open>
  The key handling of the command-line programs under \<open>src/bin/\<close>: the hexadecimal form of keys
  (\<open>hex_string\<close>, \<open>hex_decode\<close>, the same in \<open>user_client.rs\<close> and \<open>kafka_prover.rs\<close>), the key file
  that is loaded or created with automatic enrollment, and \<open>enroll_user\<close>. The file system is
  a map from names to contents, the database file a \<open>Connection\<close>; what reading, writing and the
  database engine report is an argument.
\<close>

section \<open>Hexadecimal\<close>

definition hex_digit :: "nat \<Rightarrow> char" where
  "hex_digit d = (if d < 10 then char_of (48 + d) else char_of (87 + d))"

definition hex_string :: "bytes \<Rightarrow> string" where
  "hex_string bs = concat (map (\<lambda>b. [hex_digit (unat b div 16), hex_digit (unat b mod 16)]) bs)"

text \<open>\<open>char::to_digit(16)\<close>.\<close>

definition to_digit16 :: "char \<Rightarrow> nat option" where
  "to_digit16 c =
     (let n = of_char c :: nat in
      if 48 \<le> n \<and> n \<le> 57 then Some (n - 48)
      else if 97 \<le> n \<and> n \<le> 102 then Some (n - 87)
      else if 65 \<le> n \<and> n \<le> 70 then Some (n - 55)
      else None)"

text \<open>\<open>u8::from_str_radix(_, 16)\<close> on a slice of two bytes: a leading plus sign is allowed.\<close>

definition u8_from_hex :: "char \<Rightarrow> char \<Rightarrow> (string, byte) result" where
  "u8_from_hex a b =
     (case (if a = CHR ''+'' then Some 0 else to_digit16 a, to_digit16 b) of
        (Some h, Some l) \<Rightarrow> Inr (of_nat (16 * h + l))
      | _ \<Rightarrow> Inl ''invalid digit found in string'')"

text \<open>A byte that does not start a character: slicing there panics.\<close>

definition continuation_byte :: "char \<Rightarrow> bool" where
  "continuation_byte c \<longleftrightarrow> 128 \<le> (of_char c :: nat) \<and> (of_char c :: nat) < 192"

fun hex_decode :: "string \<Rightarrow> (string, bytes) result run" where
  "hex_decode [] = Ret (Inr [])"
| "hex_decode [c] = Panic ''byte index out of bounds''"
| "hex_decode (a # b # cs) =
     (if cs \<noteq> [] \<and> continuation_byte (hd cs) then Panic ''byte index is not a char boundary''
      else (case u8_from_hex a b of
              Inl e \<Rightarrow> Ret (Inl e)
            | Inr x \<Rightarrow>
                run_bind (hex_decode cs) (\<lambda>res. Ret (case res of Inl e \<Rightarrow> Inl e | Inr xs \<Rightarrow> Inr (x # xs)))))"

text \<open>\<open>str::trim\<close>: the characters with the property \<open>White_Space\<close>, in UTF-8.\<close>

definition white_space :: "string list" where
  "white_space = map (map char_of)
     ([[9], [10], [11], [12], [13], [32], [0xC2, 0x85], [0xC2, 0xA0], [0xE1, 0x9A, 0x80]]
      @ map (\<lambda>n. [0xE2, 0x80, n]) [0x80..<0x8B]
      @ [[0xE2, 0x80, 0xA8], [0xE2, 0x80, 0xA9], [0xE2, 0x80, 0xAF], [0xE2, 0x81, 0x9F],
         [0xE3, 0x80, 0x80 :: nat]])"

function trim_start :: "string \<Rightarrow> string" where
  "trim_start s =
     (case find (\<lambda>w. w \<noteq> [] \<and> prefix w s) white_space of
        None \<Rightarrow> s
      | Some w \<Rightarrow> trim_start (drop (length w) s))"
  by pat_completeness auto
termination
proof (relation "measure length")
  fix s w assume "find (\<lambda>w. w \<noteq> [] \<and> prefix w s) white_space = Some w"
  then have "w \<noteq> []" "prefix w s" by (auto simp: find_Some_iff)
  then show "(drop (length w) s, s) \<in> measure length" by (auto simp: prefix_def)
qed simp

function trim_end :: "string \<Rightarrow> string" where
  "trim_end s =
     (case find (\<lambda>w. w \<noteq> [] \<and> suffix w s) white_space of
        None \<Rightarrow> s
      | Some w \<Rightarrow> trim_end (take (length s - length w) s))"
  by pat_completeness auto
termination
proof (relation "measure length")
  fix s w assume "find (\<lambda>w. w \<noteq> [] \<and> suffix w s) white_space = Some w"
  then have "w \<noteq> []" "suffix w s" by (auto simp: find_Some_iff)
  then show "(take (length s - length w) s, s) \<in> measure length" by (auto simp: suffix_def)
qed simp

declare trim_start.simps [simp del] trim_end.simps [simp del]

definition trim :: "string \<Rightarrow> string" where
  "trim s = trim_end (trim_start s)"

section \<open>Key files\<close>

datatype cli_error = CliIo string | CliParse string | CliZkp ZkpError | CliStorage StorageError

type_synonym files = "string \<Rightarrow> string option"

record 'sc key_env =
  ke_random :: 'sc
  ke_now :: i64
  ke_read_err :: "string option"
  ke_write_err :: "string option"
  ke_open_err :: "string option"
  ke_table_err :: "string option"
  ke_register_err :: "string option"

definition key_file :: "string \<Rightarrow> string" where
  "key_file user = user @ ''.key''"

definition load_secret_key ::
  "('pt, 'sc, 'enc) k256 \<Rightarrow> string \<Rightarrow> (cli_error, 'sc UserSecretKey) result run" where
  "load_secret_key K hex =
     run_bind (hex_decode (trim hex)) (\<lambda>res.
       case res of
         Inl e \<Rightarrow> Ret (Inl (CliParse e))
       | Inr bytes \<Rightarrow>
           run_bind (sk_from_bytes K bytes) (\<lambda>res.
             Ret (case res of Inl e \<Rightarrow> Inl (CliZkp e) | Inr sk \<Rightarrow> Inr sk)))"

definition database_of :: "UserRegistry \<Rightarrow> Connection" where
  "database_of reg = \<lparr>user_table = Some (user_rows reg)\<rparr>"

text \<open>Opening the database file: the connection, then the table.\<close>

definition open_database :: "'sc key_env \<Rightarrow> Connection \<Rightarrow> (StorageError, UserRegistry) result" where
  "open_database env db =
     open_registry (case ke_open_err env of Some e \<Rightarrow> Inl e | None \<Rightarrow> Inr db) (ke_table_err env)"

text \<open>The automatic enrollment: the outcome of \<open>register\<close> is dropped.\<close>

definition auto_enroll ::
  "('pt, 'sc, 'enc) k256 \<Rightarrow> 'sc key_env \<Rightarrow> string \<Rightarrow> 'pt UserPublicKey \<Rightarrow> Connection \<Rightarrow> Connection" where
  "auto_enroll K env user pk db =
     (case open_database env db of
        Inl _ \<Rightarrow> db
      | Inr registry \<Rightarrow>
          database_of (snd (register K (ke_register_err env) (ke_now env) registry user pk)))"

definition obtain_secret_key ::
  "('pt, 'sc, 'enc) k256 \<Rightarrow> 'sc key_env \<Rightarrow> bool \<Rightarrow> string \<Rightarrow> files \<Rightarrow> Connection \<Rightarrow>
   (cli_error, 'sc UserSecretKey) result run \<times> files \<times> Connection" where
  "obtain_secret_key K env unregistered user fs db =
     (case fs (key_file user) of
        Some hex \<Rightarrow>
          ((case ke_read_err env of
              Some e \<Rightarrow> Ret (Inl (CliIo e))
            | None \<Rightarrow> load_secret_key K hex), fs, db)
      | None \<Rightarrow>
          (let sk = generate (ke_random env);
               pk = public_key K sk;
               db' = (if unregistered then db else auto_enroll K env user pk db);
               fs' = (case ke_write_err env of
                        Some _ \<Rightarrow> fs
                      | None \<Rightarrow> fs(key_file user \<mapsto> hex_string (sc_to_bytes K (secret_scalar sk))))
           in (Ret (Inr sk), fs', db')))"

text \<open>\<open>enroll_user\<close> after its arguments are read: the listing, or the enrollment of one user.\<close>

fun list_keys ::
  "('pt, 'sc, 'enc) k256 \<Rightarrow> (string \<Rightarrow> string option) \<Rightarrow> UserRegistry \<Rightarrow> string list \<Rightarrow>
   (cli_error, (string \<times> string) list) result run" where
  "list_keys K lookup_err reg [] = Ret (Inr [])"
| "list_keys K lookup_err reg (u # us) =
     (case get_public_key K (lookup_err u) reg u of
        Inl e \<Rightarrow> Ret (Inl (CliStorage e))
      | Inr None \<Rightarrow> Panic ''called `Option::unwrap()` on a `None` value''
      | Inr (Some pk) \<Rightarrow>
          run_bind (list_keys K lookup_err reg us) (\<lambda>res.
            Ret (case res of Inl e \<Rightarrow> Inl e | Inr rows \<Rightarrow> Inr ((u, hex_string (pk_to_bytes K pk)) # rows))))"

definition enroll_list ::
  "('pt, 'sc, 'enc) k256 \<Rightarrow> string option \<Rightarrow> (string \<Rightarrow> string option) \<Rightarrow> UserRegistry \<Rightarrow>
   (cli_error, (string \<times> string) list) result run" where
  "enroll_list K list_err lookup_err reg =
     (case list_users list_err reg of
        Inl e \<Rightarrow> Ret (Inl (CliStorage e))
      | Inr users \<Rightarrow> list_keys K lookup_err reg users)"

definition enroll_one ::
  "('pt, 'sc, 'enc) k256 \<Rightarrow> 'sc key_env \<Rightarrow> string option \<Rightarrow> string \<Rightarrow> files \<Rightarrow> UserRegistry \<Rightarrow>
   (cli_error, unit) result run \<times> files \<times> UserRegistry" where
  "enroll_one K env check_err user fs reg =
     (let sk = generate (ke_random env); pk = public_key K sk in
      case ke_write_err env of
        Some e \<Rightarrow> (Ret (Inl (CliIo e)), fs, reg)
      | None \<Rightarrow>
          (let fs' = fs(key_file user \<mapsto> hex_string (sc_to_bytes K (secret_scalar sk))) in
           case register K (ke_register_err env) (ke_now env) reg user pk of
             (Inl e, reg') \<Rightarrow> (Ret (Inl (CliStorage e)), fs', reg')
           | (Inr _, reg') \<Rightarrow>
               ((case is_registered check_err reg' user of
                   Inl e \<Rightarrow> Ret (Inl (CliStorage e))
                 | Inr False \<Rightarrow> Panic ''assertion failed: registry.is_registered(&user_name)?''
                 | Inr True \<Rightarrow> Ret (Inr ())), fs', reg')))"

section \<open>The hexadecimal form is read back\<close>

lemma hex_digit_facts:
  assumes "d < 16"
  shows "to_digit16 (hex_digit d) = Some d" "hex_digit d \<noteq> CHR ''+''" "\<not> continuation_byte (hex_digit d)"
    "33 \<le> (of_char (hex_digit d) :: nat) \<and> (of_char (hex_digit d) :: nat) < 128"
proof -
  have c: "of_char (hex_digit d) = (if d < 10 then 48 + d else 87 + d)"
    using assms by (simp add: hex_digit_def)
  show "to_digit16 (hex_digit d) = Some d" using assms by (simp add: to_digit16_def c)
  show "hex_digit d \<noteq> CHR ''+''"
  proof
    assume "hex_digit d = CHR ''+''"
    then have "of_char (hex_digit d) = (43 :: nat)" by simp
    with c show False by (simp split: if_splits)
  qed
  show "\<not> continuation_byte (hex_digit d)" using assms by (simp add: continuation_byte_def c)
  show "33 \<le> (of_char (hex_digit d) :: nat) \<and> (of_char (hex_digit d) :: nat) < 128"
    using assms by (simp add: c)
qed

definition visible :: "char \<Rightarrow> bool" where
  "visible c \<longleftrightarrow> 33 \<le> (of_char c :: nat) \<and> (of_char c :: nat) < 128"

lemma white_space_ends: "\<forall>w \<in> set white_space. \<not> visible (hd w) \<and> \<not> visible (last w)"
  by (simp add: white_space_def visible_def upt_conv_Cons)

lemma trim_start_visible: "visible c \<Longrightarrow> trim_start (c # s) = c # s"
proof -
  assume "visible c"
  then have "\<forall>w \<in> set white_space. \<not> (w \<noteq> [] \<and> prefix w (c # s))"
    using white_space_ends by (auto simp: prefix_Cons)
  then have "find (\<lambda>w. w \<noteq> [] \<and> prefix w (c # s)) white_space = None" by (simp add: find_None_iff)
  then show ?thesis by (simp add: trim_start.simps)
qed

lemma trim_end_visible: "visible c \<Longrightarrow> trim_end (s @ [c]) = s @ [c]"
proof -
  assume "visible c"
  then have "\<forall>w \<in> set white_space. \<not> (w \<noteq> [] \<and> suffix w (s @ [c]))"
    using white_space_ends by (auto simp: suffix_snoc)
  then have "find (\<lambda>w. w \<noteq> [] \<and> suffix w (s @ [c])) white_space = None" by (simp add: find_None_iff)
  then show ?thesis by (simp add: trim_end.simps)
qed

lemma trim_Nil: "trim [] = []"
proof -
  have "find (\<lambda>w. w \<noteq> [] \<and> prefix w []) white_space = None" "find (\<lambda>w. w \<noteq> [] \<and> suffix w []) white_space = None"
    by (simp_all add: find_None_iff)
  then show ?thesis by (simp add: trim_def trim_start.simps trim_end.simps)
qed

lemma trim_visible: "\<forall>c \<in> set s. visible c \<Longrightarrow> trim s = s"
proof (cases s)
  case Nil
  then show ?thesis by (simp add: trim_Nil)
next
  case (Cons c cs)
  assume v: "\<forall>c \<in> set s. visible c"
  then have "trim_start s = s" using Cons by (simp add: trim_start_visible)
  moreover have "s = butlast s @ [last s]" "visible (last s)" using v Cons by simp_all
  ultimately show ?thesis unfolding trim_def by (metis trim_end_visible)
qed

lemma hex_string_Nil: "hex_string [] = []"
  by (simp add: hex_string_def)

lemma hex_string_Cons:
  "hex_string (b # bs) = hex_digit (unat b div 16) # hex_digit (unat b mod 16) # hex_string bs"
  by (simp add: hex_string_def)

lemma nibbles: "unat (b :: byte) div 16 < 16" "unat (b :: byte) mod 16 < 16"
proof -
  have "unat b < 256" using unsigned_less [of b] by simp
  then show "unat b div 16 < 16" by simp
qed simp

lemma hex_string_visible: "c \<in> set (hex_string bs) \<Longrightarrow> visible c \<and> \<not> continuation_byte c"
  by (induction bs) (auto simp: hex_string_Nil hex_string_Cons visible_def hex_digit_facts nibbles)

lemma hex_decode_string: "hex_decode (hex_string bs) = Ret (Inr bs)"
proof (induction bs)
  case Nil
  then show ?case by (simp add: hex_string_def)
next
  case (Cons b bs)
  have "u8_from_hex (hex_digit (unat b div 16)) (hex_digit (unat b mod 16)) = Inr b"
    by (simp add: u8_from_hex_def hex_digit_facts nibbles)
  moreover have "hex_string bs = [] \<or> \<not> continuation_byte (hd (hex_string bs))"
    using hex_string_visible [of "hd (hex_string bs)" bs] by auto
  ultimately show ?case using Cons.IH by (simp add: hex_string_Cons)
qed

section \<open>Key files and enrollment\<close>

lemma load_written_key:
  assumes B: "k256_bytes_ok K"
  shows "load_secret_key K (hex_string (sk_to_bytes K sk)) = Ret (Inr sk)"
proof -
  have "trim (hex_string (sk_to_bytes K sk)) = hex_string (sk_to_bytes K sk)"
    using hex_string_visible by (intro trim_visible) blast
  moreover have "sk_from_bytes K (sk_to_bytes K sk) = Ret (Inr sk)"
    using k256_bytes_okD [OF B] by (cases sk) (simp add: sk_from_bytes_def sk_to_bytes_def)
  ultimately show ?thesis by (simp add: load_secret_key_def hex_decode_string)
qed

text \<open>C38: key files. The first run for a user without a key file makes a key and, when the file is
  written, every later run loads exactly that key and changes neither the key file nor the
  database. When the user is to be enrolled and the database reports no error, the bank's
  table then holds the public key of that secret, under which later proofs verify. Since later
  runs never touch the database, an enrollment that failed in the first run (its outcome is
  dropped) is never repeated.\<close>

theorem key_file_reused:
  assumes B: "k256_bytes_ok K"
    and none: "fs (key_file user) = None" and written: "ke_write_err env = None"
    and first: "obtain_secret_key K env unregistered user fs db = (Ret (Inr sk), fs', db')"
    and readable: "ke_read_err env' = None"
  shows "obtain_secret_key K env' unregistered' user fs' db'' = (Ret (Inr sk), fs', db'') \<and>
    (\<not> unregistered \<and> public_point (public_key K sk) \<noteq> IDENTITY K \<and> ke_open_err env = None \<and>
      ke_table_err env = None \<and> ke_register_err env = None \<longrightarrow>
      (\<exists>reg. open_database env db' = Inr reg \<and> get_public_key K None reg user = Inr (Some (public_key K sk))))"
proof
  have sk: "sk = generate (ke_random env)"
    and fs': "fs' = fs(key_file user \<mapsto> hex_string (sk_to_bytes K sk))"
    and db': "db' = (if unregistered then db else auto_enroll K env user (public_key K sk) db)"
    using first none written by (auto simp: obtain_secret_key_def Let_def sk_to_bytes_def)
  show "obtain_secret_key K env' unregistered' user fs' db'' = (Ret (Inr sk), fs', db'')"
    using readable load_written_key [OF B, of sk] by (simp add: obtain_secret_key_def fs')
  show "\<not> unregistered \<and> public_point (public_key K sk) \<noteq> IDENTITY K \<and> ke_open_err env = None \<and>
      ke_table_err env = None \<and> ke_register_err env = None \<longrightarrow>
      (\<exists>reg. open_database env db' = Inr reg \<and> get_public_key K None reg user = Inr (Some (public_key K sk)))"
  proof (intro impI, elim conjE)
    assume a: "\<not> unregistered" "public_point (public_key K sk) \<noteq> IDENTITY K" "ke_open_err env = None"
      "ke_table_err env = None" "ke_register_err env = None"
    obtain c where "encoded_from_bytes K (pk_to_bytes K (public_key K sk)) = Inr c"
      "from_encoded_point K c = Some (public_point (public_key K sk))"
      unfolding pk_to_bytes_def by (rule point_decodes [OF B a(2)])
    then have "pk_from_bytes K (pk_to_bytes K (public_key K sk)) = Inr (public_key K sk)"
      by (simp add: pk_from_bytes_def)
    then show "\<exists>reg. open_database env db' = Inr reg \<and>
        get_public_key K None reg user = Inr (Some (public_key K sk))"
      using a by (simp add: db' auto_enroll_def open_database_def open_registry_def init_registry_def
          database_of_def register_def get_public_key_def Let_def update_conv)
  qed
qed

text \<open>An environment in which nothing fails, for the witness.\<close>

definition calm_env :: "bool key_env" where
  "calm_env = \<lparr>ke_random = True, ke_now = 0, ke_read_err = None, ke_write_err = None,
     ke_open_err = None, ke_table_err = None, ke_register_err = None\<rparr>"

theorem key_file_reused_witness:
  "\<exists>fs' db'. obtain_secret_key gf2 calm_env False ''bob'' (\<lambda>_. None) \<lparr>user_table = None\<rparr> =
      (Ret (Inr gf2_sk), fs', db') \<and>
    obtain_secret_key gf2 calm_env False ''bob'' fs' db' = (Ret (Inr gf2_sk), fs', db') \<and>
    (\<exists>reg. open_database calm_env db' = Inr reg \<and> get_public_key gf2 None reg ''bob'' = Inr (Some gf2_pk))"
proof -
  obtain fs' db' where first: "obtain_secret_key gf2 calm_env False ''bob'' (\<lambda>_. None) \<lparr>user_table = None\<rparr> =
      (Ret (Inr gf2_sk), fs', db')"
    by (simp add: obtain_secret_key_def generate_def gf2_sk_def calm_env_def Let_def)
  have none: "(\<lambda>_. None :: string option) (key_file ''bob'') = None" by simp
  have calm: "ke_write_err calm_env = None" "ke_read_err calm_env = None" "ke_open_err calm_env = None"
    "ke_table_err calm_env = None" "ke_register_err calm_env = None" by (simp_all add: calm_env_def)
  from key_file_reused [OF gf2_bytes_ok none calm(1) first calm(2), of False db'] first calm
  show ?thesis by (auto simp: gf2_public_key gf2_pk_def)
qed

text \<open>An odd number of hexadecimal digits makes \<open>hex_decode\<close> panic instead of returning an error.\<close>

theorem odd_hex_panics:
  assumes "\<forall>c \<in> set s. to_digit16 c \<noteq> None" "odd (length s)"
  shows "panics (hex_decode s)"
  using assms
proof (induction s rule: hex_decode.induct)
  case (3 a b cs)
  obtain x where "u8_from_hex a b = Inr x" using 3(2)
    by (cases "a = CHR ''+''") (auto simp: u8_from_hex_def)
  moreover have "cs \<noteq> [] \<longrightarrow> \<not> continuation_byte (hd cs)"
    using 3(2) by (cases cs) (auto simp: to_digit16_def continuation_byte_def Let_def split: if_splits)
  ultimately show ?case using 3 by simp
qed simp_all

theorem odd_hex_panics_witness: "panics (hex_decode ''abc'')"
  by (rule odd_hex_panics) (simp_all add: to_digit16_def)

end
