(* ===== verification/Tcp_Client.thy ===== *)
theory Tcp_Client
  imports Tcp_Server
begin

text \<open>
  \<open>src/tcp/client.rs\<close>: the prover's side of the TCP protocol. The randomness of the proof, the
  clock, and what the framed connection does (whether the send fails, what the next item of
  the stream is) are arguments. \<open>tamper_scalar\<close> is the simulated attack, which the Kafka prover
  and the command-line client repeat.
\<close>

section \<open>The client\<close>

text \<open>\<open>connect\<close>: the outcome of connecting, then a fresh codec on the stream.\<close>

definition client_connect :: "string option \<Rightarrow> (string, ZkpMessageCodec) result" where
  "client_connect io_err = (case io_err of Some e \<Rightarrow> Inl e | None \<Rightarrow> Inr codec_new)"

definition tamper_scalar :: "Proof \<Rightarrow> Proof" where
  "tamper_scalar p =
     (case rev (s_scalar p) of
        [] \<Rightarrow> p
      | last_byte # front \<Rightarrow> p\<lparr>s_scalar := rev front @ [last_byte + 1]\<rparr>)"

text \<open>The request that \<open>authenticate\<close> builds.\<close>

definition client_request ::
  "('pt, 'sc, 'enc) k256 \<Rightarrow> string \<Rightarrow> 'sc UserSecretKey \<Rightarrow> bool \<Rightarrow> i64 \<Rightarrow> bytes \<Rightarrow> 'sc \<Rightarrow>
   AuthRequest run" where
  "client_request K user_id sk tamper now nc k =
     (let pk = public_key K sk in
      run_bind (generate_proof K sk pk now nc k) (\<lambda>p.
        Ret \<lparr>req_user_id = user_id, req_public_key = pk_to_bytes K pk,
             req_proof = (if tamper then tamper_scalar p else p)\<rparr>))"

definition send_raw_request ::
  "ZkpError option \<Rightarrow> (ZkpError, AuthResponse) result option \<Rightarrow> (ZkpError, AuthResponse) result" where
  "send_raw_request send_err next_item =
     (case send_err of
        Some e \<Rightarrow> Inl e
      | None \<Rightarrow>
          (case next_item of
             Some (Inr resp) \<Rightarrow> Inr resp
           | Some (Inl e) \<Rightarrow> Inl e
           | None \<Rightarrow> Inl (SerializationError
               ''Connection closed by server before response was received'')))"

text \<open>\<open>authenticate\<close>: the peer is a function of the request.\<close>

definition authenticate ::
  "('pt, 'sc, 'enc) k256 \<Rightarrow> string \<Rightarrow> 'sc UserSecretKey \<Rightarrow> bool \<Rightarrow> i64 \<Rightarrow> bytes \<Rightarrow> 'sc \<Rightarrow>
   (AuthRequest \<Rightarrow> ZkpError option \<times> (ZkpError, AuthResponse) result option) \<Rightarrow>
   (ZkpError, AuthResponse) result run" where
  "authenticate K user_id sk tamper now nc k peer =
     run_bind (client_request K user_id sk tamper now nc k) (\<lambda>req.
       Ret (send_raw_request (fst (peer req)) (snd (peer req))))"

section \<open>Tampering is detected\<close>

lemma tamper_changes: "s_scalar p \<noteq> [] \<Longrightarrow> s_scalar (tamper_scalar p) \<noteq> s_scalar p"
  by (cases "s_scalar p" rule: rev_cases) (simp_all add: tamper_scalar_def)

lemma tamper_only_scalar: "tamper_scalar p = p\<lparr>s_scalar := s_scalar (tamper_scalar p)\<rparr>"
  by (simp add: tamper_scalar_def split: list.splits)

lemma tamper_fields [simp]:
  "timestamp (tamper_scalar p) = timestamp p" "nonce (tamper_scalar p) = nonce p"
  "r_point (tamper_scalar p) = r_point p" "length (s_scalar (tamper_scalar p)) = length (s_scalar p)"
  by (cases "s_scalar p" rule: rev_cases; simp add: tamper_scalar_def)+

lemma tampered_not_verified:
  assumes B: "k256_bytes_ok K" and G: "k256_group_ok K" and k: "k \<noteq> SC_ZERO K"
    and gen: "generate_proof K sk (public_key K sk) ts nc k = Ret p"
  shows "verify K (public_point (public_key K sk)) (tamper_scalar p) \<noteq> Ret (Inr True)"
proof -
  have gen': "generate_proof_with_time K sk (public_key K sk) ts nc k = Ret p"
    using gen by (simp add: generate_proof_def)
  then have "length (s_scalar p) = 32"
    using k256_bytes_okD [OF B] by (auto simp: generate_proof_with_time_def Let_def run_convs)
  then have "s_scalar (tamper_scalar p) \<noteq> s_scalar p" by (intro tamper_changes) auto
  with honest_proof_verifies [OF B G k gen'] show ?thesis
    by (subst tamper_only_scalar) (rule response_unique [OF B G])
qed

text \<open>C21: the client's simulated attack fails. For a user registered with the key of \<open>sk\<close>, the
  request that \<open>authenticate\<close> builds with \<open>tamper\<close> set is never answered with success, whatever
  the server's clock and protector: the last byte of the response is changed, also when it
  wraps from 255 to 0, and the response to a challenge is unique.\<close>

theorem tampered_client_refused:
  assumes B: "k256_bytes_ok K" and G: "k256_group_ok K" and k: "k \<noteq> SC_ZERO K"
    and reg: "get_public_key K dberr reg u = Inr (Some (public_key K sk))"
    and req: "client_request K u sk True ts nc k = Ret req"
  shows "\<not> granted (fst (handle_request K chk now dberr reg rp req))"
proof -
  obtain p where p: "generate_proof K sk (public_key K sk) ts nc k = Ret p"
    and r: "req_user_id req = u" "req_proof req = tamper_scalar p"
    using req by (auto simp: client_request_def Let_def run_convs)
  have "\<not> proof_verifies K (tcp_call now dberr reg req)"
    using tampered_not_verified [OF B G k p] reg r by (simp add: proof_verifies_def)
  then show ?thesis
    using handle_request_service [of K chk now dberr reg rp req]
    by (simp add: service_step_def gated_def prod_eq_iff)
qed

lemma gf2_honest_proof:
  "generate_proof gf2 gf2_sk gf2_pk 0 one_nonce True = Ret (gf2_proof 0 one_nonce False)"
  by (simp add: generate_proof_def generate_proof_with_time_def gf2_challenge gf2_parity_input
      gf2_sk_def gf2_pk_def schnorr_response_def gf2_proof_def one_nonce_def)

lemma alice_client_request:
  "client_request gf2 ''alice'' gf2_sk tamper 0 one_nonce True =
    Ret (alice_request (if tamper then tamper_scalar (gf2_proof 0 one_nonce False)
                        else gf2_proof 0 one_nonce False))"
  by (simp add: client_request_def Let_def gf2_public_key gf2_honest_proof alice_request_def)

theorem tampered_client_refused_witness:
  "\<not> granted (fst (handle_request gf2 True 0 None alice_registry ReplayProtector_default
      (alice_request (tamper_scalar (gf2_proof 0 one_nonce False)))))"
proof (rule tampered_client_refused [OF gf2_bytes_ok gf2_group_ok])
  show "client_request gf2 ''alice'' gf2_sk True 0 one_nonce True =
      Ret (alice_request (tamper_scalar (gf2_proof 0 one_nonce False)))"
    using alice_client_request [of True] by simp
qed (simp_all add: gf2_public_key)

end
