(* ===== verification/Kafka_Verifier.thy ===== *)
theory Kafka_Verifier
  imports Tcp_Server
begin

text \<open>
  \<open>src/kafka/verifier.rs\<close>: the worker that consumes proof requests from a topic and publishes
  the results. \<open>kafka_decision\<close> is the decision of \<open>process_record\<close>, \<open>process_record\<close> the whole
  handler of one record, \<open>worker_batch\<close> the loop over fetched records, \<open>worker_run\<close> the select
  loop. The broker is external: what a fetch returns for the offset it is asked for, the outcome
  of \<open>produce\<close> and the offset queries are inputs; what is assumed of the fetches is the predicate
  \<open>fetches_ok\<close>. Offsets are
  integers (\<open>i64\<close> in the code; a partition counts its records from 0). Sleeps have no
  counterpart, record headers are always empty and record timestamps are not read.
\<close>

section \<open>The worker\<close>

record KafkaVerifierWorker =
  worker_registry :: UserRegistry
  worker_protector :: ReplayProtector

text \<open>\<open>new\<close>: the verdict of the connection to the broker, then the default registry.\<close>

definition worker_new :: "string option \<Rightarrow> string option \<Rightarrow> (string, KafkaVerifierWorker) result run" where
  "worker_new broker_err dberr =
     (case broker_err of
        Some e \<Rightarrow> Ret (Inl e)
      | None \<Rightarrow>
          (case in_memory dberr of
             Inl _ \<Rightarrow> Panic ''Failed to init in-memory registry''
           | Inr reg \<Rightarrow> Ret (Inr \<lparr>worker_registry = reg, worker_protector = ReplayProtector_default\<rparr>)))"

definition worker_with_registry :: "KafkaVerifierWorker \<Rightarrow> UserRegistry \<Rightarrow> KafkaVerifierWorker" where
  "worker_with_registry w reg = w\<lparr>worker_registry := reg\<rparr>"

definition worker_with_protector :: "KafkaVerifierWorker \<Rightarrow> ReplayProtector \<Rightarrow> KafkaVerifierWorker" where
  "worker_with_protector w rp = w\<lparr>worker_protector := rp\<rparr>"

record kafka_record =
  rec_key :: "bytes option"
  rec_value :: "bytes option"

text \<open>The serializers of the two events.\<close>

record kafka_codecs =
  req_json :: "KafkaAuthRequest serde_json"
  req_bin :: "KafkaAuthRequest bincode"
  res_json :: "KafkaAuthResponse serde_json"

text \<open>What \<open>anyhow::Error\<close> can hold here.\<close>

datatype worker_error = EngineError ZkpError | BrokerError string

text \<open>What comes of \<open>produce\<close>: success, or an error, which the client library can report also
  when the broker has appended the record (the flag), for example when the acknowledgement is
  lost.\<close>

datatype produce_outcome = Produced | ProduceFailed string bool

definition appended :: "produce_outcome \<Rightarrow> 'r \<Rightarrow> 'r list" where
  "appended outcome rec =
     (case outcome of Produced \<Rightarrow> [rec] | ProduceFailed e written \<Rightarrow> if written then [rec] else [])"

lemma appended_simps [simp]:
  "appended Produced rec = [rec]" "appended (ProduceFailed e written) rec = (if written then [rec] else [])"
  by (simp_all add: appended_def)

text \<open>The surroundings of the processing of one record: the clock in seconds, when the response
  is made in milliseconds, the database, and what comes of producing the response.\<close>

record record_env =
  env_now :: i64
  env_now_millis :: i64
  env_dberr :: "string option"
  env_registry :: UserRegistry
  env_produce :: produce_outcome

section \<open>One record\<close>

definition kafka_decision ::
  "('pt, 'sc, 'enc) k256 \<Rightarrow> bool \<Rightarrow> i64 \<Rightarrow> string option \<Rightarrow> UserRegistry \<Rightarrow> ReplayProtector \<Rightarrow>
   KafkaAuthRequest \<Rightarrow> (bool \<times> string) run \<times> ReplayProtector" where
  "kafka_decision K chk now dberr reg rp req =
     (case get_public_key K dberr reg (kreq_user_id req) of
        Inr (Some registered_pk) \<Rightarrow>
          if kreq_public_key req \<noteq> pk_to_bytes K registered_pk
          then (Ret (False, ''Authentication failed: Public key does not match bank records''), rp)
          else (case check_and_record chk now rp (kreq_user_id req) (kreq_proof req) of
                  (Panic m, rp') \<Rightarrow> (Panic m, rp')
                | (Ret (Inl replay_err), rp') \<Rightarrow>
                    (Ret (False, ''Security rejection: '' @ ReplayError_display replay_err), rp')
                | (Ret (Inr _), rp') \<Rightarrow>
                    (run_bind (verify K (public_point registered_pk) (kreq_proof req)) (\<lambda>res.
                       case res of
                         Inr True \<Rightarrow> Ret (True, ''ZKP Identity verified successfully for ''
                                          @ squote (kreq_user_id req))
                       | Inr False \<Rightarrow> Ret (False, ''Verification failed: Mathematical check failed'')
                       | Inl e \<Rightarrow> Ret (False, ''Cryptographic math error: '' @ ZkpError_display e)), rp'))
      | Inr None \<Rightarrow>
          (Ret (False, ''Authentication failed: User '' @ squote (kreq_user_id req)
             @ '' is not registered with bank''), rp)
      | Inl e \<Rightarrow> (Ret (False, ''Database storage error: '' @ StorageError_display e), rp))"

text \<open>JSON first, then bincode; the error reported is the one of bincode.\<close>

definition parse_request :: "kafka_codecs \<Rightarrow> bytes \<Rightarrow> (ZkpError, KafkaAuthRequest) result" where
  "parse_request C bytes =
     (case kreq_from_json_bytes (req_json C) bytes of
        Inr r \<Rightarrow> Inr r
      | Inl _ \<Rightarrow> kreq_from_bincode_bytes (req_bin C) bytes)"

text \<open>The result, the records appended to the response topic, and the protector.\<close>

definition process_record ::
  "('pt, 'sc, 'enc) k256 \<Rightarrow> kafka_codecs \<Rightarrow> bool \<Rightarrow> record_env \<Rightarrow> ReplayProtector \<Rightarrow> kafka_record \<Rightarrow>
   (worker_error, unit) result run \<times> kafka_record list \<times> ReplayProtector" where
  "process_record K C chk env rp rec =
     (case rec_value rec of
        None \<Rightarrow> (Ret (Inr ()), [], rp)
      | Some value \<Rightarrow>
          (case parse_request C value of
             Inl e \<Rightarrow> (Ret (Inl (EngineError e)), [], rp)
           | Inr req \<Rightarrow>
               (case kafka_decision K chk (env_now env) (env_dberr env) (env_registry env) rp req of
                  (Panic m, rp') \<Rightarrow> (Panic m, [], rp')
                | (Ret (success, message), rp') \<Rightarrow>
                    (case kres_to_json_bytes (res_json C)
                            (kafka_response_new (env_now_millis env) (kreq_request_id req)
                               (kreq_user_id req) success message) of
                       Inl e \<Rightarrow> (Ret (Inl (EngineError e)), [], rp')
                     | Inr resp_bytes \<Rightarrow>
                         (let resp_record = \<lparr>rec_key = Some (str_bytes (kreq_user_id req)),
                                             rec_value = Some resp_bytes\<rparr>
                          in (Ret (case env_produce env of
                                     ProduceFailed e _ \<Rightarrow> Inl (BrokerError e)
                                   | Produced \<Rightarrow> Inr ()),
                              appended (env_produce env) resp_record, rp'))))))"

section \<open>The consumption loop\<close>

record worker_state =
  wk_offset :: int
  wk_rp :: ReplayProtector
  wk_published :: "kafka_record list"
  wk_errors :: "worker_error list"

type_synonym fetched = "int \<times> record_env \<times> kafka_record"

text \<open>The \<open>for\<close> loop over a fetch: a panic leaves the state as it is then.\<close>

fun worker_batch ::
  "('pt, 'sc, 'enc) k256 \<Rightarrow> kafka_codecs \<Rightarrow> bool \<Rightarrow> worker_state \<Rightarrow> fetched list \<Rightarrow>
   unit run \<times> worker_state" where
  "worker_batch K C chk w [] = (Ret (), w)"
| "worker_batch K C chk w ((off, env, rec) # recs) =
     (case process_record K C chk env (wk_rp w) rec of
        (Panic m, pub, rp') \<Rightarrow>
          (Panic m, w\<lparr>wk_offset := off + 1, wk_rp := rp', wk_published := wk_published w @ pub\<rparr>)
      | (Ret res, pub, rp') \<Rightarrow>
          worker_batch K C chk
            (w\<lparr>wk_offset := off + 1, wk_rp := rp', wk_published := wk_published w @ pub,
               wk_errors := wk_errors w @ (case res of Inl e \<Rightarrow> [e] | Inr _ \<Rightarrow> [])\<rparr>) recs)"

text \<open>What \<open>select!\<close> yields. A fetch that succeeds is given by what the broker would return at that
  moment for any offset; the loop asks for its own.\<close>

datatype worker_event =
    WorkerShutdownChanged bool
  | Fetched "int \<Rightarrow> fetched list"
  | FetchFailed string

text \<open>How a run of the loop over given events ends.\<close>

datatype worker_end = StillRunning | ShutDown | Crashed string

fun worker_loop ::
  "('pt, 'sc, 'enc) k256 \<Rightarrow> kafka_codecs \<Rightarrow> bool \<Rightarrow> worker_state \<Rightarrow> worker_event list \<Rightarrow>
   worker_end \<times> worker_state" where
  "worker_loop K C chk w [] = (StillRunning, w)"
| "worker_loop K C chk w (WorkerShutdownChanged b # evs) =
     (if b then (ShutDown, w) else worker_loop K C chk w evs)"
| "worker_loop K C chk w (Fetched fetch # evs) =
     (case worker_batch K C chk w (fetch (wk_offset w)) of
        (Panic m, w') \<Rightarrow> (Crashed m, w')
      | (Ret _, w') \<Rightarrow> worker_loop K C chk w' evs)"
| "worker_loop K C chk w (FetchFailed e # evs) = worker_loop K C chk w evs"

text \<open>\<open>run\<close>: the first offset is the latest one, or 0 when the query fails.\<close>

definition worker_run ::
  "('pt, 'sc, 'enc) k256 \<Rightarrow> kafka_codecs \<Rightarrow> bool \<Rightarrow> (string, int) result \<Rightarrow> ReplayProtector \<Rightarrow>
   worker_event list \<Rightarrow> worker_end \<times> worker_state" where
  "worker_run K C chk latest rp evs =
     worker_loop K C chk
       \<lparr>wk_offset = (case latest of Inl _ \<Rightarrow> 0 | Inr off \<Rightarrow> off), wk_rp = rp, wk_published = [],
        wk_errors = []\<rparr> evs"

text \<open>
  What the worker relies on of the broker. A topic's log is a list, a record's offset its
  position; a fetch at an offset yields a contiguous piece of the log that starts there, of any
  length. Which offsets are asked for is up to the loop. The request log is paired with the
  surroundings in which each record will be processed.
\<close>

definition is_fetch :: "'r list \<Rightarrow> int \<Rightarrow> (int \<times> 'r) list \<Rightarrow> bool" where
  "is_fetch log off recs \<longleftrightarrow>
     0 \<le> off \<and> map snd recs = take (length recs) (drop (nat off) log) \<and>
     map fst recs = map (\<lambda>i. off + int i) [0..<length recs]"

definition serves :: "'r list \<Rightarrow> (int \<Rightarrow> (int \<times> 'r) list) \<Rightarrow> bool" where
  "serves log fetch \<longleftrightarrow> (\<forall>off. 0 \<le> off \<longrightarrow> is_fetch log off (fetch off))"

definition fetches_ok :: "(record_env \<times> kafka_record) list \<Rightarrow> worker_event list \<Rightarrow> bool" where
  "fetches_ok log evs \<longleftrightarrow> (\<forall>fetch. Fetched fetch \<in> set evs \<longrightarrow> serves log fetch)"

text \<open>How far the fetches reach, until shutdown, when each goes on where the one before ended. This
  is a specification; it does not look at the loop.\<close>

fun worker_reach :: "worker_event list \<Rightarrow> int \<Rightarrow> int" where
  "worker_reach [] off = off"
| "worker_reach (WorkerShutdownChanged b # evs) off = (if b then off else worker_reach evs off)"
| "worker_reach (Fetched fetch # evs) off = worker_reach evs (off + int (length (fetch off)))"
| "worker_reach (FetchFailed e # evs) off = worker_reach evs off"

section \<open>The decision is the server's\<close>

text \<open>The TCP request with the same contents.\<close>

definition as_tcp :: "KafkaAuthRequest \<Rightarrow> AuthRequest" where
  "as_tcp r = \<lparr>req_user_id = kreq_user_id r, req_public_key = kreq_public_key r, req_proof = kreq_proof r\<rparr>"

lemma as_tcp_simps [simp]:
  "req_user_id (as_tcp r) = kreq_user_id r" "req_public_key (as_tcp r) = kreq_public_key r"
  "req_proof (as_tcp r) = kreq_proof r"
  by (simp_all add: as_tcp_def)

fun same_verdict :: "(bool \<times> string) run \<Rightarrow> AuthResponse run \<Rightarrow> bool" where
  "same_verdict (Ret (success, message)) (Ret resp) \<longleftrightarrow> success = res_success resp"
| "same_verdict (Panic m) (Panic m') \<longleftrightarrow> m = m'"
| "same_verdict _ _ \<longleftrightarrow> False"

lemma decision_lookup:
  assumes "get_public_key K dberr reg (kreq_user_id r) = Inr (Some pk)"
    and "kreq_public_key r = pk_to_bytes K pk"
  shows "lookup_stage K dberr reg (as_tcp r) = Inr pk"
  using assms by (simp add: lookup_stage_Inr)

lemma decision_agrees:
  "same_verdict (fst (kafka_decision K chk now dberr reg rp r))
     (fst (handle_request K chk now dberr reg rp (as_tcp r))) \<and>
   snd (kafka_decision K chk now dberr reg rp r) = snd (handle_request K chk now dberr reg rp (as_tcp r))"
proof (cases "\<exists>pk. get_public_key K dberr reg (kreq_user_id r) = Inr (Some pk) \<and>
    kreq_public_key r = pk_to_bytes K pk")
  case False
  then show ?thesis
    by (auto simp: kafka_decision_def handle_request_def lookup_stage_def
        split: sum.splits option.splits)
next
  case True
  then obtain pk where pk: "get_public_key K dberr reg (kreq_user_id r) = Inr (Some pk)"
    "kreq_public_key r = pk_to_bytes K pk" by blast
  obtain c rp' where cr: "check_and_record chk now rp (kreq_user_id r) (kreq_proof r) = (c, rp')"
    by (cases "check_and_record chk now rp (kreq_user_id r) (kreq_proof r)")
  show ?thesis
    using pk decision_lookup [OF pk] cr
    by (cases "verify K (public_point pk) (kreq_proof r)")
      (auto simp: kafka_decision_def handle_request_def verify_stage_def
        split: run.splits sum.splits bool.splits)
qed

text \<open>C14: both services decide alike. For the same clock, database, protector, user, key and
  proof, the worker's decision is the server's: the same success flag, the same panic, and
  the same protector afterwards. Only the texts differ.\<close>

theorem kafka_tcp_agree:
  "same_verdict (fst (kafka_decision K chk now dberr reg rp r))
     (fst (handle_request K chk now dberr reg rp (as_tcp r))) \<and>
   snd (kafka_decision K chk now dberr reg rp r) = snd (handle_request K chk now dberr reg rp (as_tcp r))"
  by (rule decision_agrees)

text \<open>So the worker's decision is the gated service, too.\<close>

definition kafka_call :: "record_env \<Rightarrow> KafkaAuthRequest \<Rightarrow> service_call" where
  "kafka_call env r = tcp_call (env_now env) (env_dberr env) (env_registry env) (as_tcp r)"

definition decided_true :: "(bool \<times> string) run \<Rightarrow> bool" where
  "decided_true d \<longleftrightarrow> (case d of Panic _ \<Rightarrow> False | Ret (success, _) \<Rightarrow> success)"

lemma decided_true_simps [simp]: "\<not> decided_true (Panic m)" "decided_true (Ret (b, msg)) = b"
  by (simp_all add: decided_true_def)

lemma same_verdict_granted: "same_verdict d r \<Longrightarrow> decided_true d = granted r"
  by (cases "(d, r)" rule: same_verdict.cases) auto

lemma decision_service:
  "(decided_true (fst (kafka_decision K chk (env_now env) (env_dberr env) (env_registry env) rp r)),
    snd (kafka_decision K chk (env_now env) (env_dberr env) (env_registry env) rp r)) =
   service_step K chk rp (kafka_call env r)"
  unfolding kafka_call_def handle_request_service [symmetric]
  by (simp add: decision_agrees same_verdict_granted [OF conjunct1 [OF decision_agrees]])

section \<open>One record\<close>

lemma kres_json_roundtrip:
  "json_ok J \<Longrightarrow> kres_to_json_bytes J r = Inr bs \<Longrightarrow> kres_from_json_bytes J bs = Inr r"
  by (simp add: json_ok_def kres_to_json_bytes_def kres_from_json_bytes_def split: sum.splits)


lemma process_record_publishes:
  assumes J: "json_ok (res_json C)" and p: "process_record K C chk env rp rec = (Ret (Inr ()), pub, rp')"
    and v: "rec_value rec = Some v" "parse_request C v = Inr req"
    and d: "fst (kafka_decision K chk (env_now env) (env_dberr env) (env_registry env) rp req) =
      Ret (success, message)"
  obtains bs where "pub = [\<lparr>rec_key = Some (str_bytes (kreq_user_id req)), rec_value = Some bs\<rparr>]"
    and "kres_from_json_bytes (res_json C) bs = Inr (kafka_response_new (env_now_millis env)
           (kreq_request_id req) (kreq_user_id req) success message)"
  using p v d kres_json_roundtrip [OF J]
  by (auto simp: process_record_def Let_def
      split: option.splits sum.splits prod.splits run.splits produce_outcome.splits)

text \<open>Codecs and surroundings for the witnesses.\<close>

definition wire_codecs :: kafka_codecs where
  "wire_codecs = \<lparr>req_json = kafka_request_json, req_bin = kafka_request_bincode,
     res_json = kafka_response_json\<rparr>"

lemma wire_codecs_simps [simp]:
  "req_json wire_codecs = kafka_request_json" "req_bin wire_codecs = kafka_request_bincode"
  "res_json wire_codecs = kafka_response_json"
  by (simp_all add: wire_codecs_def)

definition quiet_env :: record_env where
  "quiet_env = \<lparr>env_now = 0, env_now_millis = 0, env_dberr = None, env_registry = alice_registry,
     env_produce = Produced\<rparr>"

lemma quiet_env_simps [simp]:
  "env_now quiet_env = 0" "env_dberr quiet_env = None" "env_registry quiet_env = alice_registry"
  by (simp_all add: quiet_env_def)



section \<open>The consumption loop\<close>

lemma worker_batch_append:
  "worker_batch K C chk w (recs @ recs2) =
     (case worker_batch K C chk w recs of
        (Panic m, w') \<Rightarrow> (Panic m, w')
      | (Ret _, w') \<Rightarrow> worker_batch K C chk w' recs2)"
  by (induction K C chk w recs rule: worker_batch.induct) (auto split: prod.splits run.splits)

lemma worker_batch_offset:
  "worker_batch K C chk w recs = (Ret u, w') \<Longrightarrow>
     wk_offset w' = (if recs = [] then wk_offset w else fst (last recs) + 1)"
  by (induction K C chk w recs rule: worker_batch.induct) (auto split: prod.splits run.splits if_splits)

lemma worker_batch_panic:
  assumes "worker_batch K C chk w recs = (Panic m, w')"
  shows "\<exists>n < length recs. worker_batch K C chk w (take (Suc n) recs) = (Panic m, w') \<and>
    wk_offset w' = fst (recs ! n) + 1"
  using assms
proof (induction K C chk w recs rule: worker_batch.induct)
  case (1 K C chk w)
  then show ?case by simp
next
  case (2 K C chk w off env rec recs)
  obtain r pub rp' where p: "process_record K C chk env (wk_rp w) rec = (r, pub, rp')"
    by (rule prod_cases3)
  show ?case
  proof (cases r)
    case (Panic m')
    with 2(2) p show ?thesis by (intro exI [of _ 0]) auto
  next
    case (Ret res)
    with 2(2) p 2(1) [OF p [symmetric] Ret refl]
    obtain n where "n < length recs" and
      "worker_batch K C chk w (take (Suc (Suc n)) ((off, env, rec) # recs)) = (Panic m, w')" and
      "wk_offset w' = fst (recs ! n) + 1"
      by (auto simp: take_Suc_Cons)
    then show ?thesis by (intro exI [of _ "Suc n"]) simp
  qed
qed

text \<open>The piece of the log from an offset, as it is fetched.\<close>

definition log_segment :: "'r list \<Rightarrow> int \<Rightarrow> nat \<Rightarrow> (int \<times> 'r) list" where
  "log_segment log off n = map (\<lambda>i. (off + int i, log ! (nat off + i))) [0..<n]"

lemma length_log_segment [simp]: "length (log_segment log off n) = n"
  by (simp add: log_segment_def)

lemma log_segment_nth [simp]:
  "i < n \<Longrightarrow> log_segment log off n ! i = (off + int i, log ! (nat off + i))"
  by (simp add: log_segment_def)

lemma log_segment_append:
  "0 \<le> off \<Longrightarrow> log_segment log off n @ log_segment log (off + int n) k = log_segment log off (n + k)"
  by (rule nth_equalityI) (auto simp: nth_append nat_add_distrib algebra_simps)

lemma log_segment_take: "m \<le> n \<Longrightarrow> take m (log_segment log off n) = log_segment log off m"
  by (rule nth_equalityI) auto

lemma fetch_is_segment:
  assumes "is_fetch log off recs"
  shows "recs = log_segment log off (length recs) \<and>
    (recs \<noteq> [] \<longrightarrow> nat off + length recs \<le> length log)"
proof
  from assms have snds: "map snd recs = take (length recs) (drop (nat off) log)"
    and fsts: "map fst recs = map (\<lambda>i. off + int i) [0..<length recs]"
    by (simp_all add: is_fetch_def)
  have len: "length recs \<le> length log - nat off"
    using arg_cong [OF snds, of length] by simp
  show "recs = log_segment log off (length recs)"
  proof (rule nth_equalityI)
    fix i assume i: "i < length recs"
    have "snd (recs ! i) = take (length recs) (drop (nat off) log) ! i"
      using i by (simp flip: snds)
    moreover have "fst (recs ! i) = map fst recs ! i" using i by simp
    ultimately show "recs ! i = log_segment log off (length recs) ! i"
      using i len fsts by (simp add: prod_eq_iff)
  qed simp
  show "recs \<noteq> [] \<longrightarrow> nat off + length recs \<le> length log"
    using len by (cases recs) auto
qed


text \<open>A concrete broker for the witnesses: at most \<open>n\<close> records per fetch.\<close>

definition serve :: "'r list \<Rightarrow> nat \<Rightarrow> int \<Rightarrow> (int \<times> 'r) list" where
  "serve log n off = log_segment log off (min n (length log - nat off))"

lemma serve_serves [simp]: "serves log (serve log n)"
  unfolding serves_def is_fetch_def
  by (auto simp: serve_def log_segment_def nth_append intro!: nth_equalityI)

text \<open>How a batch ends, seen by the loop.\<close>

definition run_of_end :: "worker_end \<Rightarrow> unit run" where
  "run_of_end e = (case e of Crashed m \<Rightarrow> Panic m | _ \<Rightarrow> Ret ())"

lemma batch_end_offset:
  assumes pos: "0 \<le> wk_offset w" and f: "serves log fetch"
    and b: "worker_batch K C chk w (fetch (wk_offset w)) = (Ret u, w')"
  shows "wk_offset w' = wk_offset w + int (length (fetch (wk_offset w)))"
proof (cases "fetch (wk_offset w) = []")
  case True
  with worker_batch_offset [OF b] show ?thesis by simp
next
  case False
  let ?recs = "fetch (wk_offset w)"
  have "is_fetch log (wk_offset w) ?recs" using pos f by (simp add: serves_def)
  then have seg: "?recs = log_segment log (wk_offset w) (length ?recs)"
    using fetch_is_segment by blast
  have "fst (last ?recs) = wk_offset w + int (length ?recs - 1)"
    using False log_segment_nth [of "length ?recs - 1" "length ?recs" log "wk_offset w"]
    by (metis seg diff_less fst_conv last_conv_nth length_greater_0_conv zero_less_one)
  with worker_batch_offset [OF b] False show ?thesis by (cases ?recs) auto
qed

lemma batch_panic_segment:
  assumes pos: "0 \<le> wk_offset w" and f: "serves log fetch"
    and b: "worker_batch K C chk w (fetch (wk_offset w)) = (Panic m, w')"
  shows "\<exists>n. worker_batch K C chk w (log_segment log (wk_offset w) n) = (Panic m, w') \<and>
    wk_offset w' = wk_offset w + int n \<and> nat (wk_offset w) + n \<le> length log"
proof -
  let ?recs = "fetch (wk_offset w)" and ?off = "wk_offset w"
  have fetch: "is_fetch log ?off ?recs" using pos f by (simp add: serves_def)
  note seg = conjunct1 [OF fetch_is_segment [OF fetch]]
  from worker_batch_panic [OF b] obtain k where k: "k < length ?recs"
    "worker_batch K C chk w (take (Suc k) ?recs) = (Panic m, w')" "wk_offset w' = fst (?recs ! k) + 1"
    by blast
  have "take (Suc k) ?recs = log_segment log ?off (Suc k)"
    using k(1) log_segment_take [of "Suc k" "length ?recs" log ?off] seg by simp
  moreover have "fst (?recs ! k) = ?off + int k"
    using k(1) log_segment_nth [of k "length ?recs" log ?off] seg by (metis fst_conv)
  moreover have "nat ?off + Suc k \<le> length log"
    using k(1) fetch_is_segment [OF fetch] by (cases ?recs) auto
  ultimately show ?thesis using k by (intro exI [of _ "Suc k"]) simp
qed

lemma worker_loop_segment:
  assumes "fetches_ok log evs" "0 \<le> wk_offset w" "worker_loop K C chk w evs = (e, w')"
  shows "\<exists>n. worker_batch K C chk w (log_segment log (wk_offset w) n) = (run_of_end e, w') \<and>
    wk_offset w' = wk_offset w + int n \<and> (0 < n \<longrightarrow> nat (wk_offset w) + n \<le> length log)"
  using assms
proof (induction K C chk w evs rule: worker_loop.induct)
  case (1 K C chk w)
  then show ?case by (intro exI [of _ 0]) (simp add: log_segment_def run_of_end_def)
next
  case (2 K C chk w b evs)
  then show ?case
    by (cases b) (auto simp: log_segment_def run_of_end_def fetches_ok_def intro: exI [of _ 0])
next
  case (3 K C chk w fetch evs)
  let ?off = "wk_offset w" and ?recs = "fetch (wk_offset w)"
  from 3(2) have f: "serves log fetch" and ok: "fetches_ok log evs" by (auto simp: fetches_ok_def)
  note pos = 3(3)
  have fetch: "is_fetch log ?off ?recs" using pos f by (simp add: serves_def)
  show ?case
  proof (cases "worker_batch K C chk w ?recs")
    case (Pair r w1)
    show ?thesis
    proof (cases r)
      case (Panic m)
      with 3(4) Pair have "e = Crashed m" "w' = w1" by auto
      with batch_panic_segment [OF pos f, of K C chk m w1] Pair Panic show ?thesis
        by (auto simp: run_of_end_def)
    next
      case (Ret u)
      have off1: "wk_offset w1 = ?off + int (length ?recs)"
        using batch_end_offset [OF pos f, of K C chk u w1] Pair Ret by simp
      have loop: "worker_loop K C chk w1 evs = (e, w')" using 3(4) Pair Ret by simp
      from 3(1) [OF Pair [symmetric] Ret ok _ loop] pos off1 obtain k where
        k: "worker_batch K C chk w1 (log_segment log (wk_offset w1) k) = (run_of_end e, w')"
        "wk_offset w' = wk_offset w1 + int k" "0 < k \<longrightarrow> nat (wk_offset w1) + k \<le> length log" by auto
      have "worker_batch K C chk w (log_segment log ?off (length ?recs + k)) = (run_of_end e, w')"
        unfolding log_segment_append [OF pos, symmetric] worker_batch_append
        using Pair Ret k(1) off1 fetch_is_segment [OF fetch] by simp
      then show ?thesis
        using k off1 pos fetch_is_segment [OF fetch]
        by (intro exI [of _ "length ?recs + k"]) (auto simp: nat_add_distrib)
    qed
  qed
next
  case (4 K C chk w err evs)
  then show ?case by (simp add: fetches_ok_def)
qed

lemma worker_loop_reach:
  assumes "fetches_ok log evs" "0 \<le> wk_offset w" "worker_loop K C chk w evs = (e, w')"
  shows "case e of
      Crashed m \<Rightarrow> True
    | ShutDown \<Rightarrow> wk_offset w' = worker_reach evs (wk_offset w) \<and> WorkerShutdownChanged True \<in> set evs
    | StillRunning \<Rightarrow> wk_offset w' = worker_reach evs (wk_offset w) \<and> WorkerShutdownChanged True \<notin> set evs"
  using assms
proof (induction K C chk w evs rule: worker_loop.induct)
  case (2 K C chk w b evs)
  then show ?case by (cases b) (auto simp: fetches_ok_def split: worker_end.splits)
next
  case (3 K C chk w fetch evs)
  from 3(2) have f: "serves log fetch" and ok: "fetches_ok log evs" by (auto simp: fetches_ok_def)
  show ?case
  proof (cases "worker_batch K C chk w (fetch (wk_offset w))")
    case (Pair r w1)
    show ?thesis
    proof (cases r)
      case (Ret u)
      have off1: "wk_offset w1 = wk_offset w + int (length (fetch (wk_offset w)))"
        using batch_end_offset [OF 3(3) f, of K C chk u w1] Pair Ret by simp
      have loop: "worker_loop K C chk w1 evs = (e, w')" using 3(4) Pair Ret by simp
      from 3(1) [OF Pair [symmetric] Ret ok _ loop] 3(3) off1 show ?thesis
        by (simp split: worker_end.splits)
    qed (use 3(4) Pair in auto)
  qed
next
  case (4 K C chk w err evs)
  then show ?case by (auto simp: fetches_ok_def split: worker_end.splits)
qed auto

text \<open>
  The specification of the loop: a list of records processed one after the other. \<open>rs\<close>, \<open>pubs\<close>
  and \<open>rps\<close> are the results, the published records and the protectors, where the protector
  after a record is the one that the next record meets.
\<close>

definition record_trace ::
  "('pt, 'sc, 'enc) k256 \<Rightarrow> kafka_codecs \<Rightarrow> bool \<Rightarrow> ReplayProtector \<Rightarrow> (record_env \<times> kafka_record) list \<Rightarrow>
   (worker_error, unit) result run list \<Rightarrow> kafka_record list list \<Rightarrow> ReplayProtector list \<Rightarrow> bool" where
  "record_trace K C chk rp recs rs pubs rps \<longleftrightarrow>
     length rs = length recs \<and> length pubs = length recs \<and> length rps = Suc (length recs) \<and> rps ! 0 = rp \<and>
     (\<forall>i < length recs. process_record K C chk (fst (recs ! i)) (rps ! i) (snd (recs ! i)) =
        (rs ! i, pubs ! i, rps ! Suc i))"

definition logged_error :: "(worker_error, unit) result run \<Rightarrow> worker_error list" where
  "logged_error r = (case r of Ret (Inl e) \<Rightarrow> [e] | _ \<Rightarrow> [])"

lemma logged_error_simps [simp]:
  "logged_error (Panic m) = []" "logged_error (Ret x) = (case x of Inl e \<Rightarrow> [e] | Inr _ \<Rightarrow> [])"
  by (auto simp: logged_error_def split: sum.split)

lemma record_trace_Nil [simp]: "record_trace K C chk rp [] rs pubs rps \<longleftrightarrow> rs = [] \<and> pubs = [] \<and> rps = [rp]"
  by (cases rps) (auto simp: record_trace_def)

lemma record_trace_Cons:
  assumes "process_record K C chk env rp rec = (r, pub, rp')" "record_trace K C chk rp' recs rs pubs rps"
  shows "record_trace K C chk rp ((env, rec) # recs) (r # rs) (pub # pubs) (rp # rps)"
  using assms by (auto simp: record_trace_def less_Suc_eq_0_disj)

lemma worker_batch_trace:
  assumes "worker_batch K C chk w fs = (r, w')"
  shows "\<exists>n rs pubs rps. n \<le> length fs \<and> record_trace K C chk (wk_rp w) (map snd (take n fs)) rs pubs rps \<and>
    wk_rp w' = last rps \<and> wk_published w' = wk_published w @ concat pubs \<and>
    wk_errors w' = wk_errors w @ concat (map logged_error rs) \<and>
    (case r of
       Panic m \<Rightarrow> rs \<noteq> [] \<and> last rs = Panic m \<and> (\<forall>x \<in> set (butlast rs). \<not> panics x) \<and>
         wk_offset w' = fst (fs ! (n - 1)) + 1
     | Ret _ \<Rightarrow> n = length fs \<and> (\<forall>x \<in> set rs. \<not> panics x))"
  using assms
proof (induction fs arbitrary: w)
  case Nil
  then show ?case by auto
next
  case (Cons f fs)
  obtain off env rec where f: "f = (off, env, rec)" by (rule prod_cases3)
  obtain x pub rp' where p: "process_record K C chk env (wk_rp w) rec = (x, pub, rp')"
    by (rule prod_cases3)
  show ?case
  proof (cases x)
    case (Panic m)
    have "record_trace K C chk (wk_rp w) (map snd (take 1 (f # fs))) [Panic m] [pub] [wk_rp w, rp']"
      using record_trace_Cons [OF p, of "[]" "[]" "[]" "[rp']"] Panic by (simp add: f)
    with Cons.prems p Panic show ?thesis
      by (intro exI [of _ 1] exI [of _ "[Panic m]"] exI [of _ "[pub]"] exI [of _ "[wk_rp w, rp']"])
        (auto simp: f)
  next
    case (Ret res)
    let ?w1 = "w\<lparr>wk_offset := off + 1, wk_rp := rp', wk_published := wk_published w @ pub,
        wk_errors := wk_errors w @ (case res of Inl e \<Rightarrow> [e] | Inr _ \<Rightarrow> [])\<rparr>"
    have "worker_batch K C chk ?w1 fs = (r, w')" using Cons.prems p Ret by (simp add: f)
    from Cons.IH [OF this] obtain n rs pubs rps where
      n: "n \<le> length fs" and t: "record_trace K C chk rp' (map snd (take n fs)) rs pubs rps"
      and st: "wk_rp w' = last rps" "wk_published w' = wk_published w @ pub @ concat pubs"
        "wk_errors w' = wk_errors w @ logged_error x @ concat (map logged_error rs)"
      and r: "case r of
         Panic m \<Rightarrow> rs \<noteq> [] \<and> last rs = Panic m \<and> (\<forall>x \<in> set (butlast rs). \<not> panics x) \<and>
           wk_offset w' = fst (fs ! (n - 1)) + 1
       | Ret _ \<Rightarrow> n = length fs \<and> (\<forall>x \<in> set rs. \<not> panics x)"
      by (auto simp: Ret)
    have len: "rps \<noteq> []" "length rs = n" using t n by (auto simp: record_trace_def)
    have "record_trace K C chk (wk_rp w) (map snd (take (Suc n) (f # fs))) (x # rs) (pub # pubs) (wk_rp w # rps)"
      using record_trace_Cons [OF p t] by (simp add: f)
    with n st r len Ret show ?thesis
      by (intro exI [of _ "Suc n"] exI [of _ "x # rs"] exI [of _ "pub # pubs"] exI [of _ "wk_rp w # rps"])
        (auto split: run.splits simp: nth_Cons' )
  qed
qed

text \<open>C26: each record once, in order. Whatever pieces of the log the broker returns for the offsets
  the worker asks for, whatever fetches fail and however often the shutdown flag changes, the run
  is the processing of the \<open>n\<close> records of the log that begin at the start offset: record \<open>i\<close> is
  processed exactly once, with the protector that record \<open>i - 1\<close> left, and what is published
  and what is logged are what these \<open>n\<close> steps published and logged, in order. No fetched
  record is skipped: unless the worker crashed, the \<open>n\<close> records are all those that the fetches
  up to the shutdown reach. It crashes exactly at a record that panics, and that is the last one.\<close>

theorem worker_each_record_once:
  assumes start: "start = (case latest of Inl _ \<Rightarrow> 0 | Inr off \<Rightarrow> off)" "0 \<le> start"
    and log: "fetches_ok log evs"
    and run: "worker_run K C chk latest rp evs = (e, w')"
  shows "\<exists>n rs pubs rps. length rs = n \<and> length pubs = n \<and> length rps = Suc n \<and> rps ! 0 = rp \<and>
    (\<forall>i < n. nat start + i < length log \<and>
       process_record K C chk (fst (log ! (nat start + i))) (rps ! i) (snd (log ! (nat start + i))) =
         (rs ! i, pubs ! i, rps ! Suc i)) \<and>
    wk_offset w' = start + int n \<and> wk_rp w' = rps ! n \<and> wk_published w' = concat pubs \<and>
    wk_errors w' = concat (map logged_error rs) \<and>
    (case e of
       Crashed m \<Rightarrow> rs \<noteq> [] \<and> last rs = Panic m \<and> (\<forall>x \<in> set (butlast rs). \<not> panics x)
     | ShutDown \<Rightarrow> start + int n = worker_reach evs start \<and> (\<forall>x \<in> set rs. \<not> panics x) \<and>
         WorkerShutdownChanged True \<in> set evs
     | StillRunning \<Rightarrow> start + int n = worker_reach evs start \<and> (\<forall>x \<in> set rs. \<not> panics x) \<and>
         WorkerShutdownChanged True \<notin> set evs)"
proof -
  let ?w = "\<lparr>wk_offset = start, wk_rp = rp, wk_published = [], wk_errors = []\<rparr>"
  have loop: "worker_loop K C chk ?w evs = (e, w')" using run by (simp add: worker_run_def start(1))
  from worker_loop_segment [OF log _ loop] start(2) obtain n where
    b: "worker_batch K C chk ?w (log_segment log start n) = (run_of_end e, w')"
    and off: "wk_offset w' = start + int n" and len: "0 < n \<longrightarrow> nat start + n \<le> length log" by auto
  from worker_batch_trace [OF b, unfolded length_log_segment] obtain k rs pubs rps where
    k: "k \<le> n" and t: "record_trace K C chk rp (map snd (take k (log_segment log start n))) rs pubs rps"
    and st: "wk_rp w' = last rps" "wk_published w' = concat pubs" "wk_errors w' = concat (map logged_error rs)"
    and r: "case run_of_end e of
       Panic m \<Rightarrow> rs \<noteq> [] \<and> last rs = Panic m \<and> (\<forall>x \<in> set (butlast rs). \<not> panics x) \<and>
         wk_offset w' = fst (log_segment log start n ! (k - 1)) + 1
     | Ret _ \<Rightarrow> k = n \<and> (\<forall>x \<in> set rs. \<not> panics x)" by auto
  have lens: "length rs = k" "length pubs = k" "length rps = Suc k" using t k by (simp_all add: record_trace_def)
  have kn: "k = n"
  proof (cases "run_of_end e")
    case (Panic m)
    with r lens(1) k off show ?thesis by (cases k) auto
  qed (use r in simp)
  have step: "process_record K C chk (fst (log ! (nat start + i))) (rps ! i) (snd (log ! (nat start + i))) =
      (rs ! i, pubs ! i, rps ! Suc i)" if "i < n" for i
    using t that by (simp add: record_trace_def kn)
  have first: "rps ! 0 = rp" using t by (simp add: record_trace_def)
  have final: "last rps = rps ! n"
    using lens(3) kn by (metis diff_Suc_1 last_conv_nth length_0_conv nat.distinct(1))
  have ending: "case e of
       Crashed m \<Rightarrow> rs \<noteq> [] \<and> last rs = Panic m \<and> (\<forall>x \<in> set (butlast rs). \<not> panics x)
     | ShutDown \<Rightarrow> start + int n = worker_reach evs start \<and> (\<forall>x \<in> set rs. \<not> panics x) \<and>
         WorkerShutdownChanged True \<in> set evs
     | StillRunning \<Rightarrow> start + int n = worker_reach evs start \<and> (\<forall>x \<in> set rs. \<not> panics x) \<and>
         WorkerShutdownChanged True \<notin> set evs"
    using worker_loop_reach [OF log _ loop] start(2) off r by (cases e) (simp_all add: run_of_end_def)
  have steps: "\<forall>i < n. nat start + i < length log \<and>
       process_record K C chk (fst (log ! (nat start + i))) (rps ! i) (snd (log ! (nat start + i))) =
         (rs ! i, pubs ! i, rps ! Suc i)"
    using step len by auto
  show ?thesis
    using lens [unfolded kn] first steps off st(1) [unfolded final] st(2,3) ending
    by (intro exI conjI)
qed

text \<open>Two records without a value, fetched one at a time.\<close>

lemma quiet_tombstone:
  "process_record gf2 wire_codecs True env rp \<lparr>rec_key = None, rec_value = None\<rparr> = (Ret (Inr ()), [], rp)"
  by (simp add: process_record_def)

theorem worker_each_record_once_witness:
  "wk_offset (snd (worker_run gf2 wire_codecs True (Inl ''no offset'') ReplayProtector_default
      [WorkerShutdownChanged False,
       Fetched (serve [(quiet_env, \<lparr>rec_key = None, rec_value = None\<rparr>), (quiet_env, \<lparr>rec_key = None, rec_value = None\<rparr>)] 1),
       FetchFailed ''timeout'',
       Fetched (serve [(quiet_env, \<lparr>rec_key = None, rec_value = None\<rparr>), (quiet_env, \<lparr>rec_key = None, rec_value = None\<rparr>)] 1)])) = 2"
proof -
  let ?r = "\<lparr>rec_key = None, rec_value = None\<rparr>"
  let ?log = "[(quiet_env, ?r), (quiet_env, ?r)]"
  let ?evs = "[WorkerShutdownChanged False, Fetched (serve ?log 1), FetchFailed ''timeout'', Fetched (serve ?log 1)]"
  have f: "fetches_ok ?log ?evs" by (auto simp: fetches_ok_def)
  obtain e w' where w: "worker_run gf2 wire_codecs True (Inl ''no offset'') ReplayProtector_default ?evs = (e, w')"
    by (cases "worker_run gf2 wire_codecs True (Inl ''no offset'') ReplayProtector_default ?evs")
  have e: "e = StillRunning"
    using w by (auto simp: worker_run_def quiet_tombstone serve_def log_segment_def)
  have reach: "worker_reach ?evs 0 = 2" by (simp add: serve_def)
  have "0 = (case Inl ''no offset'' of Inl _ \<Rightarrow> 0 | Inr off \<Rightarrow> off)" "(0 :: int) \<le> 0" by simp_all
  from worker_each_record_once [OF this f w] show ?thesis unfolding w e snd_conv by (auto simp: reach simp del: worker_reach.simps One_nat_def)
qed

section \<open>A malformed response scalar\<close>

lemma decision_bad_scalar:
  assumes B: "k256_bytes_ok K"
    and pk: "get_public_key K dberr reg (kreq_user_id req) = Inr (Some pk)"
    and match: "kreq_public_key req = pk_to_bytes K pk"
    and adm: "check_and_record chk now rp (kreq_user_id req) (kreq_proof req) = (Ret (Inr ()), rp')"
    and r: "encoded_from_bytes K (r_point (kreq_proof req)) = Inr c"
    and s: "length (s_scalar (kreq_proof req)) \<noteq> 32"
  obtains m where "kafka_decision K chk now dberr reg rp req = (Panic m, rp')"
proof -
  obtain m where "verify K (public_point pk) (kreq_proof req) = Panic m"
    using B r s by (rule verify_bad_scalar)
  with pk match adm have "kafka_decision K chk now dberr reg rp req = (Panic m, rp')"
    by (simp add: kafka_decision_def)
  then show thesis by (rule that)
qed

text \<open>C30: one record stops the worker. A record with a request for a registered user, the user's
  public key, a fresh timestamp, an unused nonce, any well-formed commitment and an
  \<open>s_scalar\<close> that has not 32 bytes makes the worker panic: unlike the server's connections
  the records are not processed in tasks of their own, so the loop itself ends, no response
  is published, and the records after it, in the fetch and in every later one, are not
  processed.\<close>

theorem bad_scalar_stops_worker:
  assumes B: "k256_bytes_ok K"
    and req: "rec_value rec = Some v" "parse_request C v = Inr req"
    and pk: "get_public_key K (env_dberr env) (env_registry env) (kreq_user_id req) = Inr (Some pk)"
    and match: "kreq_public_key req = pk_to_bytes K pk"
    and adm: "check_and_record chk (env_now env) (wk_rp w) (kreq_user_id req) (kreq_proof req) =
      (Ret (Inr ()), rp')"
    and r: "encoded_from_bytes K (r_point (kreq_proof req)) = Inr c"
    and s: "length (s_scalar (kreq_proof req)) \<noteq> 32"
    and fetched: "fetch (wk_offset w) = (off, env, rec) # recs"
  shows "\<exists>m. worker_loop K C chk w (Fetched fetch # evs) =
    (Crashed m, w\<lparr>wk_offset := off + 1, wk_rp := rp'\<rparr>)"
proof -
  obtain m where "kafka_decision K chk (env_now env) (env_dberr env) (env_registry env) (wk_rp w) req =
      (Panic m, rp')"
    using B pk match adm r s by (rule decision_bad_scalar)
  with req have "process_record K C chk env (wk_rp w) rec = (Panic m, [], rp')"
    by (simp add: process_record_def)
  then show ?thesis by (simp add: fetched)
qed

text \<open>Alice's request as an event, and the record that carries it.\<close>

definition alice_event :: "Proof \<Rightarrow> KafkaAuthRequest" where
  "alice_event p = kafka_request_new ''id'' 0 ''alice'' (gf2_point True) p"

lemma alice_event_simps [simp]:
  "kreq_request_id (alice_event p) = ''id''" "kreq_user_id (alice_event p) = ''alice''"
  "kreq_public_key (alice_event p) = gf2_point True" "kreq_proof (alice_event p) = p"
  by (simp_all add: alice_event_def kafka_request_new_def)

definition alice_record :: "Proof \<Rightarrow> kafka_record" where
  "alice_record p = \<lparr>rec_key = Some (str_bytes ''alice''),
     rec_value = Some (write_kafka_request (alice_event p))\<rparr>"

lemma alice_parse:
  assumes "proof_short p"
  shows "parse_request wire_codecs (write_kafka_request (alice_event p)) = Inr (alice_event p)"
proof -
  have "kafka_request_short (alice_event p)"
    using assms by (simp add: kafka_request_short_def gf2_point_def)
  then have "read_kafka_request (write_kafka_request (alice_event p)) = Some (alice_event p, [])"
    using readsD [OF reads_kafka_request, of "alice_event p" "[]"] by simp
  then show ?thesis
    by (simp add: parse_request_def kreq_from_json_bytes_def kafka_request_json_def wire_json_def
        deserialize_with_def)
qed

theorem bad_scalar_stops_worker_witness:
  "\<exists>m. worker_loop gf2 wire_codecs True
      \<lparr>wk_offset = 0, wk_rp = ReplayProtector_default, wk_published = [], wk_errors = []\<rparr>
      [Fetched (serve [(quiet_env, alice_record (gf2_proof 0 one_nonce True\<lparr>s_scalar := [1]\<rparr>)),
                       (quiet_env, alice_record (gf2_proof 0 zero_nonce True))] 2)] =
    (Crashed m, \<lparr>wk_offset = 1,
       wk_rp = ReplayProtector_default\<lparr>seen_nonces := [((''alice'', one_nonce), 0)]\<rparr>,
       wk_published = [], wk_errors = []\<rparr>)"
proof -
  let ?p = "gf2_proof 0 one_nonce True\<lparr>s_scalar := [1]\<rparr>"
  let ?w = "\<lparr>wk_offset = 0, wk_rp = ReplayProtector_default, wk_published = [], wk_errors = []\<rparr>"
  let ?log = "[(quiet_env, alice_record ?p), (quiet_env, alice_record (gf2_proof 0 zero_nonce True))]"
  have short: "proof_short ?p" by (simp add: proof_short_def proof_wf_def gf2_point_def one_nonce_def)
  have v: "rec_value (alice_record ?p) = Some (write_kafka_request (alice_event ?p))"
    by (simp add: alice_record_def)
  have a: "check_and_record True (env_now quiet_env) (wk_rp ?w) (kreq_user_id (alice_event ?p))
      (kreq_proof (alice_event ?p)) =
      (Ret (Inr ()), ReplayProtector_default\<lparr>seen_nonces := [((''alice'', one_nonce), 0)]\<rparr>)"
    by (simp add: alice_admitted)
  have f: "serve ?log 2 (wk_offset ?w) = (0, quiet_env, alice_record ?p) #
      [(1, quiet_env, alice_record (gf2_proof 0 zero_nonce True))]"
    by (simp add: serve_def log_segment_def upt_rec)
  have "\<exists>m. worker_loop gf2 wire_codecs True ?w (Fetched (serve ?log 2) # []) =
    (Crashed m, ?w\<lparr>wk_offset := 0 + 1,
       wk_rp := ReplayProtector_default\<lparr>seen_nonces := [((''alice'', one_nonce), 0)]\<rparr>\<rparr>)"
    by (rule bad_scalar_stops_worker [where pk = gf2_pk and c = True and w = ?w and fetch = "serve ?log 2",
          OF gf2_bytes_ok v alice_parse [OF short] _ _ a _ _ f]) simp_all
  then show ?thesis by (simp del: worker_loop.simps)
qed

section \<open>Published successes\<close>

definition record_call :: "kafka_codecs \<Rightarrow> fetched \<Rightarrow> service_call option" where
  "record_call C f =
     (case f of (off, env, rec) \<Rightarrow>
        (case rec_value rec of
           None \<Rightarrow> None
         | Some v \<Rightarrow>
             (case parse_request C v of Inl _ \<Rightarrow> None | Inr req \<Rightarrow> Some (kafka_call env req))))"

definition reports_success :: "kafka_codecs \<Rightarrow> kafka_record \<Rightarrow> bool" where
  "reports_success C rec =
     (case rec_value rec of
        None \<Rightarrow> False
      | Some bs \<Rightarrow>
          (case kres_from_json_bytes (res_json C) bs of Inl _ \<Rightarrow> False | Inr r \<Rightarrow> kres_success r))"

text \<open>The records of a batch whose processing publishes a success.\<close>

fun worker_grants ::
  "('pt, 'sc, 'enc) k256 \<Rightarrow> kafka_codecs \<Rightarrow> bool \<Rightarrow> ReplayProtector \<Rightarrow> fetched list \<Rightarrow> fetched list" where
  "worker_grants K C chk rp [] = []"
| "worker_grants K C chk rp (f # fs) =
     (case process_record K C chk (fst (snd f)) rp (snd (snd f)) of
        (Panic m, pub, rp') \<Rightarrow> []
      | (Ret _, pub, rp') \<Rightarrow>
          (if \<exists>r \<in> set pub. reports_success C r then [f] else []) @ worker_grants K C chk rp' fs)"

lemma kafka_success_response [simp]: "kres_success (kafka_response_new now i u b m) = b"
  by (simp add: kafka_response_new_def)

lemma process_record_call:
  assumes J: "json_ok (res_json C)" and p: "process_record K C chk env rp rec = (res, pub, rp')"
  shows "(record_call C (off, env, rec) = None \<longrightarrow> pub = [] \<and> rp' = rp) \<and>
    (\<forall>c. record_call C (off, env, rec) = Some c \<longrightarrow> rp' = snd (service_step K chk rp c) \<and>
      ((\<exists>r \<in> set pub. reports_success C r) \<longrightarrow> fst (service_step K chk rp c))) \<and> length pub \<le> 1"
proof (cases "record_call C (off, env, rec)")
  case None
  with p show ?thesis
    by (auto simp: record_call_def process_record_def split: option.splits sum.splits)
next
  case (Some c)
  then obtain v req where v: "rec_value rec = Some v" "parse_request C v = Inr req"
    and c: "c = kafka_call env req"
    by (auto simp: record_call_def split: option.splits sum.splits)
  obtain d rp1 where d: "kafka_decision K chk (env_now env) (env_dberr env) (env_registry env) rp req = (d, rp1)"
    by (cases "kafka_decision K chk (env_now env) (env_dberr env) (env_registry env) rp req")
  then have "service_step K chk rp c = (decided_true d, rp1)"
    using decision_service [of K chk env rp req] by (simp add: c)
  with Some p v d kres_json_roundtrip [OF J] show ?thesis
    by (auto simp: process_record_def reports_success_def Let_def
        split: run.splits sum.splits option.splits produce_outcome.splits if_splits)
qed

lemma worker_grants_admitted:
  assumes J: "json_ok (res_json C)"
  shows "subseq (map (record_call C) (worker_grants K C chk rp fs))
    (map Some (admitted (service_step K chk) rp (List.map_filter (record_call C) fs)))"
proof (induction fs arbitrary: rp)
  case Nil
  then show ?case by (simp add: List.map_filter_def)
next
  case (Cons f fs)
  obtain off env rec where f: "f = (off, env, rec)" by (rule prod_cases3)
  obtain res pub rp' where p: "process_record K C chk env rp rec = (res, pub, rp')"
    by (rule prod_cases3)
  note call = process_record_call [OF J p, of off]
  show ?case
  proof (cases "record_call C f")
    case None
    with Cons.IH [of rp] call show ?thesis
      by (cases res) (auto simp: f p List.map_filter_def)
  next
    case (Some c)
    with Cons.IH [of rp'] call show ?thesis
      by (cases res) (auto simp: f p List.map_filter_def split_beta Let_def)
  qed
qed

lemma subseq_set_subset: "subseq xs ys \<Longrightarrow> set xs \<subseteq> set ys"
  by (induction rule: list_emb.induct) auto

lemma subseq_distinct: "subseq xs ys \<Longrightarrow> distinct ys \<Longrightarrow> distinct xs"
  by (induction rule: list_emb.induct) (auto dest: subseq_set_subset)

lemma filter_single: "length xs \<le> 1 \<Longrightarrow> length (filter P xs) = (if \<exists>x \<in> set xs. P x then 1 else 0)"
  by (cases xs) auto

lemma grants_are_published:
  assumes J: "json_ok (res_json C)" and b: "worker_batch K C chk w fs = (r, w')"
  shows "length (filter (reports_success C) (wk_published w')) =
    length (filter (reports_success C) (wk_published w)) + length (worker_grants K C chk (wk_rp w) fs)"
  using b
proof (induction fs arbitrary: w)
  case Nil
  then show ?case by simp
next
  case (Cons f fs)
  obtain off env rec where f: "f = (off, env, rec)" by (rule prod_cases3)
  obtain res pub rp' where p: "process_record K C chk env (wk_rp w) rec = (res, pub, rp')"
    by (rule prod_cases3)
  have one: "length pub \<le> 1" using process_record_call [OF J p, of off] by simp
  show ?case
  proof (cases res)
    case (Panic m)
    with p have "pub = []"
      by (auto simp: process_record_def split: option.splits sum.splits prod.splits run.splits)
    with Cons.prems p Panic show ?thesis by (auto simp: f)
  next
    case (Ret x)
    with Cons.prems p Cons.IH [of "w\<lparr>wk_offset := off + 1, wk_rp := rp',
        wk_published := wk_published w @ pub,
        wk_errors := wk_errors w @ (case x of Inl e \<Rightarrow> [e] | Inr _ \<Rightarrow> [])\<rparr>"] filter_single [OF one]
    show ?thesis by (simp add: f)
  qed
qed

lemma record_call_now: "record_call C f = Some c \<Longrightarrow> call_now c = env_now (fst (snd f))"
  by (auto simp: record_call_def kafka_call_def split: prod.splits option.splits sum.splits)

lemma record_calls_sorted:
  "sorted (map (\<lambda>f. sint (env_now (fst (snd f)))) fs) \<Longrightarrow>
     sorted (map service_time (List.map_filter (record_call C) fs))"
  by (induction fs) (auto simp: List.map_filter_def service_time_def record_call_now)

text \<open>C13: one published success per proof. With a clock that does not go back, the records whose
  processing publishes \<open>success: true\<close> have pairwise distinct user, nonce and timestamp; each
  was decided on the stored key of its user with a proof that verifies; and the published
  successes are exactly one for each of them. However often a request is written to the
  topic, it is answered with success at most once.\<close>

theorem kafka_one_success_per_proof:
  assumes J: "json_ok (res_json C)" and I: "rp_invar (wk_rp w)"
    and clocks: "\<forall>f \<in> set fs. clock_in_range (wk_rp w) (env_now (fst (snd f)))"
    and srt: "sorted (map (\<lambda>f. sint (env_now (fst (snd f)))) fs)"
    and b: "worker_batch K C chk w fs = (r, w')"
  shows "distinct (map (\<lambda>f. map_option service_key (record_call C f)) (worker_grants K C chk (wk_rp w) fs)) \<and>
    (\<forall>f \<in> set (worker_grants K C chk (wk_rp w) fs).
       \<exists>c. record_call C f = Some c \<and> key_matches K c \<and> proof_verifies K c) \<and>
    length (filter (reports_success C) (wk_published w')) =
      length (filter (reports_success C) (wk_published w)) + length (worker_grants K C chk (wk_rp w) fs)"
proof (intro conjI)
  let ?cs = "List.map_filter (record_call C) fs"
  let ?g = "worker_grants K C chk (wk_rp w) fs" and ?adm = "admitted (service_step K chk) (wk_rp w) ?cs"
  have ok: "\<forall>c \<in> set ?cs. clock_in_range (wk_rp w) (call_now c)"
    using clocks by (fastforce simp: List.map_filter_def record_call_now)
  from service_successes_sound [OF I ok record_calls_sorted [OF srt], of K chk]
  have D: "distinct (map service_key ?adm)"
    and S: "\<forall>c \<in> set ?adm. key_matches K c \<and> proof_verifies K c" by auto
  note sub = worker_grants_admitted [OF J, of K chk "wk_rp w" fs]
  have "subseq (map (map_option service_key) (map (record_call C) ?g))
      (map (map_option service_key) (map Some ?adm))" using sub by (rule subseq_map)
  moreover have "distinct (map (map_option service_key) (map Some ?adm))"
    using D by (simp add: distinct_map inj_on_def comp_def)
  ultimately show "distinct (map (\<lambda>f. map_option service_key (record_call C f)) ?g)"
    using subseq_distinct by (fastforce simp: comp_def)
  show "\<forall>f \<in> set ?g. \<exists>c. record_call C f = Some c \<and> key_matches K c \<and> proof_verifies K c"
    using subseq_set_subset [OF sub] S by fastforce
  show "length (filter (reports_success C) (wk_published w')) =
      length (filter (reports_success C) (wk_published w)) + length ?g"
    using J b by (rule grants_are_published)
qed

theorem kafka_one_success_per_proof_witness:
  "distinct (map (\<lambda>f. map_option service_key (record_call wire_codecs f))
     (worker_grants gf2 wire_codecs True ReplayProtector_default
       [(0, quiet_env, alice_record (gf2_proof 0 one_nonce False)),
        (1, quiet_env, alice_record (gf2_proof 0 one_nonce False))]))"
proof -
  let ?fs = "[(0, quiet_env, alice_record (gf2_proof 0 one_nonce False)),
        (1, quiet_env, alice_record (gf2_proof 0 one_nonce False))]"
  let ?w = "\<lparr>wk_offset = 0, wk_rp = ReplayProtector_default, wk_published = [], wk_errors = []\<rparr>"
  have J: "json_ok (res_json wire_codecs)" by (simp add: wire_serializers_ok)
  have I: "rp_invar (wk_rp ?w)" by (simp add: rp_invar_default)
  have c: "\<forall>f \<in> set ?fs. clock_in_range (wk_rp ?w) (env_now (fst (snd f)))"
    "sorted (map (\<lambda>f. sint (env_now (fst (snd f)))) ?fs)"
    by (simp_all add: clock_in_range_def i64_max_def)
  obtain r w' where b: "worker_batch gf2 wire_codecs True ?w ?fs = (r, w')"
    by (cases "worker_batch gf2 wire_codecs True ?w ?fs")
  from kafka_one_success_per_proof [OF J I c b] show ?thesis by simp
qed

end
