(* ===== verification/Kafka_Prover.thy ===== *)
theory Kafka_Prover
  imports Kafka_Verifier Tcp_Client
begin

text \<open>
  \<open>src/kafka/prover.rs\<close>: the client that publishes a proof request and polls the response topic
  for the answer to it. The broker is external, as in the worker's theory: a poll is given by what
  the broker would return for any offset, and the loop asks for its own; the deadline is the end
  of the list of polls (a poll is one iteration of the \<open>while\<close> loop, entered before the
  deadline). The outcomes of \<open>produce\<close>, the fresh UUID and the clocks are arguments.
\<close>

section \<open>Submitting\<close>

definition event_record :: "string \<Rightarrow> bytes \<Rightarrow> kafka_record" where
  "event_record user_id payload = \<lparr>rec_key = Some (str_bytes user_id), rec_value = Some payload\<rparr>"

text \<open>The result, and what was appended to the request topic.\<close>

definition submit_verification ::
  "('pt, 'sc, 'enc) k256 \<Rightarrow> KafkaAuthRequest serde_json \<Rightarrow> string \<Rightarrow> 'sc UserSecretKey \<Rightarrow> bool \<Rightarrow>
   i64 \<Rightarrow> bytes \<Rightarrow> 'sc \<Rightarrow> string \<Rightarrow> i64 \<Rightarrow> produce_outcome \<Rightarrow>
   ((worker_error, KafkaAuthRequest) result \<times> kafka_record list) run" where
  "submit_verification K J user_id sk tamper now nc k uuid now_millis outcome =
     (let pk = public_key K sk in
      run_bind (generate_proof K sk pk now nc k) (\<lambda>p.
        let p = (if tamper then tamper_scalar p else p);
            request = kafka_request_new uuid now_millis user_id (pk_to_bytes K pk) p
        in Ret (case kreq_to_json_bytes J request of
                  Inl e \<Rightarrow> (Inl (EngineError e), [])
                | Inr payload \<Rightarrow>
                    (case outcome of
                       ProduceFailed e _ \<Rightarrow> Inl (BrokerError e)
                     | Produced \<Rightarrow> Inr request, appended outcome (event_record user_id payload)))))"

section \<open>Waiting for the response\<close>

definition response_in :: "KafkaAuthResponse serde_json \<Rightarrow> kafka_record \<Rightarrow> KafkaAuthResponse option" where
  "response_in J rec =
     (case rec_value rec of
        None \<Rightarrow> None
      | Some val \<Rightarrow> (case kres_from_json_bytes J val of Inl _ \<Rightarrow> None | Inr resp \<Rightarrow> Some resp))"

fun scan_records ::
  "KafkaAuthResponse serde_json \<Rightarrow> string \<Rightarrow> int \<Rightarrow> (int \<times> kafka_record) list \<Rightarrow>
   KafkaAuthResponse option \<times> int" where
  "scan_records J request_id offset [] = (None, offset)"
| "scan_records J request_id offset ((off, rec) # recs) =
     (case response_in J rec of
        Some resp \<Rightarrow>
          if kres_request_id resp = request_id then (Some resp, off + 1)
          else scan_records J request_id (off + 1) recs
      | None \<Rightarrow> scan_records J request_id (off + 1) recs)"

text \<open>One poll: the broker's answer to an offset, or the error that is only logged.\<close>

type_synonym poll = "(string, int \<Rightarrow> (int \<times> kafka_record) list) result"

fun poll_loop ::
  "KafkaAuthResponse serde_json \<Rightarrow> string \<Rightarrow> int \<Rightarrow> poll list \<Rightarrow> KafkaAuthResponse option \<times> int" where
  "poll_loop J request_id offset [] = (None, offset)"
| "poll_loop J request_id offset (Inl e # polls) = poll_loop J request_id offset polls"
| "poll_loop J request_id offset (Inr fetch # polls) =
     (case scan_records J request_id offset (fetch offset) of
        (Some resp, off) \<Rightarrow> (Some resp, off)
      | (None, off) \<Rightarrow> poll_loop J request_id off polls)"

definition wait_for_response ::
  "KafkaAuthResponse serde_json \<Rightarrow> string \<Rightarrow> (string, int) result \<Rightarrow> poll list \<Rightarrow>
   KafkaAuthResponse option" where
  "wait_for_response J request_id earliest polls =
     fst (poll_loop J request_id (case earliest of Inl _ \<Rightarrow> 0 | Inr off \<Rightarrow> off) polls)"

text \<open>What is assumed of the polls: each answers any offset with a contiguous piece of the log from
  there. How far the polls reach when each goes on where the one before ended is a
  specification; it does not look at the loop.\<close>

definition polls_ok :: "kafka_record list \<Rightarrow> poll list \<Rightarrow> bool" where
  "polls_ok log polls \<longleftrightarrow> (\<forall>fetch. Inr fetch \<in> set polls \<longrightarrow> serves log fetch)"

fun poll_reach :: "poll list \<Rightarrow> int \<Rightarrow> int" where
  "poll_reach [] off = off"
| "poll_reach (Inl e # polls) off = poll_reach polls off"
| "poll_reach (Inr fetch # polls) off = poll_reach polls (off + int (length (fetch off)))"

section \<open>The wait finds the first answer\<close>

definition answers :: "KafkaAuthResponse serde_json \<Rightarrow> string \<Rightarrow> kafka_record \<Rightarrow> bool" where
  "answers J request_id rec \<longleftrightarrow>
     (case response_in J rec of None \<Rightarrow> False | Some resp \<Rightarrow> kres_request_id resp = request_id)"

lemma scan_records_None:
  "(\<forall>r \<in> set recs. \<not> answers J request_id (snd r)) \<Longrightarrow>
     scan_records J request_id off recs = (None, if recs = [] then off else fst (last recs) + 1)"
  by (induction J request_id off recs rule: scan_records.induct)
    (auto simp: answers_def split: option.splits if_splits)

lemma scan_records_Some:
  "scan_records J request_id off recs = (Some resp, off') \<Longrightarrow>
     \<exists>n < length recs. response_in J (snd (recs ! n)) = Some resp \<and> kres_request_id resp = request_id \<and>
       (\<forall>i < n. \<not> answers J request_id (snd (recs ! i)))"
proof (induction J request_id off recs rule: scan_records.induct)
  case (1 J request_id offset)
  then show ?case by simp
next
  case (2 J request_id offset off rec recs)
  show ?case
  proof (cases "answers J request_id rec")
    case True
    with 2 show ?thesis by (intro exI [of _ 0]) (auto simp: answers_def split: option.splits)
  next
    case False
    with 2 obtain n where n: "n < length recs" "response_in J (snd (recs ! n)) = Some resp"
      "kres_request_id resp = request_id" "\<forall>i < n. \<not> answers J request_id (snd (recs ! i))"
      by (auto simp: answers_def split: option.splits if_splits)
    with False show ?thesis
      by (intro exI [of _ "Suc n"]) (auto simp: less_Suc_eq_0_disj)
  qed
qed

lemma scan_records_found:
  "(\<exists>off'. scan_records J request_id off recs = (None, off')) \<longleftrightarrow>
     (\<forall>r \<in> set recs. \<not> answers J request_id (snd r))"
  by (induction J request_id off recs rule: scan_records.induct)
    (auto simp: answers_def split: option.splits if_splits)

text \<open>What a poll loop over the log from \<open>off\<close> returns: the first answer, or no answer so far.\<close>

definition first_answer ::
  "KafkaAuthResponse serde_json \<Rightarrow> string \<Rightarrow> kafka_record list \<Rightarrow> int \<Rightarrow> KafkaAuthResponse \<Rightarrow> bool" where
  "first_answer J request_id log off resp \<longleftrightarrow>
     (\<exists>n. nat off + n < length log \<and> response_in J (log ! (nat off + n)) = Some resp \<and>
        kres_request_id resp = request_id \<and> (\<forall>i < n. \<not> answers J request_id (log ! (nat off + i))))"

definition no_answer_until ::
  "KafkaAuthResponse serde_json \<Rightarrow> string \<Rightarrow> kafka_record list \<Rightarrow> int \<Rightarrow> int \<Rightarrow> bool" where
  "no_answer_until J request_id log off off' \<longleftrightarrow>
     (\<exists>n. off' = off + int n \<and> (\<forall>i < n. \<not> answers J request_id (log ! (nat off + i))))"

lemma no_answer_first:
  assumes "no_answer_until J request_id log off off1" "first_answer J request_id log off1 resp" "0 \<le> off"
  shows "first_answer J request_id log off resp"
proof -
  obtain n k where n: "off1 = off + int n" "\<forall>i < n. \<not> answers J request_id (log ! (nat off + i))"
    and k: "nat off1 + k < length log" "response_in J (log ! (nat off1 + k)) = Some resp"
      "kres_request_id resp = request_id" "\<forall>i < k. \<not> answers J request_id (log ! (nat off1 + i))"
    using assms(1,2) by (auto simp: no_answer_until_def first_answer_def)
  have off1: "nat off1 = nat off + n" using n(1) assms(3) by simp
  have "\<not> answers J request_id (log ! (nat off + i))" if "i < n + k" for i
    using n(2) k(4) [rule_format, of "i - n"] that off1 by (cases "i < n") auto
  then show ?thesis
    using k off1 by (auto simp: first_answer_def add.assoc intro!: exI [of _ "n + k"])
qed

lemma no_answer_trans:
  assumes "no_answer_until J request_id log off off1" "no_answer_until J request_id log off1 off2" "0 \<le> off"
  shows "no_answer_until J request_id log off off2"
proof -
  obtain n k where n: "off1 = off + int n" "\<forall>i < n. \<not> answers J request_id (log ! (nat off + i))"
    and k: "off2 = off1 + int k" "\<forall>i < k. \<not> answers J request_id (log ! (nat off1 + i))"
    using assms(1,2) by (auto simp: no_answer_until_def)
  have off1: "nat off1 = nat off + n" using n(1) assms(3) by simp
  have "\<not> answers J request_id (log ! (nat off + i))" if "i < n + k" for i
    using n(2) k(2) [rule_format, of "i - n"] that off1 by (cases "i < n") auto
  then show ?thesis
    unfolding no_answer_until_def using n(1) k(1) by (intro exI [of _ "n + k"]) auto
qed

lemma fetch_nth:
  assumes "is_fetch log off recs" "i < length recs"
  shows "recs ! i = (off + int i, log ! (nat off + i)) \<and> nat off + i < length log"
  using fetch_is_segment [OF assms(1)] log_segment_nth [OF assms(2), of log off] assms(2) by fastforce

lemma scan_fetch:
  assumes f: "is_fetch log off recs" and s: "scan_records J request_id off recs = (r, off')"
  shows "case r of Some resp \<Rightarrow> first_answer J request_id log off resp
    | None \<Rightarrow> no_answer_until J request_id log off off' \<and> off' = off + int (length recs)"
proof (cases r)
  case None
  then have no: "\<forall>r \<in> set recs. \<not> answers J request_id (snd r)"
    using s scan_records_found [of J request_id off recs] by blast
  have "\<not> answers J request_id (log ! (nat off + i))" if "i < length recs" for i
    using no fetch_nth [OF f that] that by (metis nth_mem snd_conv)
  moreover have "recs \<noteq> [] \<Longrightarrow> int (length recs - Suc 0) + 1 = int (length recs)"
    by (cases recs) auto
  then have "off' = off + int (length recs)"
    using scan_records_None [OF no, of off] s fetch_nth [OF f, of "length recs - 1"]
    by (cases "recs = []") (auto simp: last_conv_nth)
  ultimately show ?thesis using None by (auto simp: no_answer_until_def)
next
  case (Some resp)
  from scan_records_Some [OF s [unfolded Some]] obtain n where
    n: "n < length recs" "response_in J (snd (recs ! n)) = Some resp" "kres_request_id resp = request_id"
      "\<forall>i < n. \<not> answers J request_id (snd (recs ! i))" by blast
  have "snd (recs ! i) = log ! (nat off + i)" if "i \<le> n" for i
    using fetch_nth [OF f, of i] that n(1) by simp
  then show ?thesis
    using n fetch_nth [OF f n(1)] Some by (auto simp: first_answer_def intro!: exI [of _ n])
qed

lemma poll_loop_first:
  assumes "polls_ok log polls" "0 \<le> off" "poll_loop J request_id off polls = (r, off')"
  shows "case r of Some resp \<Rightarrow> first_answer J request_id log off resp
    | None \<Rightarrow> no_answer_until J request_id log off off' \<and> off' = poll_reach polls off"
  using assms
proof (induction J request_id off polls rule: poll_loop.induct)
  case (1 J request_id off)
  then show ?case by (auto simp: no_answer_until_def)
next
  case (2 J request_id off e polls)
  then show ?case by (auto simp: polls_ok_def split: option.splits)
next
  case (3 J request_id off fetch polls)
  from 3(2) have "serves log fetch" and ok: "polls_ok log polls" by (auto simp: polls_ok_def)
  with 3(3) have f: "is_fetch log off (fetch off)" by (simp add: serves_def)
  obtain r1 off1 where s: "scan_records J request_id off (fetch off) = (r1, off1)"
    by (cases "scan_records J request_id off (fetch off)")
  show ?case
  proof (cases r1)
    case (Some resp)
    with scan_fetch [OF f s] 3(4) s show ?thesis by auto
  next
    case None
    with scan_fetch [OF f s] have no: "no_answer_until J request_id log off off1"
      and off1: "off1 = off + int (length (fetch off))" by auto
    have loop: "poll_loop J request_id off1 polls = (r, off')" using 3(4) s None by simp
    have "0 \<le> off1" using off1 3(3) by simp
    from 3(1) [OF s [symmetric] None ok this loop] off1 show ?thesis
      using no_answer_first [OF no _ 3(3)] no_answer_trans [OF no _ 3(3)] by (auto split: option.splits)
  qed
qed

lemma wait_outcome:
  assumes "polls_ok log polls" "start = (case earliest of Inl _ \<Rightarrow> 0 | Inr off \<Rightarrow> off)" "0 \<le> start"
  shows "case wait_for_response J request_id earliest polls of
      Some resp \<Rightarrow> first_answer J request_id log start resp
    | None \<Rightarrow> no_answer_until J request_id log start (poll_reach polls start)"
proof -
  obtain r off' where p: "poll_loop J request_id start polls = (r, off')"
    by (cases "poll_loop J request_id start polls")
  then have "wait_for_response J request_id earliest polls = r"
    by (simp add: wait_for_response_def assms(2))
  with poll_loop_first [OF assms(1,3) p] show ?thesis by (auto split: option.splits)
qed

lemma wait_Some_first:
  assumes "polls_ok log polls" "start = (case earliest of Inl _ \<Rightarrow> 0 | Inr off \<Rightarrow> off)" "0 \<le> start"
    and "wait_for_response J request_id earliest polls = Some resp"
  shows "first_answer J request_id log start resp"
  using wait_outcome [OF assms(1-3), of J request_id] assms(4) by simp

lemma wait_None_unanswered:
  assumes "polls_ok log polls" "start = (case earliest of Inl _ \<Rightarrow> 0 | Inr off \<Rightarrow> off)" "0 \<le> start"
    and "wait_for_response J request_id earliest polls = None"
    and i: "start \<le> int i" "int i < poll_reach polls start"
  shows "\<not> answers J request_id (log ! i)"
proof -
  from wait_outcome [OF assms(1-3), of J request_id] assms(4)
  obtain n where n: "poll_reach polls start = start + int n"
    "\<forall>j < n. \<not> answers J request_id (log ! (nat start + j))" by (auto simp: no_answer_until_def)
  have "nat start + (i - nat start) = i" "i - nat start < n" using i n(1) assms(3) by linarith+
  with n(2) show ?thesis by metis
qed

text \<open>C27: waiting for the response. Whatever pieces of the response log the broker returns for the
  offsets the loop asks for, and whatever polls fail, a response that \<open>wait_for_response\<close> returns
  is the first one in the log, from the earliest offset on, with the request's id; records
  without a value or with undecodable bytes are passed over. And the loop misses nothing: the
  timeout is reported only if no record answers the request up to where polls reach that each
  go on where the one before ended.\<close>

theorem wait_returns_first_answer:
  assumes log: "polls_ok log polls"
    and start: "start = (case earliest of Inl _ \<Rightarrow> 0 | Inr off \<Rightarrow> off)" "0 \<le> start"
  shows "case wait_for_response J request_id earliest polls of
      Some resp \<Rightarrow> first_answer J request_id log start resp
    | None \<Rightarrow> \<forall>i. start \<le> int i \<and> int i < poll_reach polls start \<longrightarrow> \<not> answers J request_id (log ! i)"
  using wait_Some_first [OF assms] wait_None_unanswered [OF assms] by (auto split: option.splits)

text \<open>A response record for the witnesses.\<close>

definition id_response :: "bool \<Rightarrow> KafkaAuthResponse" where
  "id_response b = kafka_response_new 0 ''id'' ''alice'' b ''m''"

definition id_record :: "bool \<Rightarrow> kafka_record" where
  "id_record b = event_record ''alice'' (write_kafka_response (id_response b))"

lemma id_record_response [simp]: "response_in kafka_response_json (id_record b) = Some (id_response b)"
proof -
  have "kafka_response_short (id_response b)"
    by (simp add: kafka_response_short_def id_response_def kafka_response_new_def)
  then have "read_kafka_response (write_kafka_response (id_response b)) = Some (id_response b, [])"
    using readsD [OF reads_kafka_response, of "id_response b" "[]"] by simp
  then show ?thesis
    by (simp add: response_in_def id_record_def event_record_def kres_from_json_bytes_def
        kafka_response_json_def wire_json_def deserialize_with_def)
qed

lemma id_response_id [simp]: "kres_request_id (id_response b) = ''id''" "kres_success (id_response b) = b"
  by (simp_all add: id_response_def kafka_response_new_def)

lemma serve_one [simp]:
  "serve log (Suc 0) off = (if nat off < length log then [(off, log ! nat off)] else [])"
  by (cases "length log - nat off") (auto simp: serve_def log_segment_def)

lemma polls_ok_serve [simp]:
  "polls_ok log []" "polls_ok log (Inl e # polls) = polls_ok log polls"
  "polls_ok log (Inr (serve log n) # polls) = polls_ok log polls"
  by (auto simp: polls_ok_def)

text \<open>The answer is the second record, and each poll gets one.\<close>

theorem wait_returns_first_answer_witness:
  "\<exists>resp. wait_for_response kafka_response_json ''id'' (Inl ''no offset'')
     [Inr (serve [\<lparr>rec_key = None, rec_value = None\<rparr>, id_record True] 1), Inl ''timeout'',
      Inr (serve [\<lparr>rec_key = None, rec_value = None\<rparr>, id_record True] 1)] = Some resp \<and>
   first_answer kafka_response_json ''id'' [\<lparr>rec_key = None, rec_value = None\<rparr>, id_record True] 0 resp"
proof -
  let ?log = "[\<lparr>rec_key = None, rec_value = None\<rparr>, id_record True]"
  let ?polls = "[Inr (serve ?log 1), Inl ''timeout'', Inr (serve ?log 1)]"
  have ok: "polls_ok ?log ?polls" by simp
  have start: "0 = (case Inl ''no offset'' of Inl _ \<Rightarrow> 0 | Inr off \<Rightarrow> off)" "(0 :: int) \<le> 0" by simp_all
  have reach: "poll_reach ?polls 0 = 2" by simp
  have ans: "answers kafka_response_json ''id'' (?log ! 1)" by (simp add: answers_def)
  note result = wait_returns_first_answer [OF ok start, of kafka_response_json "''id''"]
  show ?thesis
  proof (cases "wait_for_response kafka_response_json ''id'' (Inl ''no offset'') ?polls")
    case None
    from result [unfolded None option.case reach, rule_format, of 1]
    have "\<not> answers kafka_response_json ''id'' (?log ! 1)" by simp
    with ans show ?thesis by contradiction
  next
    case (Some resp)
    from result [unfolded Some option.case] Some show ?thesis by blast
  qed
qed

lemma wait_reads_first:
  assumes ok: "polls_ok (pre @ old # later) polls"
    and start: "0 = (case earliest of Inl _ \<Rightarrow> 0 | Inr off \<Rightarrow> off)"
    and none: "\<forall>r \<in> set pre. \<not> answers J request_id r"
    and old: "response_in J old = Some resp" "kres_request_id resp = request_id"
    and reach: "int (length pre) < poll_reach polls 0"
  shows "wait_for_response J request_id earliest polls = Some resp"
proof (cases "wait_for_response J request_id earliest polls")
  case None
  have "answers J request_id old" using old by (simp add: answers_def)
  with wait_None_unanswered [OF ok start _ None _ reach] show ?thesis by simp
next
  case (Some r)
  with wait_Some_first [OF ok start _ Some]
  have "first_answer J request_id (pre @ old # later) 0 r" by simp
  then obtain n where n: "response_in J ((pre @ old # later) ! n) = Some r" "kres_request_id r = request_id"
    "\<forall>i < n. \<not> answers J request_id ((pre @ old # later) ! i)"
    by (auto simp: first_answer_def)
  have "n = length pre"
  proof (rule linorder_cases)
    assume "n < length pre"
    with none n show ?thesis by (auto simp: nth_append answers_def dest!: nth_mem)
  next
    assume "length pre < n"
    with n(3) [rule_format, of "length pre"] old show ?thesis by (simp add: answers_def)
  qed
  with n(1) old(1) Some show ?thesis by simp
qed

lemma first_answer_extend:
  "first_answer J request_id log off resp \<Longrightarrow> first_answer J request_id (log @ later) off resp"
  by (auto simp: first_answer_def nth_append)

lemma first_answer_unique:
  assumes "first_answer J request_id log off resp" "first_answer J request_id log off resp'"
  shows "resp = resp'"
proof -
  obtain n n' where
    n: "response_in J (log ! (nat off + n)) = Some resp" "kres_request_id resp = request_id"
      "\<forall>i < n. \<not> answers J request_id (log ! (nat off + i))" and
    n': "response_in J (log ! (nat off + n')) = Some resp'" "kres_request_id resp' = request_id"
      "\<forall>i < n'. \<not> answers J request_id (log ! (nat off + i))"
    using assms by (auto simp: first_answer_def)
  then have "\<not> n < n'" "\<not> n' < n" by (auto simp: answers_def)
  with n(1) n'(1) show ?thesis by simp
qed

text \<open>The second wait of a replay test reads the first response. Once \<open>wait_for_response\<close> has
  returned a response to a request id, a later call for the same id returns that response
  again or times out, whatever was appended to the response log in between: it starts at the
  earliest offset again. The replay test of \<open>kafka_prover\<close> waits for the same id twice, so it
  takes the success of the original request for the answer to the replay.\<close>

theorem second_wait_reads_old_answer:
  assumes start: "start = (case earliest of Inl _ \<Rightarrow> 0 | Inr off \<Rightarrow> off)" "0 \<le> start"
    and ok1: "polls_ok log polls"
    and w1: "wait_for_response J request_id earliest polls = Some resp"
    and ok2: "polls_ok (log @ later) polls'"
  shows "wait_for_response J request_id earliest polls' \<in> {None, Some resp}"
proof (cases "wait_for_response J request_id earliest polls'")
  case (Some resp')
  have "resp' = resp"
    using wait_Some_first [OF ok2 start Some] first_answer_extend [OF wait_Some_first [OF ok1 start w1]]
    by (rule first_answer_unique)
  with Some show ?thesis by simp
qed simp

theorem second_wait_reads_old_answer_witness:
  "wait_for_response kafka_response_json ''id'' (Inr 0)
     [Inr (serve ([id_record True] @ [id_record False]) 2)] \<in> {None, Some (id_response True)}"
proof (rule second_wait_reads_old_answer)
  show "0 = (case Inr 0 of Inl _ \<Rightarrow> 0 | Inr off \<Rightarrow> (off :: int))" by simp
  show "wait_for_response kafka_response_json ''id'' (Inr 0) [Inr (serve [id_record True] 1)] =
      Some (id_response True)"
    by (simp add: wait_for_response_def)
  show "polls_ok [id_record True] [Inr (serve [id_record True] 1)]"
    and "polls_ok ([id_record True] @ [id_record False]) [Inr (serve ([id_record True] @ [id_record False]) 2)]"
    by (simp_all only: polls_ok_serve)
qed simp

text \<open>An honest submission, for the witnesses.\<close>

definition honest_alice :: Proof where "honest_alice = gf2_proof 0 one_nonce False"

lemma alice_submits:
  "submit_verification gf2 (req_json wire_codecs) ''alice'' gf2_sk False 0 one_nonce True ''id'' 0 Produced =
     Ret (Inr (alice_event honest_alice), [alice_record honest_alice])"
proof -
  have "kafka_request_short (alice_event honest_alice)"
    by (simp add: kafka_request_short_def proof_short_def proof_wf_def gf2_point_def one_nonce_def
        honest_alice_def)
  then show ?thesis
    by (simp add: submit_verification_def Let_def gf2_public_key gf2_honest_proof kreq_to_json_bytes_def
        kafka_request_json_def wire_json_def serialize_with_def alice_record_def event_record_def
        alice_event_def honest_alice_def)
qed

end
