(* ===== verification/Cli_Main.thy ===== *)
theory Cli_Main
  imports Cli_Keys Tcp_Client Kafka_Prover
begin

text \<open>
  The command-line programs under \<open>src/bin/\<close>: the loops over the arguments, one per program, and
  the main functions of the two clients. The arguments are those after the program's name; a
  loop that sees \<open>--help\<close> prints the usage and ends the program (\<open>None\<close>). Printing has no
  counterpart; the results are what the reports print.
\<close>

section \<open>Arguments\<close>

text \<open>\<open>args[i + 1]\<close> when there is one: an option at the end of the line is ignored.\<close>

definition take_value :: "(string \<Rightarrow> 'o \<Rightarrow> 'o) \<Rightarrow> string list \<Rightarrow> 'o \<Rightarrow> 'o \<times> string list" where
  "take_value set_opt rest opts = (case rest of [] \<Rightarrow> (opts, []) | v # rest' \<Rightarrow> (set_opt v opts, rest'))"

lemma length_take_value [termination_simp]: "length (snd (take_value f rest opts)) = length rest - 1"
  by (simp add: take_value_def split: list.split)

text \<open>\<open>str::parse::<i32>\<close>: an optional sign, at least one decimal digit, the value in range.\<close>

definition decimal_digit :: "char \<Rightarrow> nat option" where
  "decimal_digit c = (let n = of_char c :: nat in if 48 \<le> n \<and> n \<le> 57 then Some (n - 48) else None)"

fun decimal_value :: "nat \<Rightarrow> string \<Rightarrow> nat option" where
  "decimal_value acc [] = Some acc"
| "decimal_value acc (c # cs) =
     (case decimal_digit c of None \<Rightarrow> None | Some d \<Rightarrow> decimal_value (10 * acc + d) cs)"

definition parse_i32 :: "string \<Rightarrow> int option" where
  "parse_i32 s =
     (let (neg, digits) = (case s of c # cs \<Rightarrow> if c = CHR ''-'' then (True, cs)
                              else if c = CHR ''+'' then (False, cs) else (False, s) | [] \<Rightarrow> (False, []))
      in if digits = [] then None
         else case decimal_value 0 digits of
           None \<Rightarrow> None
         | Some n \<Rightarrow>
             (let v = (if neg then - int n else int n) in
              if - (2 ^ 31) \<le> v \<and> v < 2 ^ 31 then Some v else None))"

definition parse_partition :: "string \<Rightarrow> int" where
  "parse_partition s = (case parse_i32 s of Some v \<Rightarrow> v | None \<Rightarrow> 0)"

record server_opts =
  so_addr :: string
  so_db :: string

fun bank_server_args :: "server_opts \<Rightarrow> string list \<Rightarrow> server_opts" where
  "bank_server_args opts [] = opts"
| "bank_server_args opts (a # rest) =
     (if a = ''--addr'' then
        (let (opts, rest) = take_value (\<lambda>v. so_addr_update (\<lambda>_. v)) rest opts in bank_server_args opts rest)
      else if a = ''--db'' then
        (let (opts, rest) = take_value (\<lambda>v. so_db_update (\<lambda>_. v)) rest opts in bank_server_args opts rest)
      else bank_server_args (if take 1 a \<noteq> ''-'' then opts\<lparr>so_addr := a\<rparr> else opts) rest)"

record enroll_opts =
  eo_db :: string
  eo_user :: "string option"
  eo_list :: bool

fun enroll_user_args :: "enroll_opts \<Rightarrow> string list \<Rightarrow> enroll_opts option" where
  "enroll_user_args opts [] = Some opts"
| "enroll_user_args opts (a # rest) =
     (if a = ''--db'' then
        (let (opts, rest) = take_value (\<lambda>v. eo_db_update (\<lambda>_. v)) rest opts in enroll_user_args opts rest)
      else if a = ''--user'' then
        (let (opts, rest) = take_value (\<lambda>v. eo_user_update (\<lambda>_. Some v)) rest opts in enroll_user_args opts rest)
      else if a = ''--list'' then enroll_user_args (opts\<lparr>eo_list := True\<rparr>) rest
      else if a = ''--help'' \<or> a = ''-h'' then None
      else enroll_user_args opts rest)"

record worker_opts =
  wo_broker :: string
  wo_partition :: int
  wo_db :: string

fun kafka_verifier_args :: "worker_opts \<Rightarrow> string list \<Rightarrow> worker_opts option" where
  "kafka_verifier_args opts [] = Some opts"
| "kafka_verifier_args opts (a # rest) =
     (if a = ''--broker'' then
        (let (opts, rest) = take_value (\<lambda>v. wo_broker_update (\<lambda>_. v)) rest opts in kafka_verifier_args opts rest)
      else if a = ''--partition'' then
        (let (opts, rest) = take_value (\<lambda>v. wo_partition_update (\<lambda>_. parse_partition v)) rest opts
         in kafka_verifier_args opts rest)
      else if a = ''--db'' then
        (let (opts, rest) = take_value (\<lambda>v. wo_db_update (\<lambda>_. v)) rest opts in kafka_verifier_args opts rest)
      else if a = ''--help'' \<or> a = ''-h'' then None
      else kafka_verifier_args opts rest)"

record client_opts =
  co_addr :: string
  co_user :: string
  co_tamper :: bool
  co_replay :: bool
  co_unregistered :: bool

fun user_client_args :: "client_opts \<Rightarrow> string list \<Rightarrow> client_opts option" where
  "user_client_args opts [] = Some opts"
| "user_client_args opts (a # rest) =
     (if a = ''--addr'' then
        (let (opts, rest) = take_value (\<lambda>v. co_addr_update (\<lambda>_. v)) rest opts in user_client_args opts rest)
      else if a = ''--user'' then
        (let (opts, rest) = take_value (\<lambda>v. co_user_update (\<lambda>_. v)) rest opts in user_client_args opts rest)
      else if a = ''--tamper'' then user_client_args (opts\<lparr>co_tamper := True\<rparr>) rest
      else if a = ''--replay'' then user_client_args (opts\<lparr>co_replay := True\<rparr>) rest
      else if a = ''--unregistered'' then user_client_args (opts\<lparr>co_unregistered := True\<rparr>) rest
      else if a = ''--help'' \<or> a = ''-h'' then None
      else user_client_args opts rest)"

record prover_opts =
  po_broker :: string
  po_user :: string
  po_partition :: int
  po_tamper :: bool
  po_replay :: bool
  po_unregistered :: bool

fun kafka_prover_args :: "prover_opts \<Rightarrow> string list \<Rightarrow> prover_opts option" where
  "kafka_prover_args opts [] = Some opts"
| "kafka_prover_args opts (a # rest) =
     (if a = ''--broker'' then
        (let (opts, rest) = take_value (\<lambda>v. po_broker_update (\<lambda>_. v)) rest opts in kafka_prover_args opts rest)
      else if a = ''--user'' then
        (let (opts, rest) = take_value (\<lambda>v. po_user_update (\<lambda>_. v)) rest opts in kafka_prover_args opts rest)
      else if a = ''--partition'' then
        (let (opts, rest) = take_value (\<lambda>v. po_partition_update (\<lambda>_. parse_partition v)) rest opts
         in kafka_prover_args opts rest)
      else if a = ''--tamper'' then kafka_prover_args (opts\<lparr>po_tamper := True\<rparr>) rest
      else if a = ''--replay'' then kafka_prover_args (opts\<lparr>po_replay := True\<rparr>) rest
      else if a = ''--unregistered'' then kafka_prover_args (opts\<lparr>po_unregistered := True\<rparr>) rest
      else if a = ''--help'' \<or> a = ''-h'' then None
      else kafka_prover_args opts rest)"

section \<open>Main functions\<close>

datatype main_error = CliError cli_error | WorkerError worker_error | ConnectError string

text \<open>\<open>enroll_user\<close>: the database opened, then the listing or the enrollment.\<close>

definition enroll_user_main ::
  "('pt, 'sc, 'enc) k256 \<Rightarrow> 'sc key_env \<Rightarrow> string option \<Rightarrow> (string \<Rightarrow> string option) \<Rightarrow> enroll_opts \<Rightarrow>
   files \<Rightarrow> Connection \<Rightarrow> (cli_error, (string \<times> string) list) result run \<times> files \<times> Connection" where
  "enroll_user_main K env list_err lookup_err opts fs db =
     (case open_database env db of
        Inl e \<Rightarrow> (Ret (Inl (CliStorage e)), fs, db)
      | Inr registry \<Rightarrow>
          if eo_list opts then (enroll_list K list_err lookup_err registry, fs, database_of registry)
          else (let user = (case eo_user opts of Some u \<Rightarrow> u | None \<Rightarrow> ''alice_fintech'');
                    (res, fs', registry') = enroll_one K env list_err user fs registry
                in (run_bind res (\<lambda>r. Ret (case r of Inl e \<Rightarrow> Inl e | Inr _ \<Rightarrow> Inr [])), fs', database_of registry')))"

text \<open>\<open>bank_server\<close>: registry, its count, binding, then the accept loop over the given events.\<close>

definition bank_server_main ::
  "(string, Connection) result \<Rightarrow> string option \<Rightarrow> string option \<Rightarrow> (string, string) result \<Rightarrow> string option \<Rightarrow>
   'conn server_event list \<Rightarrow> (cli_error, BankServer \<times> 'conn list \<times> bool) result run" where
  "bank_server_main opened table_err count_err bound mem_err events =
     (case open_registry opened table_err of
        Inl e \<Rightarrow> Ret (Inl (CliStorage e))
      | Inr registry \<Rightarrow>
          (case count_users count_err registry of
             Inl e \<Rightarrow> Ret (Inl (CliStorage e))
           | Inr user_count \<Rightarrow>
               run_bind (bind_server bound mem_err) (\<lambda>res.
                 Ret (case res of
                        Inl e \<Rightarrow> Inl (CliIo e)
                      | Inr server \<Rightarrow> Inr (with_registry server registry, server_run events)))))"

text \<open>\<open>kafka_verifier\<close>: registry, its count, the worker, then its loop over the given events.\<close>

definition kafka_verifier_main ::
  "('pt, 'sc, 'enc) k256 \<Rightarrow> kafka_codecs \<Rightarrow> bool \<Rightarrow> (string, Connection) result \<Rightarrow> string option \<Rightarrow>
   string option \<Rightarrow> string option \<Rightarrow> string option \<Rightarrow> (string, int) result \<Rightarrow> worker_event list \<Rightarrow>
   (main_error, KafkaVerifierWorker \<times> worker_end \<times> worker_state) result run" where
  "kafka_verifier_main K C chk opened table_err count_err broker_err mem_err latest events =
     (case open_registry opened table_err of
        Inl e \<Rightarrow> Ret (Inl (CliError (CliStorage e)))
      | Inr registry \<Rightarrow>
          (case count_users count_err registry of
             Inl e \<Rightarrow> Ret (Inl (CliError (CliStorage e)))
           | Inr user_count \<Rightarrow>
               run_bind (worker_new broker_err mem_err) (\<lambda>res.
                 Ret (case res of
                        Inl e \<Rightarrow> Inl (ConnectError e)
                      | Inr worker \<Rightarrow>
                          Inr (worker_with_registry worker registry,
                               worker_run K C chk latest (worker_protector worker) events)))))"

text \<open>\<open>user_client\<close>: the key, the connection, the request, and with \<open>--replay\<close> the same request
  again on the same connection. The result holds the two responses that are reported.\<close>

definition client_user :: "client_opts \<Rightarrow> string \<Rightarrow> string" where
  "client_user opts uuid = (if co_unregistered opts then ''unknown_user_'' @ uuid else co_user opts)"

definition exchange_twice ::
  "bool \<Rightarrow> AuthRequest \<Rightarrow> (AuthRequest \<Rightarrow> ZkpError option \<times> (ZkpError, AuthResponse) result option) \<Rightarrow>
   (AuthRequest \<Rightarrow> ZkpError option \<times> (ZkpError, AuthResponse) result option) \<Rightarrow>
   (main_error, AuthResponse \<times> AuthResponse option) result" where
  "exchange_twice replay request peer1 peer2 =
     (case send_raw_request (fst (peer1 request)) (snd (peer1 request)) of
        Inl e \<Rightarrow> Inl (CliError (CliZkp e))
      | Inr first_resp \<Rightarrow>
          if replay
          then (case send_raw_request (fst (peer2 request)) (snd (peer2 request)) of
                  Inl e \<Rightarrow> Inl (CliError (CliZkp e))
                | Inr replay_resp \<Rightarrow> Inr (first_resp, Some replay_resp))
          else Inr (first_resp, None))"

definition user_client_main ::
  "('pt, 'sc, 'enc) k256 \<Rightarrow> 'sc key_env \<Rightarrow> client_opts \<Rightarrow> string \<Rightarrow> string option \<Rightarrow> i64 \<Rightarrow> bytes \<Rightarrow> 'sc \<Rightarrow>
   (AuthRequest \<Rightarrow> ZkpError option \<times> (ZkpError, AuthResponse) result option) \<Rightarrow>
   (AuthRequest \<Rightarrow> ZkpError option \<times> (ZkpError, AuthResponse) result option) \<Rightarrow> files \<Rightarrow> Connection \<Rightarrow>
   (main_error, AuthResponse \<times> AuthResponse option) result run \<times> files \<times> Connection" where
  "user_client_main K env opts uuid connect_err now nc k peer1 peer2 fs db =
     (let (key, fs', db') =
            obtain_secret_key K env (co_unregistered opts) (client_user opts uuid) fs db
      in (run_bind key (\<lambda>res.
            case res of
              Inl e \<Rightarrow> Ret (Inl (CliError e))
            | Inr sk \<Rightarrow>
                (case client_connect connect_err of
                   Inl e \<Rightarrow> Ret (Inl (CliError (CliIo e)))
                 | Inr _ \<Rightarrow>
                     run_bind (client_request K (client_user opts uuid) sk (co_tamper opts) now nc k)
                       (\<lambda>request. Ret (exchange_twice (co_replay opts) request peer1 peer2)))), fs', db'))"

text \<open>\<open>kafka_prover\<close> after the connection to the broker: the submission, the wait, and with
  \<open>--replay\<close> the same event again and a second wait for its id. What was published, and the
  outcomes of the waits.\<close>

definition prover_user :: "prover_opts \<Rightarrow> string \<Rightarrow> string" where
  "prover_user opts uuid = (if po_unregistered opts then ''unregistered_'' @ uuid else po_user opts)"

type_synonym wait_input = "(string, int) result \<times> poll list"

text \<open>The event once more, over a second connection to the broker: the result of producing it, and
  what was appended.\<close>

definition replay_event ::
  "KafkaAuthRequest serde_json \<Rightarrow> string \<Rightarrow> KafkaAuthRequest \<Rightarrow> string option \<Rightarrow> produce_outcome \<Rightarrow>
   (main_error, unit) result \<times> kafka_record list" where
  "replay_event J user req connect_err outcome =
     (case kreq_to_json_bytes J req of
        Inl e \<Rightarrow> (Inl (WorkerError (EngineError e)), [])
      | Inr payload \<Rightarrow>
          (case connect_err of
             Some e \<Rightarrow> (Inl (ConnectError e), [])
           | None \<Rightarrow>
               (case outcome of
                  ProduceFailed e _ \<Rightarrow> Inl (WorkerError (BrokerError e))
                | Produced \<Rightarrow> Inr (), appended outcome (event_record user payload))))"

definition submit_and_wait ::
  "('pt, 'sc, 'enc) k256 \<Rightarrow> KafkaAuthRequest serde_json \<Rightarrow> KafkaAuthResponse serde_json \<Rightarrow> string \<Rightarrow> bool \<Rightarrow>
   bool \<Rightarrow> 'sc UserSecretKey \<Rightarrow> i64 \<Rightarrow> bytes \<Rightarrow> 'sc \<Rightarrow> string \<Rightarrow> i64 \<Rightarrow> produce_outcome \<Rightarrow> string option \<Rightarrow>
   produce_outcome \<Rightarrow> wait_input \<Rightarrow> wait_input \<Rightarrow>
   ((main_error, KafkaAuthResponse option \<times> KafkaAuthResponse option option) result \<times> kafka_record list) run" where
  "submit_and_wait K J JR user tamper replay sk now nc k request_id now_millis produce1 connect2 produce2 wait1 wait2 =
     run_bind (submit_verification K J user sk tamper now nc k request_id now_millis produce1) (\<lambda>(res, pub).
       Ret (case res of
              Inl e \<Rightarrow> (Inl (WorkerError e), pub)
            | Inr req \<Rightarrow>
                (let first = wait_for_response JR (kreq_request_id req) (fst wait1) (snd wait1) in
                 if \<not> replay then (Inr (first, None), pub)
                 else (case replay_event J user req connect2 produce2 of
                         (Inl e, again) \<Rightarrow> (Inl e, pub @ again)
                       | (Inr _, again) \<Rightarrow>
                           (Inr (first, Some (wait_for_response JR (kreq_request_id req) (fst wait2) (snd wait2))),
                            pub @ again)))))"

definition kafka_prover_main ::
  "('pt, 'sc, 'enc) k256 \<Rightarrow> KafkaAuthRequest serde_json \<Rightarrow> KafkaAuthResponse serde_json \<Rightarrow> 'sc key_env \<Rightarrow>
   prover_opts \<Rightarrow> string \<Rightarrow> string option \<Rightarrow> i64 \<Rightarrow> bytes \<Rightarrow> 'sc \<Rightarrow> string \<Rightarrow> i64 \<Rightarrow> produce_outcome \<Rightarrow>
   string option \<Rightarrow> produce_outcome \<Rightarrow> wait_input \<Rightarrow> wait_input \<Rightarrow> files \<Rightarrow> Connection \<Rightarrow>
   ((main_error, KafkaAuthResponse option \<times> KafkaAuthResponse option option) result \<times> kafka_record list) run
     \<times> files \<times> Connection" where
  "kafka_prover_main K J JR env opts uuid broker_err now nc k request_id now_millis produce1 connect2 produce2
     wait1 wait2 fs db =
     (case broker_err of
        Some e \<Rightarrow> (Ret (Inl (ConnectError e), []), fs, db)
      | None \<Rightarrow>
          (let user = prover_user opts uuid;
               (key, fs', db') = obtain_secret_key K env (po_unregistered opts) user fs db
           in (run_bind key (\<lambda>res.
                 case res of
                   Inl e \<Rightarrow> Ret (Inl (CliError e), [])
                 | Inr sk \<Rightarrow>
                     submit_and_wait K J JR user (po_tamper opts) (po_replay opts) sk now nc k request_id
                       now_millis produce1 connect2 produce2 wait1 wait2), fs', db')))"

section \<open>Properties\<close>

text \<open>The partition given on the command line is always an \<open>i32\<close>; anything else means 0.\<close>

lemma parse_partition_range: "- (2 ^ 31) \<le> parse_partition s \<and> parse_partition s < 2 ^ 31"
  by (auto simp: parse_partition_def parse_i32_def Let_def split: option.splits prod.splits)

text \<open>A later value of an option replaces an earlier one, and a flag can stand anywhere.\<close>

lemma user_client_args_last:
  "user_client_args opts [''--user'', u, ''--replay'', ''--user'', v, ''--tamper''] =
     Some (opts\<lparr>co_user := v, co_replay := True, co_tamper := True\<rparr>)"
  by (simp add: take_value_def)

text \<open>The peer of a client whose request the bank server handles.\<close>

definition server_peer ::
  "('pt, 'sc, 'enc) k256 \<Rightarrow> bool \<Rightarrow> i64 \<Rightarrow> UserRegistry \<Rightarrow> ReplayProtector \<Rightarrow> AuthRequest \<Rightarrow>
   ZkpError option \<times> (ZkpError, AuthResponse) result option" where
  "server_peer K chk now reg rp req =
     (None, case fst (handle_request K chk now None reg rp req) of
              Panic _ \<Rightarrow> None
            | Ret resp \<Rightarrow> Some (Inr resp))"

lemma server_peer_success:
  "send_raw_request (fst (server_peer K chk now reg rp req)) (snd (server_peer K chk now reg rp req)) = Inr resp \<Longrightarrow>
     granted (fst (handle_request K chk now None reg rp req)) = res_success resp"
  by (auto simp: server_peer_def send_raw_request_def split: run.splits)

text \<open>C36: the client's replay test. When the server handles both of the client's requests, the
  second after any other requests and with a clock that has not gone back, then the test
  never reports two successes: a replayed proof that was accepted is reported as blocked.\<close>

theorem client_replay_test_blocked:
  fixes K :: "('pt, 'sc, 'enc) k256"
  assumes I: "rp_invar rp" and clocks: "clock_in_range rp t1" "clock_in_range rp t2" "\<forall>i \<in> set ins. clock_in_range rp (fst i)"
    and srt: "sorted (sint t1 # map (\<lambda>i. sint (fst i)) ins @ [sint t2])"
    and rp2: "rp2 = final_state (tcp_step K chk) rp ((t1, None, reg, req) # ins)"
    and run: "exchange_twice True req (server_peer K chk t1 reg rp) (server_peer K chk t2 reg2 rp2) =
      Inr (r1, Some r2)"
  shows "\<not> (res_success r1 \<and> res_success r2)"
proof
  assume succ: "res_success r1 \<and> res_success r2"
  let ?first = "(t1, None, reg, req) :: tcp_input" and ?second = "(t2, None, reg2, req) :: tcp_input"
  let ?all = "?first # ins @ [?second]"
  have "fst (tcp_step K chk rp ?first)" "fst (tcp_step K chk rp2 ?second)"
    using run succ server_peer_success [of K chk t1 reg rp req r1] server_peer_success [of K chk t2 reg2 rp2 req r2]
    by (auto simp: exchange_twice_def tcp_step_def split: sum.splits)
  then have "admitted (tcp_step K chk) rp ?all =
      ?first # admitted (tcp_step K chk) (snd (tcp_step K chk rp ?first)) ins @ [?second]"
    using rp2 by (simp add: admitted_append split_beta Let_def)
  moreover have "distinct (map service_key (admitted (service_step K chk) rp (map input_call ?all)))"
  proof (rule service_successes_sound [THEN conjunct1])
    show "\<forall>c \<in> set (map input_call ?all). clock_in_range rp (call_now c)"
      using clocks by (auto simp: input_call_def)
    have t: "map service_time (map input_call ?all) = sint t1 # map (\<lambda>i. sint (fst i)) ins @ [sint t2]"
      by (auto simp: service_time_def input_call_def)
    show "sorted (map service_time (map input_call ?all))" unfolding t by (rule srt)
  qed (rule I)
  ultimately show False
    unfolding admitted_tcp [symmetric] by (simp add: service_key_def)
qed

theorem client_replay_test_blocked_witness:
  "\<exists>r1 r2. exchange_twice True (alice_request (gf2_proof 0 one_nonce False))
      (server_peer gf2 True 0 alice_registry ReplayProtector_default)
      (server_peer gf2 True 1 alice_registry (final_state (tcp_step gf2 True) ReplayProtector_default
         [(0, None, alice_registry, alice_request (gf2_proof 0 one_nonce False))])) = Inr (r1, Some r2) \<and>
    \<not> (res_success r1 \<and> res_success r2)"
proof -
  let ?req = "alice_request (gf2_proof 0 one_nonce False)"
  let ?rp2 = "final_state (tcp_step gf2 True) ReplayProtector_default ((0, None, alice_registry, ?req) # [])"
  have h: "handle_request gf2 True 0 None alice_registry ReplayProtector_default ?req =
      (Ret (verify_stage ?req (Inr True)), ReplayProtector_default\<lparr>seen_nonces := [((''alice'', one_nonce), 0)]\<rparr>)"
    by (simp add: handle_request_def alice_admitted gf2_point_of_pk gf2_verify gf2_parity_input one_nonce_def)
  then have rp2: "?rp2 = ReplayProtector_default\<lparr>seen_nonces := [((''alice'', one_nonce), 0)]\<rparr>"
    by (simp add: tcp_step_def)
  let ?seen = "ReplayProtector_default\<lparr>seen_nonces := [((''alice'', one_nonce), 0)]\<rparr>"
  have "check_and_record True 1 ?seen ''alice'' (gf2_proof 0 one_nonce False) =
      (Ret (Inl ReplayDetected), ?seen)"
    by (simp add: check_and_record_def check_freshness_def record_nonce_def i64_sub_def i64_neg_def
        retain_recent_def ReplayProtector_default_def ReplayProtector_new_def
        DEFAULT_MAX_DRIFT_SECS_def Let_def)
  then have h2: "handle_request gf2 True 1 None alice_registry ?seen ?req =
      (Ret (replay_rejection ?req ReplayDetected), ?seen)"
    by (simp add: handle_request_def)
  have run: "exchange_twice True ?req (server_peer gf2 True 0 alice_registry ReplayProtector_default)
      (server_peer gf2 True 1 alice_registry ?rp2) =
      Inr (verify_stage ?req (Inr True), Some (replay_rejection ?req ReplayDetected))"
    unfolding rp2 by (simp add: exchange_twice_def server_peer_def send_raw_request_def h h2)
  have c: "clock_in_range ReplayProtector_default 0" "clock_in_range ReplayProtector_default 1"
    "\<forall>i \<in> set []. clock_in_range ReplayProtector_default (fst i)"
    "sorted (sint (0 :: i64) # map (\<lambda>i. sint (fst i)) ([] :: tcp_input list) @ [sint (1 :: i64)])"
    by (simp_all add: clock_in_range_def i64_max_def)
  from client_replay_test_blocked [OF rp_invar_default c refl run] run show ?thesis by blast
qed

text \<open>C37: the prover's replay test. When the first wait of \<open>kafka_prover --replay\<close> returned a
  response, the second wait, for the answer to the re-published event, can only return that
  same response or time out, whatever the worker published in between. So after a successful
  authentication the test reports the replay as accepted (or nothing), although the worker
  rejects it.\<close>

theorem prover_replay_test_misreports:
  assumes run: "submit_and_wait K J JR user tamper True sk now nc k request_id now_millis produce1 connect2 produce2
      (earliest, polls1) (earliest, polls2) = Ret (Inr (Some resp, Some second), pub)"
    and pos: "0 \<le> (case earliest of Inl _ \<Rightarrow> 0 | Inr off \<Rightarrow> off)"
    and log1: "polls_ok log polls1" and log2: "polls_ok (log @ later) polls2"
  shows "second \<in> {None, Some resp}"
proof -
  obtain res pub0 where sub: "submit_verification K J user sk tamper now nc k request_id now_millis produce1 =
      Ret (res, pub0)"
    using run by (auto simp: submit_and_wait_def run_convs split: prod.splits)
  obtain req where res: "res = Inr req" using run sub by (cases res) (simp_all add: submit_and_wait_def)
  obtain again where "replay_event J user req connect2 produce2 = (Inr (), again)"
    using run sub res by (auto simp: submit_and_wait_def Let_def split: prod.splits sum.splits)
  with run sub res have w: "wait_for_response JR (kreq_request_id req) earliest polls1 = Some resp"
    "wait_for_response JR (kreq_request_id req) earliest polls2 = second"
    by (simp_all add: submit_and_wait_def Let_def)
  from second_wait_reads_old_answer [OF refl pos log1 w(1) log2] w(2) show ?thesis by simp
qed

theorem prover_replay_test_misreports_witness:
  "Some (id_response True) \<in> {None, Some (id_response True)} \<and>
   submit_and_wait gf2 kafka_request_json kafka_response_json ''alice'' False True gf2_sk 0 one_nonce True
     ''id'' 0 Produced None Produced (Inr 0, [Inr (serve [id_record True] 1)])
     (Inr 0, [Inr (serve ([id_record True] @ [id_record False]) 1)]) =
   Ret (Inr (Some (id_response True), Some (Some (id_response True))),
     [alice_record honest_alice, alice_record honest_alice])"
proof -
  let ?p1 = "[Inr (serve [id_record True] 1)]" and ?p2 = "[Inr (serve ([id_record True] @ [id_record False]) 1)]"
  have sub: "submit_verification gf2 kafka_request_json ''alice'' gf2_sk False 0 one_nonce True ''id'' 0 Produced =
      Ret (Inr (alice_event honest_alice), [alice_record honest_alice])"
    using alice_submits by simp
  have again: "replay_event kafka_request_json ''alice'' (alice_event honest_alice) None Produced =
      (Inr (), [alice_record honest_alice])"
    using sub by (simp add: submit_verification_def Let_def gf2_public_key gf2_honest_proof replay_event_def
        alice_event_def honest_alice_def split: sum.splits)
  have waits: "wait_for_response kafka_response_json ''id'' (Inr 0) ?p1 = Some (id_response True)"
    "wait_for_response kafka_response_json ''id'' (Inr 0) ?p2 = Some (id_response True)"
    by (simp_all add: wait_for_response_def)
  have run: "submit_and_wait gf2 kafka_request_json kafka_response_json ''alice'' False True gf2_sk 0 one_nonce True
      ''id'' 0 Produced None Produced (Inr 0, ?p1) (Inr 0, ?p2) =
    Ret (Inr (Some (id_response True), Some (Some (id_response True))),
      [alice_record honest_alice, alice_record honest_alice])"
    using waits unfolding submit_and_wait_def sub by (simp add: again Let_def del: append.simps)
  have logs: "polls_ok [id_record True] ?p1" "polls_ok ([id_record True] @ [id_record False]) ?p2"
    by (simp_all only: polls_ok_serve)
  from prover_replay_test_misreports [OF run _ logs] run show ?thesis by simp
qed

end
