(* ===== verification/Spec2Isabelle.thy ===== *)
theory Spec2Isabelle
  imports Tcp_System Cli_Main
begin

text \<open>
  A model of \<open>zkp_verifier\<close>, a Schnorr identification service: a user proves knowledge of a
  secp256k1 secret key to a bank, over TCP or over Kafka.

  \<^bold>\<open>The program.\<close> A proof is a commitment \<open>R\<close>, a response \<open>s\<close>, a timestamp and a nonce; the
  challenge is the SHA-256 of \<open>R\<close>, the public key, the timestamp and the nonce. The bank keeps
  the public keys of its users in a SQLite table, and a cache of recent nonces. A request (user,
  key, proof) passes four stages: the stored key is looked up, compared with the request's, the
  replay protector checks the timestamp against the clock and the nonce against its cache, and
  the proof is verified. The TCP server answers on the connection that sent the request; the
  Kafka worker reads requests from one topic and publishes results on another.

  \<^bold>\<open>Theories, in the order of the code's layers.\<close>
    \<^item> \<open>Rust_Base\<close>: bytes, \<open>i64\<close> with and without overflow checks, panics (\<open>run\<close>), errors (sums),
      big-endian byte strings, decimal rendering, association lists.
    \<^item> \<open>Zkp_Core_Engine\<close> (\<open>src/zkp_core_engine.rs\<close>): the engine's data and functions. \<open>Schnorr\<close>:
      completeness, special soundness, zero knowledge, uniqueness of the response, what the
      challenge binds, panics and errors of \<open>verify\<close>, key encodings, \<open>is_fresh\<close>. \<open>Gf2_Curve\<close>: a
      concrete instance of the curve interface, for witnesses.
    \<^item> \<open>Replay\<close> (\<open>src/replay.rs\<close>): the nonce cache and its mutex. It interprets the locale
      \<open>replay_guard\<close> of \<open>Guard_Interface\<close>, the contract of a guard that admits no call twice.
    \<^item> \<open>Storage\<close> (\<open>src/storage.rs\<close>): the table, as a refinement of a finite map (locale
      \<open>key_directory\<close>).
    \<^item> \<open>Codec\<close> (\<open>src/codec.rs\<close>): framing, with the locale \<open>framing\<close> for stream readers.
    \<^item> \<open>Protocol\<close> (\<open>src/protocol.rs\<close>): messages and conversions. \<open>Wire_Instance\<close>: a concrete
      serializer with the layout of \<open>bincode\<close>, for witnesses.
    \<^item> \<open>Service\<close>: the decision that both services make, as an instance of the locale
      \<open>gated_guard\<close> (a guard behind a gate and before a confirmation, which is a guard again).
    \<^item> \<open>Tcp_Server\<close>, \<open>Tcp_Client\<close> (\<open>src/tcp/\<close>): one request, one connection, the accept loop; the
      prover's side. \<open>Tcp_System\<close>: the connections as concurrent tasks, a step relation with the
      suspension points between the accesses to shared state; its safety invariant, the run
      that breaks it when tasks enter the mutex out of order, and the refinement of the
      sequential handler.
    \<^item> \<open>Kafka_Verifier\<close>, \<open>Kafka_Prover\<close> (\<open>src/kafka/\<close>): one record, the consumption loop over the
      request log, submission, the poll loop over the response log.
    \<^item> \<open>Cli_Keys\<close>, \<open>Cli_Main\<close> (\<open>src/bin/\<close>): hexadecimal key files with automatic enrollment, the
      argument loops and main functions of the five programs.
    \<^item> This theory: authentication end to end over TCP and over Kafka, and what the unbound user
      id allows.

  \<^bold>\<open>How the model corresponds to the code.\<close> One definition per function, under the code's name
  where the name is free; a function that mutates returns the new state; \<open>Result\<close> is a sum with
  the error on the left; a panic is \<open>Panic\<close> with its message; a \<open>Mutex\<close> is its content and, where a
  panic under the lock is possible, its poisoned flag. Machine integers are words: \<open>i64\<close> is
  \<open>64 word\<close> read by \<open>sint\<close>, and the flag \<open>chk\<close> says whether the build checks for overflow.
  Strings are the byte sequences of their UTF-8 form.

  \<^bold>\<open>Parameters.\<close> Code outside the repository is an argument: \<open>k256\<close> and \<open>sha2\<close> (record \<open>k256\<close>),
  \<open>bincode\<close>, \<open>serde_json\<close>, SQLite (its verdict on each statement), the sockets (what they deliver),
  the broker (what a fetch returns for the offset the loop asks for, and what comes of
  \<open>produce\<close>: an error can be reported for a record that was appended), randomness and the clocks.
  What is assumed of them is a named predicate: \<open>k256_bytes_ok\<close>, \<open>k256_group_ok\<close>, \<open>bincode_ok\<close>,
  \<open>json_ok\<close>, \<open>serves\<close> (a fetch at an offset is a contiguous piece of the log from there). Concrete
  instances satisfy them.

  \<^bold>\<open>Loops.\<close> Loops over connections, records and polls run over the list of events that the
  environment delivers, so every function is total; the accept and consumption loops stay
  running when their list ends. Nothing in the model uses fuel.

  \<^bold>\<open>What the theorems show.\<close> Of the scheme: an honest proof verifies, two answers to one commitment
  give the secret away, a transcript can be simulated, a changed response is rejected, and the
  timestamp and nonce cannot be changed without a hash collision. Of the services: success
  means the four stages passed; no proof succeeds twice, over any sequence of requests, over
  concurrent connections, and over any log of records, as long as the clock and the order of
  entries into the mutex do not go back; no connection poisons the mutex or evicts a nonce that
  is inside the window; both services decide alike; responses answer their
  requests in order; every record of the log up to the fetched offset is processed once, in
  order, and the poll loop passes over no answer. Of the parts: framing survives any cut of the
  stream, the table behaves as a map, keys are read back, and pruning gives up exactly the
  nonces that come again under a new timestamp after the old one has left the window.
  Where the code falls short the theorems say so: a response scalar of a wrong length panics
  (and stops the Kafka worker), a failed proof burns its nonce, a clock that goes back past a
  pruning or a task suspended before the mutex readmits a proof, the replay test of \<open>kafka_prover\<close> reads the
  first response again.

  \<^bold>\<open>Scope.\<close> The guarantees on replay are per protector, that is per process: the server and the
  worker each have their own, empty at the start. A response counts as sent when \<open>send\<close>
  returned \<open>Ok\<close>.

  \<^bold>\<open>Not modelled.\<close> Printing, sleeps, time-outs of the transports, and zeroizing of secrets.
\<close>

text \<open>C1: authentication over TCP, end to end. An honest user's client builds its request and
  encodes it; however the bytes are cut on the way, the server's stream yields exactly that
  request; with the user registered, the clocks within the drift and the nonce unused, the
  handler decides \<open>success: true\<close> for that user. When the response can be encoded, the
  connection sends exactly that one response and ends well, and however its bytes are cut, the
  client's stream yields it and \<open>authenticate\<close> returns it; when it cannot (a user name close to
  the frame size), the connection ends with the codec's error.\<close>

theorem tcp_authentication_end_to_end:
  assumes B: "k256_bytes_ok K" and G: "k256_group_ok K" and k: "k \<noteq> SC_ZERO K"
    and wire: "bincode_ok BQ" "bincode_ok BR"
    and I: "rp_invar rp" and C: "clock_in_range rp now"
    and reg: "get_public_key K dberr reg u = Inr (Some (public_key K sk))"
    and fresh: "\<bar>sint now - sint ts\<bar> \<le> sint (max_drift_secs rp)"
    and unused: "map_of (seen_nonces rp) (u, nc) = None"
    and req: "client_request K u sk False ts nc k = Ret req"
    and sent: "encode BQ codec_new req [] = (Inr (), f)" "concat chunks = f"
  shows "read_chunks (split_message BQ codec_new) [] chunks = ([req], []) \<and>
    (\<exists>resp rp'. handle_request K chk now dberr reg rp req = (Ret resp, rp') \<and>
      res_success resp \<and> res_user_id resp = u \<and>
      (\<forall>e g. encode BR codec_new resp [] = (Inl e, g) \<longrightarrow>
         handle_connection K BR chk rp
           [\<lparr>ev_message = Inr req, ev_now = now, ev_dberr = dberr, ev_registry = reg, ev_send = None\<rparr>] =
           ([], Ret (Inl e), rp')) \<and>
      (\<forall>g chunks'. encode BR codec_new resp [] = (Inr (), g) \<and> concat chunks' = g \<longrightarrow>
         handle_connection K BR chk rp
           [\<lparr>ev_message = Inr req, ev_now = now, ev_dberr = dberr, ev_registry = reg, ev_send = None\<rparr>] =
           ([resp], Ret (Inr ()), rp') \<and>
         read_chunks (split_message BR codec_new) [] chunks' = ([resp], []) \<and>
         authenticate K u sk False ts nc k (\<lambda>_. (None, Some (Inr resp))) = Ret (Inr resp)))"
proof
  show "read_chunks (split_message BQ codec_new) [] chunks = ([req], [])"
    using wire(1) sent by (rule read_one_message)
  obtain p where p: "generate_proof K sk (public_key K sk) ts nc k = Ret p"
    and r: "req = \<lparr>req_user_id = u, req_public_key = pk_to_bytes K (public_key K sk), req_proof = p\<rparr>"
    using req by (auto simp: client_request_def Let_def run_convs)
  have "granted (fst (handle_request K chk now dberr reg rp req))"
    unfolding r by (rule honest_request_granted [OF B G k I C reg p fresh unused])
  then obtain resp rp' where h: "handle_request K chk now dberr reg rp req = (Ret resp, rp')"
    and ok: "res_success resp"
    by (cases "handle_request K chk now dberr reg rp req") (auto simp: granted_def split: run.splits)
  let ?ev = "\<lparr>ev_message = Inr req, ev_now = now, ev_dberr = dberr, ev_registry = reg, ev_send = None\<rparr>"
  have user: "res_user_id resp = u"
    using handle_request_user [of K chk now dberr reg rp req resp] h r by simp
  have auth: "authenticate K u sk False ts nc k (\<lambda>_. (None, Some (Inr resp))) = Ret (Inr resp)"
    by (simp add: authenticate_def req send_raw_request_def)
  have "handle_connection K BR chk rp [?ev] = ([], Ret (Inl e), rp')"
    if "encode BR codec_new resp [] = (Inl e, g)" for e g
    using h that by (simp add: send_response_def)
  moreover have "handle_connection K BR chk rp [?ev] = ([resp], Ret (Inr ()), rp')"
    if "encode BR codec_new resp [] = (Inr (), g)" for g
    using h that by (simp add: send_response_def)
  ultimately show "\<exists>resp rp'. handle_request K chk now dberr reg rp req = (Ret resp, rp') \<and>
      res_success resp \<and> res_user_id resp = u \<and>
      (\<forall>e g. encode BR codec_new resp [] = (Inl e, g) \<longrightarrow>
         handle_connection K BR chk rp [?ev] = ([], Ret (Inl e), rp')) \<and>
      (\<forall>g chunks'. encode BR codec_new resp [] = (Inr (), g) \<and> concat chunks' = g \<longrightarrow>
         handle_connection K BR chk rp [?ev] = ([resp], Ret (Inr ()), rp') \<and>
         read_chunks (split_message BR codec_new) [] chunks' = ([resp], []) \<and>
         authenticate K u sk False ts nc k (\<lambda>_. (None, Some (Inr resp))) = Ret (Inr resp))"
    using h ok user auth read_one_message [OF wire(2)] by blast
qed

lemma alice_request_encodes:
  "encode request_bincode codec_new (alice_request (gf2_proof 0 one_nonce s)) [] =
    (Inr (), put_frame (write_auth_request (alice_request (gf2_proof 0 one_nonce s))))"
  by (simp add: encode_def request_bincode_def wire_bincode_def serialize_with_def auth_request_short_def
      proof_short_def proof_wf_def write_auth_request_def write_string_def write_bytes_def write_proof_def
      write_u64_def write_i64_def str_bytes_def gf2_point_def one_nonce_def codec_new_def
      MAX_FRAME_SIZE_def)

lemma alice_verdict:
  "handle_request gf2 True 0 None alice_registry ReplayProtector_default
      (alice_request (gf2_proof 0 one_nonce False)) =
    (Ret (verify_stage (alice_request (gf2_proof 0 one_nonce False)) (Inr True)),
     ReplayProtector_default\<lparr>seen_nonces := [((''alice'', one_nonce), 0)]\<rparr>)"
  by (simp add: handle_request_def alice_admitted gf2_point_of_pk gf2_verify gf2_parity_input one_nonce_def)

lemma alice_verdict_encodes:
  "encode response_bincode codec_new (verify_stage (alice_request p) (Inr True)) [] =
    (Inr (), put_frame (write_auth_response (verify_stage (alice_request p) (Inr True))))"
  by (simp add: encode_def response_bincode_def wire_bincode_def serialize_with_def auth_response_short_def
      verify_stage_def response_def write_auth_response_def write_string_def write_bytes_def write_u64_def
      write_bool_def str_bytes_def codec_new_def MAX_FRAME_SIZE_def squote_def)

theorem tcp_authentication_end_to_end_witness:
  "\<exists>resp rp'. handle_connection gf2 response_bincode True ReplayProtector_default
      [\<lparr>ev_message = Inr (alice_request (gf2_proof 0 one_nonce False)), ev_now = 0, ev_dberr = None,
        ev_registry = alice_registry, ev_send = None\<rparr>] = ([resp], Ret (Inr ()), rp') \<and>
    res_success resp \<and> res_user_id resp = ''alice''"
proof -
  let ?req = "alice_request (gf2_proof 0 one_nonce False)"
  let ?f = "put_frame (write_auth_request ?req)"
  let ?resp = "verify_stage ?req (Inr True)"
  have k: "True \<noteq> SC_ZERO gf2" by simp
  have C: "clock_in_range ReplayProtector_default 0" by (simp add: clock_in_range_def i64_max_def)
  have reg: "get_public_key gf2 None alice_registry ''alice'' = Inr (Some (public_key gf2 gf2_sk))"
    by (simp add: gf2_public_key)
  have fresh: "\<bar>sint (0 :: i64) - sint (0 :: i64)\<bar> \<le> sint (max_drift_secs ReplayProtector_default)" by simp
  have unused: "map_of (seen_nonces ReplayProtector_default) (''alice'', one_nonce) = None" by simp
  have req: "client_request gf2 ''alice'' gf2_sk False 0 one_nonce True = Ret ?req"
    using alice_client_request [of False] by simp
  have cut: "concat [take 10 ?f, drop 10 ?f] = ?f" by simp
  from tcp_authentication_end_to_end [OF gf2_bytes_ok gf2_group_ok k wire_serializers_ok(1,2)
      rp_invar_default C reg fresh unused req alice_request_encodes cut, of True]
  obtain resp rp' where r: "handle_request gf2 True 0 None alice_registry ReplayProtector_default ?req = (Ret resp, rp')"
    "res_success resp" "res_user_id resp = ''alice''"
    and c: "\<And>g chunks'. encode response_bincode codec_new resp [] = (Inr (), g) \<Longrightarrow> concat chunks' = g \<Longrightarrow>
      handle_connection gf2 response_bincode True ReplayProtector_default
        [\<lparr>ev_message = Inr ?req, ev_now = 0, ev_dberr = None, ev_registry = alice_registry, ev_send = None\<rparr>] =
        ([resp], Ret (Inr ()), rp')" by blast
  have "resp = ?resp" using r(1) alice_verdict by simp
  then show ?thesis using c [of _ "[_]"] alice_verdict_encodes r(2,3) by fastforce
qed

text \<open>C2: authentication over Kafka, end to end. The record that an honest user's
  \<open>submit_verification\<close> publishes, once the worker has processed it without logging an error
  (user registered, clocks within the drift, nonce unused), leads to a record on the response
  topic that \<open>wait_for_response\<close> finds under the id of the request as soon as its polls reach it,
  and it reports \<open>success: true\<close> for that user.\<close>

theorem kafka_authentication_end_to_end:
  assumes B: "k256_bytes_ok K" and G: "k256_group_ok K" and k: "k \<noteq> SC_ZERO K"
    and J: "json_ok (req_json C)" "json_ok (res_json C)"
    and I: "rp_invar (wk_rp w)" and clock: "clock_in_range (wk_rp w) (env_now env)"
    and reg: "get_public_key K (env_dberr env) (env_registry env) u = Inr (Some (public_key K sk))"
    and fresh: "\<bar>sint (env_now env) - sint ts\<bar> \<le> sint (max_drift_secs (wk_rp w))"
    and unused: "map_of (seen_nonces (wk_rp w)) (u, nc) = None"
    and sub: "submit_verification K (req_json C) u sk False ts nc k uuid millis Produced = Ret (Inr req, [rec])"
    and work: "worker_batch K C chk w [(off, env, rec)] = (r, w')" and quiet: "wk_errors w' = wk_errors w"
    and log: "log = old @ drop (length (wk_published w)) (wk_published w') @ later"
    and old: "\<forall>r \<in> set old. \<not> answers (res_json C) (kreq_request_id req) r"
    and polls: "polls_ok log polls" "int (length old) < poll_reach polls 0"
  shows "\<exists>resp. wait_for_response (res_json C) (kreq_request_id req) (Inr 0) polls = Some resp \<and>
    kres_success resp \<and> kres_user_id resp = u"
proof -
  obtain p where p: "generate_proof K sk (public_key K sk) ts nc k = Ret p"
    using sub by (auto simp: submit_verification_def Let_def run_convs)
  obtain payload where req: "req = kafka_request_new uuid millis u (pk_to_bytes K (public_key K sk)) p"
    and payload: "kreq_to_json_bytes (req_json C) req = Inr payload" and rec: "rec = event_record u payload"
    using sub p
    by (cases "kreq_to_json_bytes (req_json C)
        (kafka_request_new uuid millis u (pk_to_bytes K (public_key K sk)) p)")
      (auto simp: submit_verification_def Let_def)
  have v: "rec_value rec = Some payload" "parse_request C payload = Inr req"
    using payload J(1)
    by (auto simp: rec event_record_def parse_request_def kreq_from_json_bytes_def kreq_to_json_bytes_def
        json_ok_def split: sum.splits)
  let ?d = "kafka_decision K chk (env_now env) (env_dberr env) (env_registry env) (wk_rp w) req"
  have tcp: "as_tcp req = \<lparr>req_user_id = u, req_public_key = pk_to_bytes K (public_key K sk), req_proof = p\<rparr>"
    by (simp add: as_tcp_def req kafka_request_new_def)
  have "decided_true (fst ?d)"
    using honest_request_granted [OF B G k I clock reg p fresh unused, of chk]
    by (simp add: same_verdict_granted [OF conjunct1 [OF decision_agrees]] tcp)
  then obtain message where d: "fst ?d = Ret (True, message)"
    by (auto simp: decided_true_def split: run.splits prod.splits)
  obtain res pub rp' where pr: "process_record K C chk env (wk_rp w) rec = (res, pub, rp')"
    by (rule prod_cases3)
  have res: "res = Ret (Inr ())"
    using pr v d work quiet
    by (auto simp: process_record_def Let_def split: prod.splits sum.splits option.splits produce_outcome.splits)
  obtain bs where bs: "pub = [bs]" "response_in (res_json C) bs =
      Some (kafka_response_new (env_now_millis env) uuid u True message)"
    by (rule process_record_publishes [OF J(2) pr [unfolded res] v d])
      (auto simp: response_in_def req kafka_request_new_def)
  have "wk_published w' = wk_published w @ [bs]"
    using work pr bs(1) by (auto split: run.splits)
  then have "log = old @ bs # later" by (simp add: log)
  then have "wait_for_response (res_json C) (kreq_request_id req) (Inr 0) polls =
      Some (kafka_response_new (env_now_millis env) uuid u True message)"
    using polls old bs(2)
    by (intro wait_reads_first) (simp_all add: req kafka_request_new_def kafka_response_new_def)
  then show ?thesis by (simp add: kafka_response_new_def)
qed

text \<open>The messages of the exchange, for the witness.\<close>

definition alice_answer :: KafkaAuthResponse where
  "alice_answer = kafka_response_new 0 ''id'' ''alice'' True
     (''ZKP Identity verified successfully for '' @ squote ''alice'')"

definition alice_answer_record :: kafka_record where
  "alice_answer_record = event_record ''alice'' (write_kafka_response alice_answer)"

definition idle_worker :: worker_state where
  "idle_worker = \<lparr>wk_offset = 0, wk_rp = ReplayProtector_default, wk_published = [], wk_errors = []\<rparr>"

lemma alice_decision:
  "kafka_decision gf2 True 0 None alice_registry ReplayProtector_default (alice_event honest_alice) =
     (Ret (True, ''ZKP Identity verified successfully for '' @ squote ''alice''),
      ReplayProtector_default\<lparr>seen_nonces := [((''alice'', one_nonce), 0)]\<rparr>)"
  by (simp add: kafka_decision_def honest_alice_def alice_admitted gf2_verify gf2_parity_input
      one_nonce_def gf2_point_of_pk)

lemma alice_processed:
  "worker_batch gf2 wire_codecs True idle_worker [(0, quiet_env, alice_record honest_alice)] =
     (Ret (), \<lparr>wk_offset = 1,
       wk_rp = ReplayProtector_default\<lparr>seen_nonces := [((''alice'', one_nonce), 0)]\<rparr>,
       wk_published = [alice_answer_record], wk_errors = []\<rparr>)"
proof -
  have parse: "parse_request wire_codecs (write_kafka_request (alice_event honest_alice)) =
      Inr (alice_event honest_alice)"
    by (rule alice_parse) (simp add: proof_short_def proof_wf_def gf2_point_def one_nonce_def
        honest_alice_def)
  have "kafka_response_short alice_answer"
    by (simp add: kafka_response_short_def alice_answer_def kafka_response_new_def squote_def)
  then have json: "kres_to_json_bytes kafka_response_json alice_answer = Inr (write_kafka_response alice_answer)"
    by (simp add: kres_to_json_bytes_def kafka_response_json_def wire_json_def serialize_with_def)
  show ?thesis
    using parse json
    by (simp add: idle_worker_def process_record_def alice_record_def alice_decision quiet_env_def
        alice_answer_record_def event_record_def alice_answer_def)
qed

theorem kafka_authentication_end_to_end_witness:
  "\<exists>resp. wait_for_response kafka_response_json ''id'' (Inr 0) [Inr (serve [alice_answer_record] 1)] = Some resp \<and>
    kres_success resp \<and> kres_user_id resp = ''alice''"
proof -
  have k: "True \<noteq> SC_ZERO gf2" by simp
  have J: "json_ok (req_json wire_codecs)" "json_ok (res_json wire_codecs)"
    by (simp_all add: wire_serializers_ok)
  have I: "rp_invar (wk_rp idle_worker)" "clock_in_range (wk_rp idle_worker) (env_now quiet_env)"
    by (simp_all add: idle_worker_def rp_invar_default clock_in_range_def i64_max_def)
  have reg: "get_public_key gf2 (env_dberr quiet_env) (env_registry quiet_env) ''alice'' =
      Inr (Some (public_key gf2 gf2_sk))" by (simp add: gf2_public_key)
  have fresh: "\<bar>sint (env_now quiet_env) - sint (0 :: i64)\<bar> \<le> sint (max_drift_secs (wk_rp idle_worker))"
    and unused: "map_of (seen_nonces (wk_rp idle_worker)) (''alice'', one_nonce) = None"
    by (simp_all add: idle_worker_def)
  let ?w' = "\<lparr>wk_offset = 1, wk_rp = ReplayProtector_default\<lparr>seen_nonces := [((''alice'', one_nonce), 0)]\<rparr>,
       wk_published = [alice_answer_record], wk_errors = []\<rparr>"
  have q: "wk_errors ?w' = wk_errors idle_worker"
    and log: "[alice_answer_record] = [] @ drop (length (wk_published idle_worker)) (wk_published ?w') @ []"
    and old: "\<forall>r \<in> set []. \<not> answers (res_json wire_codecs) (kreq_request_id (alice_event honest_alice)) r"
    by (simp_all add: idle_worker_def)
  have polls: "polls_ok [alice_answer_record] [Inr (serve [alice_answer_record] 1)]"
    "int (length ([] :: kafka_record list)) < poll_reach [Inr (serve [alice_answer_record] 1)] 0"
    by simp_all
  from kafka_authentication_end_to_end [OF gf2_bytes_ok gf2_group_ok k J I reg fresh unused
      alice_submits alice_processed q log old polls]
  show ?thesis by simp
qed

lemma recorded_other_user:
  assumes I: "rp_invar rp" and C: "clock_in_range rp now" and v: "v \<noteq> u"
    and unused: "map_of (seen_nonces rp) (v, nonce p) = None"
  shows "map_of (seen_nonces (snd (check_and_record chk now rp u p))) (v, nonce p) = None"
proof -
  have kd: "keys_distinct (seen_nonces rp)" using I by (simp add: rp_invar_def)
  show ?thesis
    using I C
  proof (cases rule: record_state_cases [of rp now chk u p])
    case unchanged
    then show ?thesis using unused by simp
  next
    case pruned
    then show ?thesis using unused by (simp add: map_of_retain [OF kd])
  next
    case recorded
    then show ?thesis using unused v by (simp add: map_of_retain [OF kd] update_conv')
  qed
qed

text \<open>C35: the user is not bound. The challenge covers the key but not the user id, and the nonce
  cache is keyed by user: when two users are registered with the same key, a proof that was
  accepted for the one is accepted again for the other, at the same instant.\<close>

theorem proof_transfers_to_other_user:
  assumes B: "k256_bytes_ok K" and G: "k256_group_ok K" and k: "k \<noteq> SC_ZERO K"
    and I: "rp_invar rp" and C: "clock_in_range rp now" and uv: "v \<noteq> u"
    and reg: "get_public_key K e reg u = Inr (Some (public_key K sk))"
      "get_public_key K e reg v = Inr (Some (public_key K sk))"
    and gen: "generate_proof K sk (public_key K sk) ts nc k = Ret p"
    and fresh: "\<bar>sint now - sint ts\<bar> \<le> sint (max_drift_secs rp)"
    and unused: "map_of (seen_nonces rp) (u, nc) = None" "map_of (seen_nonces rp) (v, nc) = None"
    and req: "req = \<lparr>req_user_id = u, req_public_key = pk_to_bytes K (public_key K sk), req_proof = p\<rparr>"
  shows "granted (fst (handle_request K chk now e reg rp req)) \<and>
    granted (fst (handle_request K chk now e reg (snd (handle_request K chk now e reg rp req))
      (req\<lparr>req_user_id := v\<rparr>)))"
proof
  let ?rp' = "snd (handle_request K chk now e reg rp req)"
  show "granted (fst (handle_request K chk now e reg rp req))"
    unfolding req by (rule honest_request_granted [OF B G k I C reg(1) gen fresh unused(1)])
  have nc: "nonce p = nc"
    using gen by (auto simp: generate_proof_def generate_proof_with_time_def Let_def run_convs)
  have d: "max_drift_secs ?rp' = max_drift_secs rp" by (rule handle_request_drift)
  have I': "rp_invar ?rp'" using I C by (rule handle_request_invar)
  have C': "clock_in_range ?rp' now" using C clock_in_range_cong [OF d] by simp
  have "key_matches K (tcp_call now e reg req)" by (simp add: key_matches_def reg req)
  then have "?rp' = snd (check_and_record chk now rp u p)"
    unfolding snd_handle_request by (simp add: service_step_def gated_def guard_call_def rp_step_def req)
  then have un: "map_of (seen_nonces ?rp') (v, nc) = None"
    using recorded_other_user [OF I C uv, of p chk] unused(2) nc by simp
  have fr: "\<bar>sint now - sint ts\<bar> \<le> sint (max_drift_secs ?rp')" using fresh by (simp add: d)
  have "req\<lparr>req_user_id := v\<rparr> =
      \<lparr>req_user_id = v, req_public_key = pk_to_bytes K (public_key K sk), req_proof = p\<rparr>" by (simp add: req)
  then show "granted (fst (handle_request K chk now e reg ?rp' (req\<lparr>req_user_id := v\<rparr>)))"
    using honest_request_granted [OF B G k I' C' reg(2) gen fr un, of chk] by simp
qed

theorem proof_transfers_to_other_user_witness:
  "granted (fst (handle_request gf2 True 0 None
      \<lparr>user_rows = [(''alice'', (gf2_point True, 0)), (''bob'', (gf2_point True, 0))]\<rparr>
      (snd (handle_request gf2 True 0 None
         \<lparr>user_rows = [(''alice'', (gf2_point True, 0)), (''bob'', (gf2_point True, 0))]\<rparr>
         ReplayProtector_default (alice_request honest_alice)))
      (alice_request honest_alice\<lparr>req_user_id := ''bob''\<rparr>)))"
proof (rule proof_transfers_to_other_user [OF gf2_bytes_ok gf2_group_ok _ rp_invar_default,
      where k = True and ts = 0 and nc = one_nonce and p = honest_alice and sk = gf2_sk and u = "''alice''",
      THEN conjunct2])
  show "generate_proof gf2 gf2_sk (public_key gf2 gf2_sk) 0 one_nonce True = Ret honest_alice"
    by (simp add: gf2_public_key gf2_honest_proof honest_alice_def)
  show "alice_request honest_alice =
      \<lparr>req_user_id = ''alice'', req_public_key = pk_to_bytes gf2 (public_key gf2 gf2_sk), req_proof = honest_alice\<rparr>"
    by (simp add: alice_request_def gf2_public_key)
qed (simp_all add: clock_in_range_def i64_max_def gf2_public_key get_public_key_def pk_from_bytes_def gf2_pk_def)

end
